(* ===== verification/Prelude.thy ===== *)
theory Prelude
  imports Main "HOL-Library.Word"
begin

text \<open>
  Shared vocabulary of the development.

  Machine integers keep the width the C source gives them where wrap-around can be observed
  (\<open>u8\<close>, \<open>u16\<close>, \<open>u32\<close>, \<open>u64\<close>); counters that the code
  keeps far below their limits are \<open>nat\<close> or \<open>int\<close>.  A C function that can stop the
  kernel returns an \<^emph>\<open>outcome\<close>: either a value or one of the ways in which control does not come
  back to the caller.  The lemmas collected here are the list, option and word facts that the
  component theories share.
\<close>

unbundle bit_operations_syntax

named_theorems outcome_simps \<open>unfolding of outcome-valued definitions\<close>

section \<open>Machine integers\<close>

type_synonym u8 = "8 word"
type_synonym u16 = "16 word"
type_synonym u32 = "32 word"
type_synonym u64 = "64 word"

section \<open>Outcomes of a kernel function\<close>

text \<open>
  \<open>Panic\<close> is a call of \<open>panic\<close> or a failed \<open>assert\<close>; \<open>Spin\<close> is a busy
  loop that cannot end on the single processor; \<open>BadAccess\<close> is an access through a null
  pointer or outside an array, which C leaves undefined; \<open>Blocked\<close> says that the caller was
  put to sleep and the rest of the call depends on another process; \<open>Reboot\<close> is the
  deliberate restart of the machine.
\<close>

datatype fault = Panic string | Spin | BadAccess string | Blocked | Reboot

datatype 'a outcome = Ret 'a | Fail fault

primrec obind :: "'a outcome \<Rightarrow> ('a \<Rightarrow> 'b outcome) \<Rightarrow> 'b outcome" where
  "obind (Ret x) f = f x"
| "obind (Fail e) f = Fail e"

primrec omap :: "('a \<Rightarrow> 'b) \<Rightarrow> 'a outcome \<Rightarrow> 'b outcome" where
  "omap f (Ret x) = Ret (f x)"
| "omap f (Fail e) = Fail e"

definition assertm :: "bool \<Rightarrow> string \<Rightarrow> 'a outcome \<Rightarrow> 'a outcome" where
  "assertm b msg k = (if b then k else Fail (Panic msg))"

primrec returns :: "'a outcome \<Rightarrow> bool" where
  "returns (Ret x) = True"
| "returns (Fail e) = False"

lemma obind_eq_Ret [simp]:
  "obind m f = Ret y \<longleftrightarrow> (\<exists>x. m = Ret x \<and> f x = Ret y)"
  by (cases m) auto

lemma obind_eq_Fail:
  "obind m f = Fail e \<longleftrightarrow> m = Fail e \<or> (\<exists>x. m = Ret x \<and> f x = Fail e)"
  by (cases m) auto

lemma obind_assoc: "obind (obind m f) g = obind m (\<lambda>x. obind (f x) g)"
  by (cases m) auto

lemma obind_Ret_right [simp]: "obind m Ret = m"
  by (cases m) auto

lemma obind_cong [fundef_cong]:
  "m = m' \<Longrightarrow> (\<And>x. m' = Ret x \<Longrightarrow> f x = g x) \<Longrightarrow> obind m f = obind m' g"
  by (cases m') auto

lemma omap_eq_Ret [simp]: "omap f m = Ret y \<longleftrightarrow> (\<exists>x. m = Ret x \<and> y = f x)"
  by (cases m) auto

lemma assertm_eq_Ret [simp]: "assertm b msg k = Ret x \<longleftrightarrow> b \<and> k = Ret x"
  by (simp add: assertm_def)

lemma assertm_True [simp]: "assertm True msg k = k"
  by (simp add: assertm_def)

lemma assertm_False [simp]: "assertm False msg k = Fail (Panic msg)"
  by (simp add: assertm_def)

lemma returns_iff: "returns m \<longleftrightarrow> (\<exists>x. m = Ret x)"
  by (cases m) auto

text \<open>A loop over the elements of an array, threading the state.\<close>

primrec ofold :: "('x \<Rightarrow> 's \<Rightarrow> 's outcome) \<Rightarrow> 'x list \<Rightarrow> 's \<Rightarrow> 's outcome" where
  "ofold f [] s = Ret s"
| "ofold f (x # xs) s = obind (f x s) (ofold f xs)"

lemma ofold_append: "ofold f (xs @ ys) s = obind (ofold f xs s) (ofold f ys)"
  by (induction xs arbitrary: s) (simp_all add: obind_assoc cong: obind_cong)

lemma ofold_fun: "ofold f [] = Ret" "ofold f (x # xs) = (\<lambda>s. obind (f x s) (ofold f xs))"
  by (simp_all add: fun_eq_iff)

lemma omap_eq_obind: "omap f m = obind m (\<lambda>x. Ret (f x))"
  by (cases m) simp_all

lemma ofold_cong [fundef_cong]:
  "xs = ys \<Longrightarrow> s = t \<Longrightarrow> (\<And>x u. x \<in> set ys \<Longrightarrow> f x u = g x u) \<Longrightarrow> ofold f xs s = ofold g ys t"
proof (induction xs arbitrary: ys s t)
  case (Cons x xs)
  then have "ofold f xs u = ofold g xs u" for u by (intro Cons.IH) auto
  then have "ofold f xs = ofold g xs" by (simp add: fun_eq_iff)
  with Cons show ?case by auto
qed simp

section \<open>Linear searches\<close>

text \<open>
  The recurring loop \<open>for (i = 0; i < N; i++) if (P(a[i])) break;\<close>: the first index whose
  element satisfies the test.
\<close>

primrec find_idx :: "('a \<Rightarrow> bool) \<Rightarrow> 'a list \<Rightarrow> nat option" where
  "find_idx P [] = None"
| "find_idx P (x # xs) = (if P x then Some 0 else map_option Suc (find_idx P xs))"

lemma find_idx_SomeD:
  "find_idx P xs = Some i \<Longrightarrow> i < length xs \<and> P (xs ! i) \<and> (\<forall>j<i. \<not> P (xs ! j))"
proof (induction xs arbitrary: i)
  case (Cons x xs)
  show ?case
  proof (cases "P x")
    case False
    with Cons.prems obtain k where k: "find_idx P xs = Some k" "i = Suc k" by auto
    with Cons.IH False show ?thesis by (auto simp: less_Suc_eq_0_disj nth_Cons split: nat.splits)
  qed (use Cons.prems in auto)
qed simp

lemma find_idx_None: "find_idx P xs = None \<longleftrightarrow> (\<forall>x\<in>set xs. \<not> P x)"
  by (induction xs) auto

lemma find_idx_Some_iff:
  "find_idx P xs = Some i \<longleftrightarrow> i < length xs \<and> P (xs ! i) \<and> (\<forall>j<i. \<not> P (xs ! j))"
proof
  assume r: "i < length xs \<and> P (xs ! i) \<and> (\<forall>j<i. \<not> P (xs ! j))"
  then obtain k where k: "find_idx P xs = Some k"
    using find_idx_None [of P xs] by (cases "find_idx P xs") (auto dest: nth_mem)
  from find_idx_SomeD [OF k] r have "k = i"
    by (metis linorder_neqE_nat)
  with k show "find_idx P xs = Some i" by simp
qed (rule find_idx_SomeD)

lemma find_idx_ex: "x \<in> set xs \<Longrightarrow> P x \<Longrightarrow> \<exists>i. find_idx P xs = Some i"
  using find_idx_None [of P xs] by auto

section \<open>Counting after an update\<close>

lemma length_filter_update:
  assumes "i < length xs"
  shows "length (filter P (xs[i := y])) + (if P (xs ! i) then 1 else 0)
       = length (filter P xs) + (if P y then 1 else 0)"
proof -
  have a: "filter P xs = filter P (take i xs) @ filter P [xs ! i] @ filter P (drop (Suc i) xs)"
    using assms by (metis append_Cons append_Nil filter_append id_take_nth_drop)
  have b: "filter P (xs[i := y]) = filter P (take i xs) @ filter P [y] @ filter P (drop (Suc i) xs)"
    using assms by (metis append_Cons append_Nil filter_append upd_conv_take_nth_drop)
  show ?thesis unfolding a b by simp
qed

lemma sum_list_update_nat:
  fixes f :: "'a \<Rightarrow> nat"
  assumes "i < length xs"
  shows "sum_list (map f (xs[i := y])) + f (xs ! i) = sum_list (map f xs) + f y"
proof -
  have a: "map f xs = map f (take i xs) @ f (xs ! i) # map f (drop (Suc i) xs)"
    using assms by (metis list.simps(9) map_append id_take_nth_drop)
  have b: "map f (xs[i := y]) = map f (take i xs) @ f y # map f (drop (Suc i) xs)"
    using assms by (metis list.simps(9) map_append upd_conv_take_nth_drop)
  show ?thesis unfolding a b by simp
qed

section \<open>Words\<close>

text \<open>Reading a word as a C \<open>int\<close>: nothing changes below the sign bit.\<close>

lemma sint32_nonneg: "unat (x :: u32) < 2 ^ 31 \<Longrightarrow> sint x = int (unat x)"
proof -
  assume lt: "unat x < 2 ^ 31"
  have self: "signed_take_bit 31 (int n) = int n" if "n < 2 ^ 31" for n
    using that by (intro signed_take_bit_int_eq_self) simp_all
  have "sint x = signed_take_bit 31 (int (unat x))" by (simp add: sint_uint)
  also have "\<dots> = int (unat x)" using lt by (rule self)
  finally show ?thesis .
qed

lemma sint64_nonneg: "unat (x :: u64) < 2 ^ 63 \<Longrightarrow> sint x = int (unat x)"
proof -
  assume lt: "unat x < 2 ^ 63"
  have self: "signed_take_bit 63 (int n) = int n" if "n < 2 ^ 63" for n
    using that by (intro signed_take_bit_int_eq_self) simp_all
  have "sint x = signed_take_bit 63 (int (unat x))" by (simp add: sint_uint)
  also have "\<dots> = int (unat x)" using lt by (rule self)
  finally show ?thesis .
qed

lemma unat_lt32: "unat (x :: u32) < 2 ^ 32"
  using unsigned_less [of x, where 'a = nat] by simp

lemma unat_lt64: "unat (x :: u64) < 2 ^ 64"
  using unsigned_less [of x, where 'a = nat] by simp

lemma mod_sum_zero: "(m + n) mod M = 0 \<Longrightarrow> 0 < n \<Longrightarrow> n < M \<Longrightarrow> m < M \<Longrightarrow> m = M - (n :: nat)"
  by (cases "m + n < M") (simp_all add: le_mod_geq)

lemma unat_neg64:
  assumes "(x :: u64) \<noteq> 0"
  shows "unat (- x) = 2 ^ 64 - unat x"
proof (rule mod_sum_zero)
  show "(unat (- x) + unat x) mod 2 ^ 64 = 0"
    using unat_word_ariths(1) [of "- x" x] by simp
qed (use assms unat_lt64 [of x] unat_lt64 [of "- x"] in \<open>simp_all add: unat_gt_0\<close>)

lemma unat_add_no_wrap:
  "unat (a :: u64) + unat b < 2 ^ 64 \<Longrightarrow> unat (a + b) = unat a + unat b"
  by (simp add: unat_word_ariths)

lemma unat_diff_le: "b \<le> a \<Longrightarrow> unat (a - b :: u64) = unat a - unat b"
  by (rule unat_sub)

end
