(* ===== verification/Kstring.thy ===== *)
theory Kstring
  imports Prelude
begin

text \<open>
  The byte and string routines of \<open>kernel/string.c\<close> and \<open>user/lib/ulib.c\<close> on a flat
  memory, a function from 64-bit addresses to bytes.  Pointer arithmetic wraps as on the machine.
  The counted loops recurse on their count; the loops that look for a terminating zero byte are
  partial functions, so that a string without terminator is the value \<open>None\<close>.

  The main facts: \<open>memset\<close> fills the range on both of its paths, \<open>memmove\<close> copies
  correctly for every overlap of source and target, the string copies never write outside their
  bound and terminate the target, and \<open>memcmp\<close>, \<open>strncmp\<close> decide equality.
\<close>

type_synonym bytes = "u64 \<Rightarrow> u8"

section \<open>kernel/string.c\<close>

text \<open>The instructions \<open>rep stosb\<close> and \<open>rep stosl\<close>; words are stored low byte first.\<close>

primrec stosb :: "u64 \<Rightarrow> u8 \<Rightarrow> nat \<Rightarrow> bytes \<Rightarrow> bytes" where
  "stosb a c 0 m = m"
| "stosb a c (Suc n) m = stosb (a + 1) c n (m(a := c))"

definition store32 :: "u64 \<Rightarrow> u32 \<Rightarrow> bytes \<Rightarrow> bytes" where
  "store32 a w m = m(a := ucast w, a + 1 := ucast (drop_bit 8 w),
     a + 2 := ucast (drop_bit 16 w), a + 3 := ucast (drop_bit 24 w))"

primrec stosl :: "u64 \<Rightarrow> u32 \<Rightarrow> nat \<Rightarrow> bytes \<Rightarrow> bytes" where
  "stosl a w 0 m = m"
| "stosl a w (Suc n) m = stosl (a + 4) w n (store32 a w m)"

definition memset :: "u64 \<Rightarrow> u32 \<Rightarrow> u32 \<Rightarrow> bytes \<Rightarrow> bytes" where
  "memset dst c n m =
     (if dst mod 4 = 0 \<and> n mod 4 = 0
      then let c1 = c AND 0xFF
           in stosl dst (push_bit 24 c1 OR push_bit 16 c1 OR push_bit 8 c1 OR c1) (unat n div 4) m
      else stosb dst (ucast c) (unat n) m)"

primrec memcmp :: "u64 \<Rightarrow> u64 \<Rightarrow> nat \<Rightarrow> bytes \<Rightarrow> int" where
  "memcmp s1 s2 0 m = 0"
| "memcmp s1 s2 (Suc n) m =
     (if m s1 \<noteq> m s2 then uint (m s1) - uint (m s2) else memcmp (s1 + 1) (s2 + 1) n m)"

primrec copy_forward :: "u64 \<Rightarrow> u64 \<Rightarrow> nat \<Rightarrow> bytes \<Rightarrow> bytes" where
  "copy_forward d s 0 m = m"
| "copy_forward d s (Suc n) m = copy_forward (d + 1) (s + 1) n (m(d := m s))"

primrec copy_backward :: "u64 \<Rightarrow> u64 \<Rightarrow> nat \<Rightarrow> bytes \<Rightarrow> bytes" where
  "copy_backward d s 0 m = m"
| "copy_backward d s (Suc n) m = copy_backward (d - 1) (s - 1) n (m(d - 1 := m (s - 1)))"

definition memmove :: "u64 \<Rightarrow> u64 \<Rightarrow> u32 \<Rightarrow> bytes \<Rightarrow> bytes" where
  "memmove dst src n m =
     (if src < dst \<and> dst < src + ucast n
      then copy_backward (dst + ucast n) (src + ucast n) (unat n) m
      else copy_forward dst src (unat n) m)"

definition memcpy :: "u64 \<Rightarrow> u64 \<Rightarrow> u32 \<Rightarrow> bytes \<Rightarrow> bytes" where
  "memcpy dst src n m = memmove dst src n m"

primrec strncmp :: "u64 \<Rightarrow> u64 \<Rightarrow> nat \<Rightarrow> bytes \<Rightarrow> int" where
  "strncmp p q 0 m = 0"
| "strncmp p q (Suc n) m =
     (if m p \<noteq> 0 \<and> m p = m q then strncmp (p + 1) (q + 1) n m else uint (m p) - uint (m q))"

text \<open>
  The two loops of \<open>strncpy\<close>: copy up to and including the zero byte, then pad.  The count of
  the second loop is what the first leaves.
\<close>

primrec strncpy_copy :: "u64 \<Rightarrow> u64 \<Rightarrow> nat \<Rightarrow> bytes \<Rightarrow> u64 \<times> nat \<times> bytes" where
  "strncpy_copy s t 0 m = (s, 0, m)"
| "strncpy_copy s t (Suc n) m =
     (let m1 = m(s := m t) in if m t \<noteq> 0 then strncpy_copy (s + 1) (t + 1) n m1 else (s + 1, n, m1))"

definition strncpy :: "u64 \<Rightarrow> u64 \<Rightarrow> int \<Rightarrow> bytes \<Rightarrow> bytes" where
  "strncpy s t n m = (let (s1, n1, m1) = strncpy_copy s t (nat n) m in stosb s1 0 n1 m1)"

primrec safestrcpy_copy :: "u64 \<Rightarrow> u64 \<Rightarrow> nat \<Rightarrow> bytes \<Rightarrow> u64 \<times> bytes" where
  "safestrcpy_copy s t 0 m = (s, m)"
| "safestrcpy_copy s t (Suc n) m =
     (let m1 = m(s := m t) in if m t \<noteq> 0 then safestrcpy_copy (s + 1) (t + 1) n m1 else (s + 1, m1))"

definition safestrcpy :: "u64 \<Rightarrow> u64 \<Rightarrow> int \<Rightarrow> bytes \<Rightarrow> bytes" where
  "safestrcpy s t n m =
     (if n \<le> 0 then m
      else let (s1, m1) = safestrcpy_copy s t (nat (n - 1)) m in m1(s1 := 0))"

partial_function (option) strlen_loop :: "nat \<Rightarrow> u64 \<Rightarrow> bytes \<Rightarrow> nat option" where
  "strlen_loop n s m = (if m (s + of_nat n) = 0 then Some n else strlen_loop (Suc n) s m)"

definition strlen :: "u64 \<Rightarrow> bytes \<Rightarrow> nat option" where
  "strlen s m = strlen_loop 0 s m"

section \<open>user/lib/ulib.c\<close>

partial_function (option) strcpy :: "u64 \<Rightarrow> u64 \<Rightarrow> bytes \<Rightarrow> bytes option" where
  "strcpy s t m = (let m1 = m(s := m t) in if m t = 0 then Some m1 else strcpy (s + 1) (t + 1) m1)"

partial_function (option) strcmp :: "u64 \<Rightarrow> u64 \<Rightarrow> bytes \<Rightarrow> int option" where
  "strcmp p q m =
     (if m p \<noteq> 0 \<and> m p = m q then strcmp (p + 1) (q + 1) m else Some (uint (m p) - uint (m q)))"

partial_function (option) strchr :: "u64 \<Rightarrow> u8 \<Rightarrow> bytes \<Rightarrow> u64 option" where
  "strchr s c m = (if m s = 0 then Some 0 else if m s = c then Some s else strchr (s + 1) c m)"

definition umemset :: "u64 \<Rightarrow> u32 \<Rightarrow> u32 \<Rightarrow> bytes \<Rightarrow> bytes" where
  "umemset dst c n m = stosb dst (ucast c) (unat n) m"

definition umemmove :: "u64 \<Rightarrow> u64 \<Rightarrow> int \<Rightarrow> bytes \<Rightarrow> bytes" where
  "umemmove vdst vsrc n m = copy_forward vdst vsrc (nat n) m"

text \<open>\<open>atoi\<close> keeps its value in a 32-bit \<open>int\<close>; a byte outside the digits ends it.\<close>

partial_function (option) atoi_loop :: "u32 \<Rightarrow> u64 \<Rightarrow> bytes \<Rightarrow> u32 option" where
  "atoi_loop n s m =
     (if 48 \<le> m s \<and> m s \<le> 57 then atoi_loop (n * 10 + ucast (m s) - 48) (s + 1) m else Some n)"

definition atoi :: "u64 \<Rightarrow> bytes \<Rightarrow> u32 option" where
  "atoi s m = atoi_loop 0 s m"

section \<open>Filling and copying\<close>

text \<open>An address lies in the \<open>n\<close> bytes from \<open>p\<close> on.\<close>

definition within :: "u64 \<Rightarrow> nat \<Rightarrow> u64 \<Rightarrow> bool" where
  "within p n a \<longleftrightarrow> unat (a - p) < n"

lemma unat_pred: "(x :: u64) \<noteq> 0 \<Longrightarrow> unat (x - 1) = unat x - 1"
  using unat_sub [of 1 x] by (simp add: word_le_nat_alt Suc_le_eq unat_gt_0)

lemma within_Suc: "within p (Suc n) a \<longleftrightarrow> a = p \<or> within (p + 1) n a"
proof (cases "a = p")
  case False
  then have "a - p \<noteq> 0" by simp
  then have "0 < unat (a - p)" using unat_gt_0 by blast
  then show ?thesis using False unat_pred [of "a - p"] by (auto simp: within_def diff_diff_eq)
qed (simp add: within_def)

lemma within_0 [simp]: "\<not> within p 0 a"
  by (simp add: within_def)

lemma not_within_next: "n < 2 ^ 64 \<Longrightarrow> \<not> within (p + 1) n p"
proof -
  assume n: "n < 2 ^ 64"
  have "p - (p + 1) = (2 ^ 64 - 1 :: u64)" by simp
  then have "unat (p - (p + 1)) = 2 ^ 64 - 1" by (simp add: unsigned_minus_1_eq_mask mask_eq_exp_minus_1)
  then show "\<not> within (p + 1) n p" using n by (simp add: within_def)
qed

lemma within_iff_ex: "n \<le> 2 ^ 64 \<Longrightarrow> within p n a \<longleftrightarrow> (\<exists>i<n. a = p + of_nat i)"
proof
  assume n: "n \<le> 2 ^ 64" and w: "within p n a"
  then show "\<exists>i<n. a = p + of_nat i"
    by (intro exI [of _ "unat (a - p)"]) (simp add: within_def)
next
  assume n: "n \<le> 2 ^ 64" and "\<exists>i<n. a = p + of_nat i"
  then obtain i where i: "i < n" "a = p + of_nat i" by blast
  then have "unat (a - p) = i" using n by (simp add: unat_of_nat)
  with i show "within p n a" by (simp add: within_def)
qed

lemma stosb_eq: "n < 2 ^ 64 \<Longrightarrow> stosb p c n m = (\<lambda>a. if within p n a then c else m a)"
proof (induction n arbitrary: p m)
  case (Suc n)
  then have "stosb p c (Suc n) m = (\<lambda>a. if within (p + 1) n a then c else (m(p := c)) a)" by simp
  then show ?case by (auto simp: within_Suc fun_eq_iff)
qed simp

text \<open>Storing one word of four equal bytes is storing four bytes.\<close>

definition spread :: "u8 \<Rightarrow> u32" where
  "spread c = push_bit 24 (ucast c) OR push_bit 16 (ucast c) OR push_bit 8 (ucast c) OR ucast c"

lemma spread_bytes:
  "ucast (spread c) = c" "ucast (drop_bit 8 (spread c)) = c" "ucast (drop_bit 16 (spread c)) = c"
  "ucast (drop_bit 24 (spread c)) = c"
  by (rule bit_word_eqI; auto simp: spread_def bit_simps dest: bit_imp_le_length)+

lemma store32_spread: "store32 p (spread c) m = stosb p c 4 m"
proof -
  have "stosb p c 4 m = m(p := c, p + 1 := c, p + 2 := c, p + 3 := c)"
    by (simp add: numeral_eq_Suc add.assoc)
  then show ?thesis by (simp only: store32_def spread_bytes)
qed

lemma stosb_add: "stosb p c (k + n) m = stosb (p + of_nat k) c n (stosb p c k m)"
  by (induction k arbitrary: p m) (simp_all add: algebra_simps)

lemma stosl_spread: "stosl p (spread c) n m = stosb p c (4 * n) m"
proof (induction n arbitrary: p m)
  case (Suc n)
  have "stosb p c (4 * Suc n) m = stosb (p + 4) c (4 * n) (stosb p c 4 m)"
    using stosb_add [of p c 4 "4 * n" m] by simp
  then show ?case using Suc by (simp add: store32_spread)
qed simp


lemma memset_eq: "memset dst c n m = (\<lambda>a. if within dst (unat n) a then ucast c else m a)"
proof (cases "dst mod 4 = 0 \<and> n mod 4 = 0")
  case True
  have c: "c AND 0xFF = ucast (ucast c :: u8)"
  proof -
    have "c AND 0xFF = take_bit 8 c" by (simp add: take_bit_eq_mask mask_eq_exp_minus_1)
    also have "\<dots> = ucast (ucast c :: u8)" by (rule bit_word_eqI) (auto simp: bit_simps)
    finally show ?thesis .
  qed
  have "unat (n mod 4) = 0" using True by simp
  then have "unat n mod 4 = 0" by (simp add: unat_mod)
  then have "4 * (unat n div 4) = unat n" by presburger
  moreover have "memset dst c n m = stosl dst (spread (ucast c)) (unat n div 4) m"
    unfolding memset_def spread_def Let_def c by (simp only: True if_True simp_thms)
  ultimately have "memset dst c n m = stosb dst (ucast c) (unat n) m" by (simp add: stosl_spread)
  moreover have "unat n < 2 ^ 64" using unat_lt32 [of n] by simp
  ultimately show ?thesis by (simp add: stosb_eq)
next
  case False
  moreover have "unat n < 2 ^ 64" using unat_lt32 [of n] by simp
  ultimately show ?thesis unfolding memset_def by (simp only: if_False stosb_eq)
qed


text \<open>
  A forward copy is right unless the target starts inside the source, strictly behind its first
  byte; a backward copy is the mirror image of a forward one.
\<close>

lemma copy_forward_eq:
  assumes "d = s \<or> n \<le> unat (d - s)" "n < 2 ^ 64"
  shows "copy_forward d s n m = (\<lambda>a. if within d n a then m (s + (a - d)) else m a)"
  using assms
proof (induction n arbitrary: d s m)
  case (Suc n)
  have sh: "(d + 1) - (s + 1) = d - s" by simp
  have IH: "copy_forward d s (Suc n) m =
     (\<lambda>a. if within (d + 1) n a then (m(d := m s)) (s + 1 + (a - (d + 1))) else (m(d := m s)) a)"
    unfolding copy_forward.simps
    by (rule Suc.IH [of "d + 1" "s + 1" "m(d := m s)"]) (use Suc.prems sh in auto)
  have ne: "s + 1 + (a - (d + 1)) = d \<Longrightarrow> within (d + 1) n a \<Longrightarrow> d = s" for a
  proof -
    assume e: "s + 1 + (a - (d + 1)) = d" and w: "within (d + 1) n a"
    have "a - d = d - s" using e by (simp add: algebra_simps)
    moreover have "unat (a - d) < Suc n" using w within_Suc [of d n a] by (simp add: within_def)
    ultimately show "d = s" using Suc.prems(1) by auto
  qed
  have nn: "\<not> within (d + 1) n d" using Suc.prems by (intro not_within_next) simp
  show ?case
  proof
    fix a
    have "s + 1 + (a - (d + 1)) = s + (a - d)" by simp
    then show "copy_forward d s (Suc n) m a = (if within d (Suc n) a then m (s + (a - d)) else m a)"
      using ne [of a] nn unfolding IH within_Suc by auto
  qed
qed simp

lemma copy_backward_mirror:
  "copy_backward d s n m = (\<lambda>a. copy_forward (1 - d) (1 - s) n (\<lambda>a. m (- a)) (- a))"
proof (induction n arbitrary: d s m)
  case (Suc n)
  have "(\<lambda>a. (m(d - 1 := m (s - 1))) (- a)) = (\<lambda>a. m (- a))(1 - d := m (- (1 - s)))"
    using minus_equation_iff [of _ "d - 1"] by (fastforce simp: fun_eq_iff)
  then show ?case by (simp add: Suc.IH algebra_simps)
qed simp

lemma within_mirror:
  assumes "n \<le> 2 ^ 64"
  shows "within (1 - (p + of_nat n)) n (- a) \<longleftrightarrow> within p n a"
proof -
  have "(\<exists>i<n. - a = 1 - (p + of_nat n) + of_nat i) \<longleftrightarrow> (\<exists>i<n. a = p + of_nat i)" (is "?l \<longleftrightarrow> ?r")
  proof
    assume ?l
    then obtain i where i: "i < n" "- a = 1 - (p + of_nat n) + of_nat i" by blast
    then have "a = p + of_nat (n - 1 - i)" by (simp add: of_nat_diff algebra_simps minus_equation_iff)
    with i show ?r by (intro exI [of _ "n - 1 - i"]) auto
  next
    assume ?r
    then obtain i where i: "i < n" "a = p + of_nat i" by blast
    then have "- a = 1 - (p + of_nat n) + of_nat (n - 1 - i)" by (simp add: of_nat_diff algebra_simps)
    with i show ?l by (intro exI [of _ "n - 1 - i"]) auto
  qed
  then show ?thesis using assms by (simp add: within_iff_ex)
qed

lemma copy_backward_eq:
  assumes "n \<le> unat (s - d)" "n < 2 ^ 64"
  shows "copy_backward (d + of_nat n) (s + of_nat n) n m = (\<lambda>a. if within d n a then m (s + (a - d)) else m a)"
proof -
  have "(1 - (d + of_nat n)) - (1 - (s + of_nat n)) = s - d" by simp
  then have f: "copy_forward (1 - (d + of_nat n)) (1 - (s + of_nat n)) n (\<lambda>a. m (- a)) =
     (\<lambda>a. if within (1 - (d + of_nat n)) n a
          then m (- (1 - (s + of_nat n) + (a - (1 - (d + of_nat n))))) else m (- a))"
    using assms by (intro copy_forward_eq) simp_all
  show ?thesis
    unfolding copy_backward_mirror f using assms(2) by (auto simp: within_mirror fun_eq_iff algebra_simps)
qed

lemma memmove_eq:
  assumes "unat src + unat n < 2 ^ 64"
  shows "memmove dst src n m = (\<lambda>a. if within dst (unat n) a then m (src + (a - dst)) else m a)"
proof -
  have n: "unat n < 2 ^ 32" by (rule unat_lt32)
  have e: "(ucast n :: u64) = of_nat (unat n)" by simp
  have u: "unat (src + ucast n) = unat src + unat n"
    using assms n by (simp add: unat_word_ariths unsigned_ucast_eq take_bit_nat_eq_self)
  have d: "unat (- x) = 2 ^ 64 - unat x" if "x \<noteq> 0" for x :: u64
    using that by (rule unat_neg64)
  show ?thesis
  proof (cases "src < dst \<and> dst < src + ucast n")
    case True
    then have lt: "unat src < unat dst" "unat dst < unat src + unat n"
      by (simp_all add: word_less_nat_alt u)
    then have "unat (dst - src) = unat dst - unat src" by (intro unat_diff_le) (simp add: word_le_nat_alt)
    moreover have "src - dst = - (dst - src)" "dst - src \<noteq> 0" using True by auto
    ultimately have "unat n \<le> unat (src - dst)" using lt n d [of "dst - src"] by simp
    then have "copy_backward (dst + ucast n) (src + ucast n) (unat n) m =
        (\<lambda>a. if within dst (unat n) a then m (src + (a - dst)) else m a)"
      unfolding e by (rule copy_backward_eq) (use n in simp)
    with True show ?thesis by (simp only: memmove_def if_True simp_thms)
  next
    case False
    then consider "dst = src" | "unat dst < unat src" | "unat src + unat n \<le> unat dst"
      unfolding word_less_nat_alt u word_unat_eq_iff by linarith
    then have "dst = src \<or> unat n \<le> unat (dst - src)"
    proof cases
      case 2
      then have "unat (src - dst) = unat src - unat dst" by (intro unat_diff_le) (simp add: word_le_nat_alt)
      moreover have "dst - src = - (src - dst)" "src - dst \<noteq> 0" using 2 by auto
      ultimately show ?thesis using assms d [of "src - dst"] by simp
    next
      case 3
      then have "unat (dst - src) = unat dst - unat src" by (intro unat_diff_le) (simp add: word_le_nat_alt)
      with 3 show ?thesis by arith
    qed simp
    then have "copy_forward dst src (unat n) m =
        (\<lambda>a. if within dst (unat n) a then m (src + (a - dst)) else m a)"
      by (rule copy_forward_eq) (use n in simp)
    with False show ?thesis by (simp only: memmove_def if_False)
  qed
qed


section \<open>Strings\<close>

text \<open>The zero-terminated string \<open>xs\<close> is stored at \<open>p\<close>.\<close>

primrec cstr :: "bytes \<Rightarrow> u64 \<Rightarrow> u8 list \<Rightarrow> bool" where
  "cstr m p [] \<longleftrightarrow> m p = 0"
| "cstr m p (x # xs) \<longleftrightarrow> x \<noteq> 0 \<and> m p = x \<and> cstr m (p + 1) xs"

text \<open>Two ranges have no address in common.\<close>

definition apart :: "u64 \<Rightarrow> nat \<Rightarrow> u64 \<Rightarrow> nat \<Rightarrow> bool" where
  "apart p n q k \<longleftrightarrow> (\<forall>a. \<not> (within p n a \<and> within q k a))"

lemma apart_step: "apart p (Suc n) q (Suc k) \<Longrightarrow> apart (p + 1) n (q + 1) k"
  by (auto simp: apart_def within_Suc)

lemma cstr_frame: "(\<And>a. within p (Suc (length xs)) a \<Longrightarrow> m' a = m a) \<Longrightarrow> cstr m p xs \<Longrightarrow> cstr m' p xs"
proof (induction xs arbitrary: p)
  case (Cons x xs)
  have "m' a = m a" if "within (p + 1) (Suc (length xs)) a" for a
    using Cons.prems(1) that by (simp add: within_Suc [of p])
  moreover have "m' p = m p" using Cons.prems(1) [of p] by (simp add: within_Suc)
  ultimately show ?case using Cons by simp
qed (simp add: within_Suc)

lemma cstr_upd: "\<not> within p (Suc (length xs)) s \<Longrightarrow> cstr m p xs \<Longrightarrow> cstr (m(s := c)) p xs"
  by (rule cstr_frame) auto

lemma cstr_unique: "cstr m p xs \<Longrightarrow> cstr m p ys \<Longrightarrow> xs = ys"
proof (induction xs arbitrary: p ys)
  case Nil
  then show ?case by (cases ys) auto
next
  case (Cons x xs)
  then show ?case by (cases ys) auto
qed

lemma strlen_loop_cstr: "cstr m (s + of_nat n) xs \<Longrightarrow> strlen_loop n s m = Some (n + length xs)"
proof (induction xs arbitrary: n)
  case Nil
  then show ?case by (subst strlen_loop.simps) simp
next
  case (Cons x xs)
  then have "strlen_loop (Suc n) s m = Some (Suc n + length xs)" by (intro Cons.IH) (simp add: add.commute add.left_commute)
  with Cons.prems show ?case by (subst strlen_loop.simps) simp
qed

lemma strlen_cstr: "cstr m s xs \<Longrightarrow> strlen s m = Some (length xs)"
  using strlen_loop_cstr [of m s 0 xs] by (simp add: strlen_def)

lemma strcmp_cstr: "cstr m p xs \<Longrightarrow> cstr m q ys \<Longrightarrow> \<exists>c. strcmp p q m = Some c \<and> (c = 0 \<longleftrightarrow> xs = ys)"
proof (induction xs arbitrary: p q ys)
  case Nil
  then show ?case by (cases ys) (subst strcmp.simps; auto simp: word_uint_eq_iff)+
next
  case (Cons x xs)
  show ?case
  proof (cases "ys \<noteq> [] \<and> hd ys = x")
    case True
    then obtain ys' where ys: "ys = x # ys'" by (cases ys) auto
    obtain c where "strcmp (p + 1) (q + 1) m = Some c" "c = 0 \<longleftrightarrow> xs = ys'"
      using Cons.IH [of "p + 1" "q + 1" ys'] Cons.prems ys by auto
    then show ?thesis using Cons.prems ys by (subst strcmp.simps) auto
  next
    case False
    then have "m q \<noteq> m p" using Cons.prems by (cases ys) auto
    then show ?thesis using Cons.prems False by (subst strcmp.simps) (auto simp: word_uint_eq_iff)
  qed
qed

lemma strchr_cstr:
  "cstr m s xs \<Longrightarrow> strchr s c m = Some (case find_idx (\<lambda>x. x = c) xs of None \<Rightarrow> 0 | Some i \<Rightarrow> s + of_nat i)"
proof (induction xs arbitrary: s)
  case Nil
  then show ?case by (subst strchr.simps) simp
next
  case (Cons x xs)
  show ?case
  proof (cases "x = c")
    case True
    then show ?thesis using Cons.prems by (subst strchr.simps) simp
  next
    case False
    then have "strchr s c m = strchr (s + 1) c m" using Cons.prems by (subst strchr.simps) simp
    then show ?thesis using Cons False by (auto simp: algebra_simps split: option.splits)
  qed
qed

lemma safestrcpy_copy_ok:
  assumes "cstr m t xs" "apart s (Suc n) t (Suc (length xs))" "Suc n < 2 ^ 64"
    "safestrcpy_copy s t n m = (s1, m1)"
  shows "cstr (m1(s1 := 0)) s (take n xs) \<and> (\<forall>a. \<not> within s (Suc n) a \<longrightarrow> (m1(s1 := 0)) a = m a)"
  using assms
proof (induction n arbitrary: s t m xs)
  case (Suc n)
  show ?case
  proof (cases xs)
    case Nil
    then show ?thesis using Suc.prems by (auto simp: within_Suc Let_def)
  next
    case (Cons x ys)
    define mm where "mm = m(s := x)"
    have x: "x \<noteq> 0" "m t = x" "cstr m (t + 1) ys" using Suc.prems(1) Cons by auto
    have ap: "apart (s + 1) (Suc n) (t + 1) (Suc (length ys))"
      using apart_step [OF Suc.prems(2)] Cons by simp
    have "\<not> within (t + 1) (Suc (length ys)) s"
      using Suc.prems(2) Cons unfolding apart_def by (auto simp: within_Suc [of s] within_Suc [of t])
    then have c: "cstr mm (t + 1) ys" unfolding mm_def using x(3) by (rule cstr_upd)
    have e: "safestrcpy_copy (s + 1) (t + 1) n mm = (s1, m1)"
      using Suc.prems(4) x by (simp add: Let_def mm_def)
    have "Suc n < 2 ^ 64" using Suc.prems(3) by simp
    from Suc.IH [OF c ap this e] have IH: "cstr (m1(s1 := 0)) (s + 1) (take n ys)"
      "\<forall>a. \<not> within (s + 1) (Suc n) a \<longrightarrow> (m1(s1 := 0)) a = mm a"
      by blast+
    have "\<not> within (s + 1) (Suc n) s" using Suc.prems(3) by (intro not_within_next) simp
    moreover define r where "r = m1(s1 := 0)"
    ultimately have "r s = x" using IH(2) by (simp add: mm_def)
    then show ?thesis using IH x Cons
      unfolding r_def [symmetric] by (auto simp: mm_def within_Suc [of s])
  qed
qed (simp add: within_Suc)

text \<open>The bytes that \<open>strncpy\<close> leaves in the target: the string, cut or padded with zeros.\<close>

lemma strncpy_copy_ok:
  assumes "cstr m t xs" "apart s n t (Suc (length xs))" "n < 2 ^ 64"
    "strncpy_copy s t n m = (s1, k, m1)"
  shows "stosb s1 0 k m1 = (\<lambda>a. if within s n a
     then (if unat (a - s) < length xs then xs ! unat (a - s) else 0) else m a)"
  using assms
proof (induction n arbitrary: s t m xs)
  case (Suc n)
  show ?case
  proof (cases xs)
    case Nil
    then have "s1 = s + 1" "k = n" "m1 = m(s := 0)" using Suc.prems by (auto simp: Let_def)
    then show ?thesis using Suc.prems(3) Nil
      by (auto simp: stosb_eq within_Suc [of s] fun_eq_iff)
  next
    case (Cons x ys)
    define mm where "mm = m(s := x)"
    have x: "x \<noteq> 0" "m t = x" "cstr m (t + 1) ys" using Suc.prems(1) Cons by auto
    have ap: "apart (s + 1) n (t + 1) (Suc (length ys))"
      using apart_step [of s n t "Suc (length ys)"] Suc.prems(2) Cons by simp
    have "\<not> within (t + 1) (Suc (length ys)) s"
      using Suc.prems(2) Cons unfolding apart_def by (auto simp: within_Suc [of s] within_Suc [of t])
    then have c: "cstr mm (t + 1) ys" unfolding mm_def using x(3) by (rule cstr_upd)
    have e: "strncpy_copy (s + 1) (t + 1) n mm = (s1, k, m1)"
      using Suc.prems(4) x by (simp add: Let_def mm_def)
    have n: "n < 2 ^ 64" using Suc.prems(3) by simp
    have nw: "\<not> within (s + 1) n s" by (rule not_within_next [OF n])
    show ?thesis
    proof
      fix a
      have u: "a \<noteq> s \<Longrightarrow> unat (a - s) = Suc (unat (a - (s + 1)))"
        using unat_pred [of "a - s"] by (simp add: diff_diff_eq unat_gt_0)
      show "stosb s1 0 k m1 a = (if within s (Suc n) a
         then (if unat (a - s) < length xs then xs ! unat (a - s) else 0) else m a)"
        unfolding Suc.IH [OF c ap n e]
        using u nw Cons by (cases "a = s") (auto simp: within_Suc [of s] mm_def)
    qed
  qed
qed simp

lemma strncmp_range:
  assumes "n < 2 ^ 64" "\<And>i. i < n \<Longrightarrow> m (p + of_nat i) = xs ! i" "\<And>i. i < n \<Longrightarrow> m (q + of_nat i) = ys ! i"
    "length xs = n" "length ys = n"
  shows "strncmp p q n m = 0 \<longleftrightarrow> takeWhile (\<lambda>x. x \<noteq> 0) xs = takeWhile (\<lambda>x. x \<noteq> 0) ys"
  using assms
proof (induction n arbitrary: p q xs ys)
  case (Suc n)
  obtain x xs' y ys' where xy: "xs = x # xs'" "ys = y # ys'"
    using Suc.prems(4,5) by (auto simp: length_Suc_conv)
  have h: "m p = x" "m q = y" using Suc.prems(2,3) [of 0] xy by auto
  show ?case
  proof (cases "x \<noteq> 0 \<and> x = y")
    case True
    have "strncmp (p + 1) (q + 1) n m = 0 \<longleftrightarrow>
        takeWhile (\<lambda>x. x \<noteq> 0) xs' = takeWhile (\<lambda>x. x \<noteq> 0) ys'"
    proof (rule Suc.IH)
      fix i assume "i < n"
      then show "m (p + 1 + of_nat i) = xs' ! i" "m (q + 1 + of_nat i) = ys' ! i"
        using Suc.prems(2,3) [of "Suc i"] xy by (simp_all add: add.assoc)
    qed (use Suc.prems xy in auto)
    then show ?thesis using True h xy by simp
  next
    case False
    then show ?thesis using h xy by (auto simp: word_uint_eq_iff)
  qed
qed simp

lemma memcmp_zero_iff: "memcmp p q n m = 0 \<longleftrightarrow> (\<forall>i<n. m (p + of_nat i) = m (q + of_nat i))"
proof (induction n arbitrary: p q)
  case (Suc n)
  have "(\<forall>i<Suc n. m (p + of_nat i) = m (q + of_nat i)) \<longleftrightarrow>
     m p = m q \<and> (\<forall>i<n. m (p + 1 + of_nat i) = m (q + 1 + of_nat i))"
    by (auto simp: All_less_Suc2 add.assoc)
  then show ?case using Suc by (auto simp: word_uint_eq_iff)
qed simp


lemma atoi_loop_digits:
  assumes "\<And>i. i < length ds \<Longrightarrow> m (s + of_nat i) = 48 + ds ! i \<and> ds ! i \<le> 9"
    "\<not> (48 \<le> m (s + of_nat (length ds)) \<and> m (s + of_nat (length ds)) \<le> 57)"
  shows "atoi_loop n s m = Some (foldl (\<lambda>v d. v * 10 + ucast d) n ds)"
  using assms
proof (induction ds arbitrary: n s)
  case Nil
  then show ?case by (subst atoi_loop.simps) auto
next
  case (Cons d ds)
  have d: "m s = 48 + d" "d \<le> 9" using Cons.prems(1) [of 0] by auto
  then have u: "unat (m s) = 48 + unat d"
    by (simp add: word_le_nat_alt unat_word_ariths)
  then have r: "48 \<le> m s \<and> m s \<le> 57" using d(2) by (simp add: word_le_nat_alt)
  have c: "ucast (m s) - 48 = (ucast d :: u32)"
    using u d(2) by (simp add: word_unat_eq_iff unat_sub word_le_nat_alt unsigned_ucast_eq take_bit_nat_eq_self)
  have "atoi_loop (n * 10 + ucast d) (s + 1) m = Some (foldl (\<lambda>v d. v * 10 + ucast d) (n * 10 + ucast d) ds)"
  proof (rule Cons.IH)
    fix i assume "i < length ds"
    then show "m (s + 1 + of_nat i) = 48 + ds ! i \<and> ds ! i \<le> 9"
      using Cons.prems(1) [of "Suc i"] by (simp add: add.assoc)
  qed (use Cons.prems(2) in \<open>simp add: add.assoc\<close>)
  moreover have "n * 10 + ucast (m s) - 48 = n * 10 + ucast d" using c by (simp only: add_diff_eq [symmetric])
  ultimately show ?case using r by (subst atoi_loop.simps) (simp only: if_True foldl_Cons simp_thms)
qed

section \<open>Properties\<close>

text \<open>
  C19. \<open>memmove\<close> copies \<open>n\<close> bytes correctly for every overlap of source and target: each byte
  of the target range holds what the corresponding source byte held before the call, and no other
  byte changes.  The only condition is that the source range does not wrap around the end of
  the address space.
\<close>

theorem memmove_correct:
  assumes "unat src + unat n < 2 ^ 64"
  shows "(\<forall>i < unat n. memmove dst src n m (dst + of_nat i) = m (src + of_nat i)) \<and>
     (\<forall>a. (\<forall>i < unat n. a \<noteq> dst + of_nat i) \<longrightarrow> memmove dst src n m a = m a)"
proof -
  have n: "unat n \<le> 2 ^ 64" using unat_lt32 [of n] by simp
  then show ?thesis by (auto simp: memmove_eq [OF assms] within_iff_ex)
qed

theorem memmove_correct_witness:
  "memmove 12 10 4 ucast 15 = 13 \<and> memmove 12 10 4 ucast 12 = 10 \<and> memmove 12 10 4 ucast 16 = 16"
proof -
  have h: "unat (10 :: u64) + unat (4 :: u32) < 2 ^ 64" by simp
  note m = memmove_correct [OF h, of 12 ucast]
  have "(16 :: u64) \<noteq> 12 + of_nat i" if "i < unat (4 :: u32)" for i
  proof -
    have "i = 0 \<or> i = 1 \<or> i = 2 \<or> i = 3" using that by auto
    then show ?thesis by auto
  qed
  then have "memmove 12 10 4 ucast 16 = ucast (16 :: u64)" using m by blast
  then show ?thesis
    using m [THEN conjunct1, rule_format, of 3] m [THEN conjunct1, rule_format, of 0] by simp
qed

text \<open>
  C35. \<open>safestrcpy\<close> with a positive size always leaves a terminated string, the longest prefix
  of the source that fits with its terminator, and writes only inside the target buffer.
\<close>

theorem safestrcpy_correct:
  assumes "cstr m t xs" "0 < n" "n < 2 ^ 31" "apart s (nat n) t (Suc (length xs))"
  shows "cstr (safestrcpy s t n m) s (take (nat n - 1) xs) \<and>
     (\<forall>a. \<not> within s (nat n) a \<longrightarrow> safestrcpy s t n m a = m a)"
proof -
  obtain s1 m1 where c: "safestrcpy_copy s t (nat n - 1) m = (s1, m1)" by fastforce
  have n: "Suc (nat n - 1) = nat n" "nat (n - 1) = nat n - 1" using assms(2) by auto
  have "safestrcpy s t n m = m1(s1 := 0)" using assms(2) c n by (simp add: safestrcpy_def)
  moreover have "Suc (nat n - 1) < 2 ^ 64" using assms(2,3) by simp
  ultimately show ?thesis using safestrcpy_copy_ok [OF assms(1) _ _ c] assms(4) n by metis
qed


text \<open>The string \<open>abc\<close> at address 8, zero elsewhere.\<close>

definition demo_bytes :: bytes where
  "demo_bytes = (\<lambda>a. if a = 8 then 97 else if a = 9 then 98 else if a = 10 then 99 else 0)"

theorem safestrcpy_correct_witness:
  "cstr demo_bytes 8 [97, 98, 99] \<and> cstr (safestrcpy 32 8 3 demo_bytes) 32 [97, 98]"
proof -
  have c: "cstr demo_bytes 8 [97, 98, 99]" by (simp add: demo_bytes_def)
  have "apart 32 (nat 3) 8 (Suc (length [97, 98, 99 :: u8]))"
  proof -
    have "\<not> within 8 4 a" if "within 32 3 a" for a
    proof -
      obtain i where i: "i < 3" "a = 32 + of_nat i" using \<open>within 32 3 a\<close> by (auto simp: within_iff_ex)
      then have "i = 0 \<or> i = 1 \<or> i = 2" by auto
      then show ?thesis using i(2) by (auto simp: within_def)
    qed
    then show ?thesis by (auto simp: apart_def numeral_eq_Suc)
  qed
  then show ?thesis using safestrcpy_correct [OF c, of 3 32] c by (simp add: take_Cons')
qed

end
