(* ===== verification/Layout.thy ===== *)
theory Layout
  imports Prelude
begin

text \<open>
  Constants and address arithmetic of \<open>inc/param.h\<close>, \<open>inc/memlayout.h\<close>, \<open>inc/mmu.h\<close>
  and \<open>inc/cdefs.h\<close>: page rounding, kernel virtual to physical translation, the four page
  table indices and the page table entry fields.
\<close>

section \<open>Parameters\<close>

definition NPROC :: nat where "NPROC = 64"
definition NOFILE :: nat where "NOFILE = 16"
definition NFILE :: nat where "NFILE = 100"
definition NINODE :: nat where "NINODE = 50"
definition NDEV :: int where "NDEV = 10"
definition ROOTDEV :: nat where "ROOTDEV = 1"
definition MAXARG :: nat where "MAXARG = 32"
definition MAXOPBLOCKS :: nat where "MAXOPBLOCKS = 10"
definition NBUF :: nat where "NBUF = MAXOPBLOCKS * 3"
definition FSSIZE :: nat where "FSSIZE = 50000"

text \<open>The modes of \<open>open\<close>, \<open>inc/fcntl.h\<close>.\<close>

definition O_RDONLY :: int where "O_RDONLY = 0x000"
definition O_WRONLY :: int where "O_WRONLY = 0x001"
definition O_RDWR :: int where "O_RDWR = 0x002"
definition O_CREATE :: int where "O_CREATE = 0x200"

section \<open>Sizes and the kernel's address map\<close>

definition SZ_2G :: u64 where "SZ_2G = 0x80000000"
definition SZ_4G :: u64 where "SZ_4G = 0x100000000"
definition PGSIZE :: u64 where "PGSIZE = 4096"
definition PT_SHIFT :: nat where "PT_SHIFT = 12"
definition KSTACKSIZE :: u64 where "KSTACKSIZE = PGSIZE"
definition EXTMEM :: u64 where "EXTMEM = 0x100000"
definition KERNBASE :: u64 where "KERNBASE = 0xFFFFFFFF80000000"
definition DEVSPACE :: u64 where "DEVSPACE = 0xFFFFFFFFFE000000"
definition KERNLINK :: u64 where "KERNLINK = KERNBASE + EXTMEM"

definition V2P :: "u64 \<Rightarrow> u64" where "V2P a = a - KERNBASE"
definition P2V :: "u64 \<Rightarrow> u64" where "P2V a = a + KERNBASE"

lemma V2P_P2V [simp]: "V2P (P2V a) = a" by (simp add: V2P_def P2V_def)
lemma P2V_V2P [simp]: "P2V (V2P a) = a" by (simp add: V2P_def P2V_def)

section \<open>Pages\<close>

definition PGNUM :: "u64 \<Rightarrow> u64" where "PGNUM la = drop_bit PT_SHIFT la"
definition PGROUNDUP :: "u64 \<Rightarrow> u64" where
  "PGROUNDUP sz = (sz + PGSIZE - 1) AND NOT (PGSIZE - 1)"
definition PGROUNDDOWN :: "u64 \<Rightarrow> u64" where
  "PGROUNDDOWN a = a AND NOT (PGSIZE - 1)"

lemma and_not_page_mask: "(a :: u64) AND NOT (4096 - 1) = push_bit 12 (drop_bit 12 a)"
proof -
  have "(4096 - 1 :: u64) = mask 12" by (simp add: mask_eq_exp_minus_1)
  then show ?thesis
    by (simp add: bit_eq_iff bit_simps) (auto simp: bit_simps)
qed

lemma unat_page_floor: "unat (push_bit 12 (drop_bit 12 (a :: u64))) = unat a div 4096 * 4096"
proof -
  have lt: "unat a div 4096 * 4096 < 2 ^ 64"
    by (rule le_less_trans [OF div_times_less_eq_dividend]) (use unsigned_less [of a] in simp)
  then show ?thesis
    by (simp add: push_bit_eq_mult drop_bit_eq_div unat_word_ariths unat_div mult.commute)
qed

lemma unat_PGROUNDDOWN: "unat (PGROUNDDOWN a) = unat a div 4096 * 4096"
  by (simp add: PGROUNDDOWN_def PGSIZE_def and_not_page_mask [simplified] unat_page_floor)

lemma unat_PGROUNDUP:
  assumes "unat sz + 4095 < 2 ^ 64"
  shows "unat (PGROUNDUP sz) = (unat sz + 4095) div 4096 * 4096"
proof -
  have "sz + PGSIZE - 1 = sz + 4095" by (simp add: PGSIZE_def)
  moreover have "unat (sz + 4095) = unat sz + 4095"
    using assms by (subst unat_add_lem [THEN iffD1]) auto
  ultimately show ?thesis
    by (simp only: PGROUNDUP_def PGSIZE_def and_not_page_mask unat_page_floor)
qed

lemma unat_PGNUM: "unat (PGNUM a) = unat a div 4096"
  by (simp add: PGNUM_def PT_SHIFT_def drop_bit_eq_div unat_div)

text \<open>\<open>ppn << PT_SHIFT\<close>: the physical address of a page frame, and the page number back.\<close>

definition page_addr :: "nat \<Rightarrow> u64" where
  "page_addr n = push_bit PT_SHIFT (of_nat n)"

lemma unat_page_addr: "n < 2 ^ 52 \<Longrightarrow> unat (page_addr n) = n * 4096"
  by (simp add: page_addr_def PT_SHIFT_def push_bit_eq_mult unat_word_ariths unat_of_nat)

lemma page_addr_inj: "m < 2 ^ 52 \<Longrightarrow> n < 2 ^ 52 \<Longrightarrow> page_addr m = page_addr n \<longleftrightarrow> m = n"
  by (metis unat_page_addr mult_right_cancel zero_neq_numeral)

lemma PGNUM_page_addr: "n < 2 ^ 52 \<Longrightarrow> unat (PGNUM (page_addr n)) = n"
  by (simp add: unat_PGNUM unat_page_addr)

lemma page_addr_mod: "n < 2 ^ 52 \<Longrightarrow> page_addr n mod PGSIZE = 0"
  by (simp add: word_unat_eq_iff unat_mod unat_page_addr PGSIZE_def)

section \<open>Page table entries and indices\<close>

definition PTE_P :: u64 where "PTE_P = 1"
definition PTE_W :: u64 where "PTE_W = 2"
definition PTE_U :: u64 where "PTE_U = 4"
definition PTE_ADDR :: "u64 \<Rightarrow> u64" where
  "PTE_ADDR pte = pte AND push_bit 12 (mask 40)"
definition PTE :: "u64 \<Rightarrow> u64 \<Rightarrow> u64" where "PTE pa flags = pa OR flags"

definition PTRS_PER_PT :: nat where "PTRS_PER_PT = 512"

definition PML4_INDEX :: "u64 \<Rightarrow> nat" where "PML4_INDEX va = unat (drop_bit 39 va AND 511)"
definition PDPT_INDEX :: "u64 \<Rightarrow> nat" where "PDPT_INDEX va = unat (drop_bit 30 va AND 511)"
definition PD_INDEX :: "u64 \<Rightarrow> nat" where "PD_INDEX va = unat (drop_bit 21 va AND 511)"
definition PT_INDEX :: "u64 \<Rightarrow> nat" where "PT_INDEX va = unat (drop_bit 12 va AND 511)"

definition PGADDR :: "u64 \<Rightarrow> u64 \<Rightarrow> u64 \<Rightarrow> u64 \<Rightarrow> u64 \<Rightarrow> u64" where
  "PGADDR l4 l3 d t off =
     push_bit 39 l4 OR push_bit 30 l3 OR push_bit 21 d OR push_bit 12 t OR off"

lemma unat_and_511: "unat ((a :: u64) AND 511) = unat a mod 512"
proof -
  have "(511 :: u64) = mask 9" by (simp add: mask_eq_exp_minus_1)
  then have "a AND 511 = take_bit 9 a" by (simp add: take_bit_eq_mask)
  then show ?thesis by (simp add: take_bit_eq_mod unat_mod)
qed

lemma index_eqs:
  "PML4_INDEX va = unat va div 2 ^ 39 mod 512"
  "PDPT_INDEX va = unat va div 2 ^ 30 mod 512"
  "PD_INDEX va = unat va div 2 ^ 21 mod 512"
  "PT_INDEX va = unat va div 2 ^ 12 mod 512"
  by (simp_all add: PML4_INDEX_def PDPT_INDEX_def PD_INDEX_def PT_INDEX_def unat_and_511
      drop_bit_eq_div unat_div)

lemma index_bounds [simp]:
  "PML4_INDEX va < 512" "PDPT_INDEX va < 512" "PD_INDEX va < 512" "PT_INDEX va < 512"
  by (simp_all add: index_eqs)

text \<open>The four indices determine the virtual page number (of the 48 translated bits).\<close>

lemma indices_determine_page:
  assumes "PML4_INDEX a = PML4_INDEX b" "PDPT_INDEX a = PDPT_INDEX b"
    and "PD_INDEX a = PD_INDEX b" "PT_INDEX a = PT_INDEX b"
  shows "unat a div 4096 mod 2 ^ 36 = unat b div 4096 mod 2 ^ 36"
proof -
  have split: "x mod 2 ^ 36 = 512 * (512 * (512 * (x div 512 div 512 div 512 mod 512)
      + x div 512 div 512 mod 512) + x div 512 mod 512) + x mod 512" for x :: nat
  proof -
    have "x mod 2 ^ 36 = x mod (512 * (512 * (512 * 512)))" by simp
    then show ?thesis by (simp only: mod_mult2_eq)
  qed
  have e: "unat v div 2 ^ 39 = unat v div 4096 div 512 div 512 div 512"
    "unat v div 2 ^ 30 = unat v div 4096 div 512 div 512"
    "unat v div 2 ^ 21 = unat v div 4096 div 512"
    "unat v div 2 ^ 12 = unat v div 4096" for v :: u64
    by (simp_all flip: div_mult2_eq)
  show ?thesis using assms unfolding index_eqs e split by (simp only:)
qed

lemma bit_page_addr: "bit (page_addr n) k \<longleftrightarrow> 12 \<le> k \<and> k < 64 \<and> bit n (k - 12)"
  by (auto simp: page_addr_def PT_SHIFT_def bit_simps)

lemma PTE_ADDR_PTE:
  assumes "n < 2 ^ 40" and "flags AND NOT 4095 = 0"
  shows "PTE_ADDR (PTE (page_addr n) flags) = page_addr n"
proof (rule bit_word_eqI)
  fix k assume k: "k < LENGTH(64)"
  have m: "(4095 :: u64) = mask 12" by (simp add: mask_eq_exp_minus_1)
  have fl: "\<not> bit flags k" if "12 \<le> k"
  proof -
    have "\<not> bit (flags AND NOT (mask 12)) k" using assms(2) by (simp add: m)
    then show ?thesis using k that by (simp add: bit_simps)
  qed
  have hi: "\<not> bit n (k - 12)" if "52 \<le> k"
  proof -
    have "n = take_bit 40 n" using assms(1) by (simp add: take_bit_nat_eq_self)
    then have "bit n (k - 12) \<longleftrightarrow> k - 12 < 40 \<and> bit n (k - 12)" by (metis bit_take_bit_iff)
    with that show ?thesis by auto
  qed
  show "bit (PTE_ADDR (PTE (page_addr n) flags)) k = bit (page_addr n) k"
    using k fl hi by (cases "52 \<le> k") (auto simp: PTE_ADDR_def PTE_def bit_simps bit_page_addr)
qed

end
