(* ===== verification/Locks.thy ===== *)
theory Locks
  imports Layout
begin

text \<open>
  \<open>kernel/spinlock.c\<close> with the processor state of \<open>inc/proc.h\<close> it reads and writes: the
  interrupt flag, the nesting depth \<open>ncli\<close> of \<open>pushcli\<close> and the saved flag
  \<open>intena\<close>.  \<open>mycpu()\<close> returns \<open>&cpus[0]\<close> always, so there is one processor.
  Lock objects are named by \<open>lock_id\<close>, one constructor per lock of the kernel; the fields
  \<open>pcs\<close> (the recorded call stack) and \<open>name\<close> are debugging output and only the name is kept.

  The record \<open>hw\<close> is the root of the kernel state: every component extends it with its own
  fields, and the operations below work on every extension.
\<close>

section \<open>Lock names\<close>

text \<open>Sleeping locks of the kernel: open-file slots, cached inodes, the inode table, buffers.\<close>

datatype sleep_id = FileSL nat | InodeSL nat | ItableSL | BufSL nat

datatype lock_id =
    PtableLock | KmemLock | BcacheLock | IcacheLock | TicksLock | ConsLock | IdeLock
  | PipeLock u64 | SleepLk sleep_id

record spinlock =
  locked :: bool
  lname :: string
  lcpu :: "nat option"

record hw =
  eflags_IF :: bool
  ncli :: int
  intena :: bool
  spin :: "lock_id \<Rightarrow> spinlock"

definition mycpu :: nat where "mycpu = 0"

section \<open>Operations of spinlock.c\<close>

definition initlock :: "lock_id \<Rightarrow> string \<Rightarrow> 'a hw_scheme \<Rightarrow> 'a hw_scheme" where
  "initlock l nm s = s\<lparr>spin := (spin s)(l := \<lparr>locked = False, lname = nm, lcpu = None\<rparr>)\<rparr>"

definition holding :: "lock_id \<Rightarrow> 'a hw_scheme \<Rightarrow> bool" where
  "holding l s \<longleftrightarrow> locked (spin s l) \<and> lcpu (spin s l) = Some mycpu"

definition pushcli :: "'a hw_scheme \<Rightarrow> 'a hw_scheme" where
  "pushcli s =
     (let eflags = eflags_IF s;
          s1 = s\<lparr>eflags_IF := False\<rparr>;
          s2 = (if ncli s1 = 0 then s1\<lparr>intena := eflags\<rparr> else s1)
      in s2\<lparr>ncli := ncli s2 + 1\<rparr>)"

definition popcli :: "'a hw_scheme \<Rightarrow> 'a hw_scheme outcome" where
  "popcli s =
     (if eflags_IF s then Fail (Panic ''popcli - interruptible'')
      else let s1 = s\<lparr>ncli := ncli s - 1\<rparr> in
        if ncli s1 < 0 then Fail (Panic ''popcli'')
        else if ncli s1 = 0 \<and> intena s1 then Ret (s1\<lparr>eflags_IF := True\<rparr>)
        else Ret s1)"

text \<open>
  The loop \<open>while (xchg(&lk->locked, 1) != 0);\<close> leaves at once when the lock is free; with
  one processor and interrupts off nobody can free it otherwise.
\<close>

definition acquire :: "lock_id \<Rightarrow> 'a hw_scheme \<Rightarrow> 'a hw_scheme outcome" where
  "acquire l s =
     (let s1 = pushcli s in
      if holding l s1 then Fail (Panic ''acquire'')
      else if locked (spin s1 l) then Fail Spin
      else Ret (s1\<lparr>spin := (spin s1)(l := (spin s1 l)\<lparr>locked := True, lcpu := Some mycpu\<rparr>)\<rparr>))"

definition release :: "lock_id \<Rightarrow> 'a hw_scheme \<Rightarrow> 'a hw_scheme outcome" where
  "release l s =
     (if \<not> holding l s then Fail (Panic ''release'')
      else popcli (s\<lparr>spin := (spin s)(l := (spin s l)\<lparr>locked := False, lcpu := None\<rparr>)\<rparr>))"

text \<open>
  The bracket \<open>acquire(l); body; release(l)\<close> of the critical sections, where every exit of the
  body releases the lock before it returns.
\<close>

definition with_lock ::
  "lock_id \<Rightarrow> ('a hw_scheme \<Rightarrow> ('r \<times> 'a hw_scheme) outcome) \<Rightarrow> 'a hw_scheme
     \<Rightarrow> ('r \<times> 'a hw_scheme) outcome" where
  "with_lock l body s =
     obind (acquire l s) (\<lambda>s1. obind (body s1) (\<lambda>(r, s2). obind (release l s2) (\<lambda>s3. Ret (r, s3))))"

section \<open>Invariants\<close>

text \<open>
  The invariant stated at \<open>ncli\<close> in \<open>inc/proc.h\<close>: while \<open>ncli > 0\<close> interrupts are
  disabled.
\<close>

definition cli_ok :: "'a hw_scheme \<Rightarrow> bool" where
  "cli_ok s \<longleftrightarrow> 0 \<le> ncli s \<and> (0 < ncli s \<longrightarrow> \<not> eflags_IF s)"

definition unheld :: "lock_id \<Rightarrow> 'a hw_scheme \<Rightarrow> bool" where
  "unheld l s \<longleftrightarrow> \<not> locked (spin s l) \<and> lcpu (spin s l) = None"

text \<open>The state inside a critical section, and what a completed section leaves behind.\<close>

definition enter :: "lock_id \<Rightarrow> 'a hw_scheme \<Rightarrow> 'a hw_scheme" where
  "enter l s = s\<lparr>eflags_IF := False,
      intena := (if ncli s = 0 then eflags_IF s else intena s),
      ncli := ncli s + 1,
      spin := (spin s)(l := (spin s l)\<lparr>locked := True, lcpu := Some mycpu\<rparr>)\<rparr>"

definition settle :: "'a hw_scheme \<Rightarrow> 'a hw_scheme" where
  "settle s = s\<lparr>intena := (if ncli s = 0 then eflags_IF s else intena s)\<rparr>"

lemma cli_ok_pushcli: "cli_ok s \<Longrightarrow> cli_ok (pushcli s)"
  by (simp add: cli_ok_def pushcli_def Let_def)

lemma cli_ok_popcli: "cli_ok s \<Longrightarrow> popcli s = Ret s' \<Longrightarrow> cli_ok s'"
  by (auto simp: cli_ok_def popcli_def Let_def split: if_splits)

lemma pop_push:
  assumes "cli_ok s"
  shows "popcli (pushcli s) = Ret (settle s)"
  using assms by (auto simp: cli_ok_def popcli_def pushcli_def settle_def Let_def intro: hw.equality)

lemma acquire_enter: "unheld l s \<Longrightarrow> acquire l s = Ret (enter l s)"
  by (simp add: acquire_def enter_def pushcli_def holding_def unheld_def Let_def)

lemma acquire_held: "holding l s \<Longrightarrow> acquire l s = Fail (Panic ''acquire'')"
  by (simp add: acquire_def pushcli_def holding_def Let_def)

lemma acquire_Ret: "acquire l s = Ret s' \<Longrightarrow> \<not> locked (spin s l) \<and> holding l s'"
  by (auto simp: acquire_def pushcli_def holding_def Let_def split: if_splits)

lemma cli_ok_acquire: "cli_ok s \<Longrightarrow> acquire l s = Ret s' \<Longrightarrow> cli_ok s' \<and> 0 < ncli s'"
  by (auto simp: acquire_def cli_ok_def pushcli_def Let_def split: if_splits)

lemma cli_ok_release: "cli_ok s \<Longrightarrow> release l s = Ret s' \<Longrightarrow> cli_ok s'"
  by (auto simp: release_def cli_ok_def split: if_splits dest!: cli_ok_popcli [rotated])

lemma holding_enter [simp]: "holding l (enter l s)"
  by (simp add: holding_def enter_def)

lemma unheld_enter_other: "l \<noteq> l' \<Longrightarrow> unheld l' (enter l s) \<longleftrightarrow> unheld l' s"
  by (simp add: unheld_def enter_def)

lemma cli_ok_enter: "cli_ok s \<Longrightarrow> cli_ok (enter l s)"
  by (simp add: cli_ok_def enter_def)

lemma settle_simps [simp]:
  "eflags_IF (settle s) = eflags_IF s" "ncli (settle s) = ncli s" "spin (settle s) = spin s"
  by (simp_all add: settle_def)

lemma unheld_settle [simp]: "unheld l (settle s) = unheld l s"
  by (simp add: unheld_def)

lemma cli_ok_settle [simp]: "cli_ok (settle s) = cli_ok s"
  by (simp add: cli_ok_def)

lemma settle_idem [simp]: "settle (settle s) = settle s"
  by (simp add: settle_def)

lemma unheld_fields: "unheld l s \<Longrightarrow> (spin s l)\<lparr>locked := False, lcpu := None\<rparr> = spin s l"
  by (simp add: unheld_def)

lemma release_enter:
  assumes "cli_ok s" "unheld l s"
  shows "release l (enter l s) = Ret (settle s)"
  using assms
  by (auto simp: release_def holding_def enter_def settle_def popcli_def cli_ok_def unheld_def Let_def
      intro!: hw.equality ext)

text \<open>
  A critical section whose body leaves the processor and lock fields alone: the bracket is the
  body, apart from the saved interrupt flag.
\<close>

definition same_hw :: "'a hw_scheme \<Rightarrow> 'a hw_scheme \<Rightarrow> bool" where
  "same_hw s t \<longleftrightarrow> eflags_IF s = eflags_IF t \<and> ncli s = ncli t \<and> intena s = intena t \<and> spin s = spin t"

definition put_hw :: "'a hw_scheme \<Rightarrow> 'a hw_scheme \<Rightarrow> 'a hw_scheme" where
  "put_hw t s = s\<lparr>eflags_IF := eflags_IF t, ncli := ncli t, intena := intena t, spin := spin t\<rparr>"

lemma same_hw_refl [simp]: "same_hw s s"
  by (simp add: same_hw_def)

lemma same_hw_put_hw [simp]: "same_hw (put_hw t s) t"
  by (simp add: same_hw_def put_hw_def)

lemma put_hw_simps [simp]:
  "eflags_IF (put_hw t s) = eflags_IF t" "ncli (put_hw t s) = ncli t"
  "intena (put_hw t s) = intena t" "spin (put_hw t s) = spin t" "hw.more (put_hw t s) = hw.more s"
  by (simp_all add: put_hw_def)

lemma unheld_put_hw [simp]: "unheld l (put_hw t s) = unheld l t"
  by (simp add: unheld_def)

lemma cli_ok_put_hw [simp]: "cli_ok (put_hw t s) = cli_ok t"
  by (simp add: cli_ok_def)

lemma release_put_hw:
  assumes "cli_ok s" "unheld l s" "same_hw s2 (enter l s)"
  shows "release l s2 = Ret (put_hw (settle s) s2)"
proof -
  have sp: "(spin s)(l := (spin s l)\<lparr>locked := False, lcpu := None\<rparr>) = spin s"
    using assms(2) by (simp add: unheld_fields)
  show ?thesis
    using assms(1,3) sp
    by (auto simp: release_def holding_def enter_def settle_def popcli_def cli_ok_def same_hw_def
        put_hw_def Let_def intro!: hw.equality)
qed

lemma with_lock_Ret:
  assumes "cli_ok s" "unheld l s" "body (enter l s) = Ret (r, s2)" "same_hw s2 (enter l s)"
  shows "with_lock l body s = Ret (r, put_hw (settle s) s2)"
  using assms by (simp add: with_lock_def acquire_enter release_put_hw)

lemma with_lock_Fail:
  assumes "unheld l s" "body (enter l s) = Fail e"
  shows "with_lock l body s = Fail e"
  using assms by (simp add: with_lock_def acquire_enter)

lemma with_lock_held: "holding l s \<Longrightarrow> with_lock l body s = Fail (Panic ''acquire'')"
  by (simp add: with_lock_def acquire_held)

text \<open>
  Bodies that neither read nor write the processor and lock fields; the bracket around such a
  body is the body itself with the processor fields of the caller.
\<close>

definition hw_param :: "('a hw_scheme \<Rightarrow> ('r \<times> 'a hw_scheme) outcome) \<Rightarrow> bool" where
  "hw_param body \<longleftrightarrow> (\<forall>h s. body (put_hw h s) = omap (\<lambda>(r, s'). (r, put_hw h s')) (body s))"

lemma put_hw_put_hw [simp]: "put_hw h (put_hw h' s) = put_hw h s"
  by (simp add: put_hw_def)

lemma put_hw_left [simp]: "put_hw (put_hw h s) t = put_hw h t"
  by (simp add: put_hw_def)

lemma put_hw_same [simp]: "put_hw s s = s"
  by (simp add: put_hw_def)

lemma enter_put_hw: "enter l s = put_hw (enter l s) s"
  by (simp add: enter_def put_hw_def)

lemma settle_put_hw: "settle s = put_hw (settle s) s"
  by (simp add: settle_def put_hw_def)

lemma with_lock_param:
  assumes "cli_ok s" "unheld l s" "hw_param body"
  shows "with_lock l body s = omap (\<lambda>(r, s'). (r, put_hw (settle s) s')) (body s)"
proof -
  have b: "body (enter l s) = omap (\<lambda>(r, s'). (r, put_hw (enter l s) s')) (body s)"
    using assms(3) unfolding hw_param_def by (metis enter_put_hw)
  show ?thesis
  proof (cases "body s")
    case (Ret x)
    obtain r s2 where x: "x = (r, s2)" by (cases x)
    have "with_lock l body s = Ret (r, put_hw (settle s) (put_hw (enter l s) s2))"
      using assms b Ret x by (intro with_lock_Ret) simp_all
    with Ret x show ?thesis by simp
  qed (use assms b in \<open>simp add: with_lock_Fail\<close>)
qed

section \<open>The lock contract\<close>

text \<open>
  What a client of a lock relies on: acquiring a free lock succeeds and makes it held, acquiring
  a held one does not return, releasing a held one frees it, releasing a free one does not
  return.
\<close>

locale lock_contract =
  fixes acq rel :: "'s \<Rightarrow> 's outcome"
    and free held :: "'s \<Rightarrow> bool"
  assumes acq_free: "free s \<Longrightarrow> \<exists>s'. acq s = Ret s' \<and> held s'"
    and acq_held: "held s \<Longrightarrow> \<not> returns (acq s)"
    and rel_held: "held s \<Longrightarrow> \<exists>s'. rel s = Ret s' \<and> free s'"
    and rel_free: "free s \<Longrightarrow> \<not> returns (rel s)"
begin

lemma free_not_held: "free s \<Longrightarrow> \<not> held s"
  using rel_free [of s] rel_held [of s] by (auto simp: returns_iff)

lemma bracket:
  assumes "free s" and "\<And>t. held t \<Longrightarrow> \<exists>t'. body t = Ret t' \<and> held t'"
  shows "\<exists>s'. obind (acq s) (\<lambda>t. obind (body t) rel) = Ret s' \<and> free s'"
proof -
  obtain t where t: "acq s = Ret t" "held t" using acq_free [OF assms(1)] by blast
  obtain t' where t': "body t = Ret t'" "held t'" using assms(2) [OF t(2)] by blast
  show ?thesis using rel_held [OF t'(2)] t t' by auto
qed

lemma no_reacquire: "free s \<Longrightarrow> \<not> returns (obind (acq s) acq)"
  using acq_free [of s] acq_held by auto

end

definition spin_free :: "lock_id \<Rightarrow> 'a hw_scheme \<Rightarrow> bool" where
  "spin_free l s \<longleftrightarrow> cli_ok s \<and> unheld l s"

definition spin_held :: "lock_id \<Rightarrow> 'a hw_scheme \<Rightarrow> bool" where
  "spin_held l s \<longleftrightarrow> cli_ok s \<and> holding l s \<and> 0 < ncli s"

lemma release_spin_held: "spin_held l s \<Longrightarrow> \<exists>s'. release l s = Ret s' \<and> spin_free l s'"
  by (auto simp: spin_held_def spin_free_def release_def popcli_def cli_ok_def unheld_def Let_def)

interpretation spinl: lock_contract "acquire l" "release l" "spin_free l" "spin_held l" for l
proof unfold_locales
  fix s :: "'b hw_scheme"
  show "\<exists>s'. acquire l s = Ret s' \<and> spin_held l s'" if "spin_free l s"
    using that cli_ok_acquire [of s l "enter l s"]
    by (auto simp: spin_free_def spin_held_def acquire_enter)
  show "\<not> returns (acquire l s)" if "spin_held l s"
    using that by (simp add: spin_held_def acquire_held)
  show "\<exists>s'. release l s = Ret s' \<and> spin_free l s'" if "spin_held l s"
    using that by (rule release_spin_held)
  show "\<not> returns (release l s)" if "spin_free l s"
    using that by (simp add: spin_free_def unheld_def release_def holding_def)
qed

end
