(* ===== verification/Kalloc.thy ===== *)
theory Kalloc
  imports Locks
begin

text \<open>
  \<open>kernel/kalloc.c\<close>: the physical page allocator with its reference counted core map.  Physical
  memory itself is \<open>mem\<close>, indexed by page frame number and byte offset; the core map is the
  array \<open>core_map[npages]\<close>.  The linker symbol \<open>_end\<close> is the field \<open>kend\<close>.
\<close>

section \<open>State\<close>

record core_map_entry =
  available :: int
  user :: int
  cva :: u64
  refcount :: nat

definition zero_entry :: core_map_entry where
  "zero_entry = \<lparr>available = 0, user = 0, cva = 0, refcount = 0\<rparr>"

definition sizeof_core_map_entry :: nat where "sizeof_core_map_entry = 24"

record km = hw +
  npages :: nat
  pages_in_use :: int
  pages_in_swap :: int
  free_pages :: int
  core_map :: "core_map_entry list"
  use_lock :: bool
  kend :: u64
  rand_next :: u64
  mem :: "nat \<Rightarrow> nat \<Rightarrow> u8"

text \<open>
  \<open>(uint64_t)(npages * PGSIZE)\<close>: the product is computed in a signed 32-bit \<open>int\<close> and
  sign-extended.
\<close>

definition npages_bytes :: "'a km_scheme \<Rightarrow> u64" where
  "npages_bytes s = word_of_int (sint (of_nat (npages s) * 4096 :: u32))"

section \<open>Operations\<close>

definition pa2page :: "u64 \<Rightarrow> 'a km_scheme \<Rightarrow> nat outcome" where
  "pa2page pa s =
     (if npages s \<le> unat (PGNUM pa) then Fail (Panic ''pa2page called with invalid pa'')
      else Ret (unat (PGNUM pa)))"

definition page2pa :: "nat \<Rightarrow> u64" where
  "page2pa pp = page_addr pp"

text \<open>The bracket \<open>if (kmem.use_lock) acquire(&kmem.lock); ...; if (kmem.use_lock) release(&kmem.lock);\<close>.\<close>

definition kmem_locked ::
  "('a km_scheme \<Rightarrow> ('r \<times> 'a km_scheme) outcome) \<Rightarrow> 'a km_scheme \<Rightarrow> ('r \<times> 'a km_scheme) outcome" where
  "kmem_locked body s = (if use_lock s then with_lock KmemLock body s else body s)"

text \<open>The argument check shared by \<open>kfree\<close>, \<open>increment_refcount\<close> and \<open>check_refcount\<close>.\<close>

definition bad_page :: "u64 \<Rightarrow> 'a km_scheme \<Rightarrow> bool" where
  "bad_page v s \<longleftrightarrow> v mod PGSIZE \<noteq> 0 \<or> v < kend s \<or> npages_bytes s \<le> V2P v"

definition kfree_section :: "u64 \<Rightarrow> 'a km_scheme \<Rightarrow> (unit \<times> 'a km_scheme) outcome" where
  "kfree_section v s =
     obind (pa2page (V2P v) s) (\<lambda>i.
       let r = core_map s ! i;
           r1 = (if 0 < refcount r then r\<lparr>refcount := refcount r - 1\<rparr> else r)
       in if refcount r1 = 0
          then Ret ((), s\<lparr>pages_in_use := pages_in_use s - 1,
                          free_pages := free_pages s + 1,
                          mem := (mem s)(i := (\<lambda>_. 2)),
                          core_map := (core_map s)[i := r1\<lparr>available := 1, user := 0, cva := 0, refcount := 0\<rparr>]\<rparr>)
          else Ret ((), s\<lparr>core_map := (core_map s)[i := r1]\<rparr>))"

definition kfree :: "u64 \<Rightarrow> 'a km_scheme \<Rightarrow> 'a km_scheme outcome" where
  "kfree v s =
     (if bad_page v s then Fail (Panic ''kfree'') else omap snd (kmem_locked (kfree_section v) s))"

definition increment_section :: "u64 \<Rightarrow> 'a km_scheme \<Rightarrow> (unit \<times> 'a km_scheme) outcome" where
  "increment_section v s =
     obind (pa2page (V2P v) s) (\<lambda>i.
       let r = core_map s ! i
       in Ret ((), s\<lparr>core_map := (core_map s)[i := r\<lparr>refcount := refcount r + 1\<rparr>]\<rparr>))"

definition increment_refcount :: "u64 \<Rightarrow> 'a km_scheme \<Rightarrow> 'a km_scheme outcome" where
  "increment_refcount v s =
     (if bad_page v s then Fail (Panic ''increment_refcount'')
      else omap snd (kmem_locked (increment_section v) s))"

definition check_refcount :: "u64 \<Rightarrow> 'a km_scheme \<Rightarrow> (nat \<times> 'a km_scheme) outcome" where
  "check_refcount v s =
     (if bad_page v s then Fail (Panic ''check_refcount'')
      else kmem_locked (\<lambda>s. obind (pa2page (V2P v) s) (\<lambda>i. Ret (refcount (core_map s ! i), s))) s)"

definition mark_user_mem :: "u64 \<Rightarrow> u64 \<Rightarrow> 'a km_scheme \<Rightarrow> 'a km_scheme outcome" where
  "mark_user_mem pa va s =
     obind (pa2page pa s) (\<lambda>i.
       Ret (s\<lparr>core_map := (core_map s)[i := (core_map s ! i)\<lparr>user := 1, cva := va\<rparr>]\<rparr>))"

definition mark_kernel_mem :: "u64 \<Rightarrow> 'a km_scheme \<Rightarrow> 'a km_scheme outcome" where
  "mark_kernel_mem pa s =
     obind (pa2page pa s) (\<lambda>i.
       Ret (s\<lparr>core_map := (core_map s)[i := (core_map s ! i)\<lparr>user := 0, cva := 0\<rparr>]\<rparr>))"

definition kalloc_section :: "'a km_scheme \<Rightarrow> (u64 \<times> 'a km_scheme) outcome" where
  "kalloc_section s =
     (case find_idx (\<lambda>e. available e = 1) (take (npages s) (core_map s)) of
        None \<Rightarrow> Ret (0, s)
      | Some i \<Rightarrow>
          Ret (P2V (page2pa i),
               s\<lparr>core_map := (core_map s)[i := (core_map s ! i)\<lparr>available := 0, refcount := 1\<rparr>],
                 pages_in_use := pages_in_use s + 1,
                 free_pages := free_pages s - 1\<rparr>))"

definition kalloc :: "'a km_scheme \<Rightarrow> (u64 \<times> 'a km_scheme) outcome" where
  "kalloc s = kmem_locked kalloc_section s"

text \<open>
  \<open>freerange\<close>: the loop frees every whole page of the range.  The fuel is the number of pages
  between the start and the end of the range; running out of it is the endless loop.
\<close>

primrec freerange_loop :: "nat \<Rightarrow> u64 \<Rightarrow> u64 \<Rightarrow> 'a km_scheme \<Rightarrow> 'a km_scheme outcome" where
  "freerange_loop 0 p vend s = Fail Spin"
| "freerange_loop (Suc n) p vend s =
     (if p + PGSIZE \<le> vend then obind (kfree p s) (freerange_loop n (p + PGSIZE) vend) else Ret s)"

definition freerange :: "u64 \<Rightarrow> u64 \<Rightarrow> 'a km_scheme \<Rightarrow> 'a km_scheme outcome" where
  "freerange vstart vend s =
     (let p = PGROUNDUP vstart in freerange_loop (Suc (unat (vend - p) div 4096)) p vend s)"

definition setrand :: "u32 \<Rightarrow> 'a km_scheme \<Rightarrow> 'a km_scheme" where
  "setrand seed s = s\<lparr>rand_next := ucast seed\<rparr>"

definition core_map_bytes :: "nat \<Rightarrow> u64" where
  "core_map_bytes n = of_nat (n * sizeof_core_map_entry)"

definition mem_init :: "u64 \<Rightarrow> 'a km_scheme \<Rightarrow> 'a km_scheme outcome" where
  "mem_init vstart s =
     (let s1 = s\<lparr>core_map := replicate (npages s) zero_entry\<rparr>;
          vstart1 = vstart + PGROUNDUP (core_map_bytes (npages s));
          s2 = (initlock KmemLock ''kmem'' s1)\<lparr>use_lock := False\<rparr>;
          vend = P2V (npages_bytes s)
      in obind (freerange vstart1 vend s2) (\<lambda>s3.
           Ret (setrand 1 (s3\<lparr>free_pages := sint (ucast (signed_drop_bit PT_SHIFT (vend - vstart1)) :: u32),
                              pages_in_use := 0, pages_in_swap := 0, use_lock := True\<rparr>))))"

text \<open>\<open>detect_memory\<close> over the entries \<open>(addr, len)\<close> of the E820 map.\<close>

definition detect_memory :: "(u64 \<times> u64) list \<Rightarrow> 'a km_scheme \<Rightarrow> 'a km_scheme" where
  "detect_memory entries s =
     (let mem_max = - KERNBASE;
          m = fold (\<lambda>(addr, len) m. if mem_max \<le> addr then m else max m (addr + len)) entries 0;
          m1 = min m mem_max
      in s\<lparr>npages := unat (m1 div PGSIZE)\<rparr>)"

text \<open>The linear congruential generator and the page sampling built on it.\<close>

definition rand :: "nat \<Rightarrow> 'a km_scheme \<Rightarrow> nat \<times> 'a km_scheme" where
  "rand limit s =
     (let nx = rand_next s * 1103515245 + 12345
      in (unat (ucast (nx div 65536) :: u32) mod limit, s\<lparr>rand_next := nx\<rparr>))"

primrec sample_user_page :: "nat \<Rightarrow> 'a km_scheme \<Rightarrow> (nat \<times> 'a km_scheme) outcome" where
  "sample_user_page 0 s = Fail (Panic ''Tried 100 random indices for random user page, all failed'')"
| "sample_user_page (Suc x) s =
     (let (i, s1) = rand (npages s) s
      in if cva (core_map s1 ! i) \<noteq> 0 then Ret (i, s1) else sample_user_page x s1)"

definition get_random_user_page :: "'a km_scheme \<Rightarrow> (nat \<times> 'a km_scheme) outcome" where
  "get_random_user_page s = sample_user_page 100 s"

section \<open>Invariant\<close>

text \<open>
  The kernel virtual address of a page frame, and the frames the allocator manages: those from
  the end of the kernel image up to the end of memory.
\<close>

definition kva :: "nat \<Rightarrow> u64" where "kva i = P2V (page_addr i)"

definition managed :: "'a km_scheme \<Rightarrow> nat \<Rightarrow> bool" where
  "managed s i \<longleftrightarrow> i < npages s \<and> kend s \<le> kva i"

definition entry_ok :: "core_map_entry \<Rightarrow> bool" where
  "entry_ok e \<longleftrightarrow> (available e = 0 \<or> available e = 1 \<and> refcount e = 0)"

definition free_count :: "'a km_scheme \<Rightarrow> nat" where
  "free_count s = length (filter (\<lambda>e. available e = 1) (core_map s))"

definition kmem_inv :: "'a km_scheme \<Rightarrow> bool" where
  "kmem_inv s \<longleftrightarrow>
     length (core_map s) = npages s \<and> npages s < 2 ^ 19 \<and>
     (\<forall>i < npages s. entry_ok (core_map s ! i) \<and> (available (core_map s ! i) = 1 \<longrightarrow> managed s i)
        \<and> (0 < refcount (core_map s ! i) \<longrightarrow> managed s i)) \<and>
     free_pages s = int (free_count s)"

text \<open>The allocator can be called: its lock is not held and interrupts are nested properly.\<close>

definition kmem_ready :: "'a km_scheme \<Rightarrow> bool" where
  "kmem_ready s \<longleftrightarrow> kmem_inv s \<and> spin_free KmemLock s"

section \<open>Addresses\<close>

lemma npages_bytes_small:
  assumes "npages s < 2 ^ 19"
  shows "npages_bytes s = of_nat (npages s * 4096)"
proof -
  have u: "unat (of_nat (npages s) * 4096 :: u32) = npages s * 4096"
    using assms by (simp add: unat_word_ariths unat_of_nat)
  then have "sint (of_nat (npages s) * 4096 :: u32) = int (npages s * 4096)"
    using assms by (subst sint32_nonneg) simp_all
  then show ?thesis by (simp add: npages_bytes_def)
qed

lemma unat_npages_bytes: "npages s < 2 ^ 19 \<Longrightarrow> unat (npages_bytes s) = npages s * 4096"
  by (simp only: npages_bytes_small unat_of_nat) simp

lemma V2P_kva [simp]: "V2P (kva i) = page_addr i"
  by (simp add: kva_def)

lemma kva_inj: "i < 2 ^ 52 \<Longrightarrow> j < 2 ^ 52 \<Longrightarrow> kva i = kva j \<longleftrightarrow> i = j"
  by (metis V2P_kva page_addr_inj)

lemma unat_kva: "i < 2 ^ 19 \<Longrightarrow> unat (kva i) = 2 ^ 64 - 2 ^ 31 + i * 4096"
  by (simp add: kva_def P2V_def KERNBASE_def unat_word_ariths unat_page_addr)

lemma kva_aligned: "i < 2 ^ 19 \<Longrightarrow> kva i mod PGSIZE = 0"
  by (simp add: word_unat_eq_iff unat_mod unat_kva PGSIZE_def)

lemma kva_nonzero: "i < 2 ^ 19 \<Longrightarrow> kva i \<noteq> 0"
  by (simp add: word_unat_eq_iff unat_kva)

lemma pa2page_kva: "npages s < 2 ^ 19 \<Longrightarrow> i < npages s \<Longrightarrow> pa2page (page_addr i) s = Ret i"
  by (simp add: pa2page_def PGNUM_page_addr)

lemma managed_not_bad: "npages s < 2 ^ 19 \<Longrightarrow> managed s i \<Longrightarrow> \<not> bad_page (kva i) s"
  by (auto simp: bad_page_def managed_def kva_aligned word_le_nat_alt word_less_nat_alt
      unat_npages_bytes unat_page_addr)

section \<open>Critical sections of the allocator\<close>

lemma km_put_hw [simp]:
  "npages (put_hw h s) = npages s" "pages_in_use (put_hw h s) = pages_in_use s"
  "pages_in_swap (put_hw h s) = pages_in_swap s"
  "free_pages (put_hw h s) = free_pages s" "core_map (put_hw h s) = core_map s"
  "use_lock (put_hw h s) = use_lock s" "kend (put_hw h s) = kend s" "mem (put_hw h s) = mem s"
  by (simp_all add: put_hw_def)

lemma km_settle [simp]:
  "npages (settle s) = npages s" "core_map (settle s) = core_map s"
  "use_lock (settle s) = use_lock s" "kend (settle s) = kend s" "mem (settle s) = mem s"
  by (simp_all add: settle_def)

text \<open>The processor state a call of the allocator leaves.\<close>

definition cyc :: "'a km_scheme \<Rightarrow> 'a km_scheme" where
  "cyc s = (if use_lock s then settle s else s)"

lemma cyc_simps [simp]:
  "npages (cyc s) = npages s" "core_map (cyc s) = core_map s" "use_lock (cyc s) = use_lock s"
  "kend (cyc s) = kend s" "mem (cyc s) = mem s" "spin (cyc s) = spin s"
  "ncli (cyc s) = ncli s" "eflags_IF (cyc s) = eflags_IF s"
  by (simp_all add: cyc_def)

lemma spin_free_put_cyc [simp]: "spin_free l (put_hw (cyc s) t) = spin_free l s"
  by (simp add: spin_free_def cyc_def)

lemma kmem_locked_param:
  assumes "spin_free KmemLock s" "hw_param body"
  shows "kmem_locked body s = omap (\<lambda>(r, s'). (r, put_hw (cyc s) s')) (body s)"
proof (cases "use_lock s")
  case True
  then show ?thesis using assms by (simp add: kmem_locked_def cyc_def spin_free_def with_lock_param)
next
  case False
  have "body s = omap (\<lambda>(r, s'). (r, put_hw s s')) (body s)"
    using assms(2) unfolding hw_param_def by (metis put_hw_same)
  with False show ?thesis by (simp add: kmem_locked_def cyc_def)
qed

lemma pa2page_put_hw [simp]: "pa2page pa (put_hw h s) = pa2page pa s"
  by (simp add: pa2page_def)

lemma bad_page_put_hw [simp]: "bad_page v (put_hw h s) = bad_page v s"
  by (simp add: bad_page_def npages_bytes_def)

lemma km_upd_put_hw [simp]:
  "(put_hw h s)\<lparr>core_map := c\<rparr> = put_hw h (s\<lparr>core_map := c\<rparr>)"
  "(put_hw h s)\<lparr>pages_in_use := n\<rparr> = put_hw h (s\<lparr>pages_in_use := n\<rparr>)"
  "(put_hw h s)\<lparr>free_pages := n\<rparr> = put_hw h (s\<lparr>free_pages := n\<rparr>)"
  "(put_hw h s)\<lparr>mem := m\<rparr> = put_hw h (s\<lparr>mem := m\<rparr>)"
  by (simp_all add: put_hw_def)

lemma hw_param_kalloc_section [simp]: "hw_param kalloc_section"
  by (auto simp: hw_param_def kalloc_section_def split: option.splits)

lemma hw_param_kfree_section [simp]: "hw_param (kfree_section v)"
proof (unfold hw_param_def, intro allI)
  fix h s :: "'a km_scheme"
  show "kfree_section v (put_hw h s) = omap (\<lambda>(r, s'). (r, put_hw h s')) (kfree_section v s)"
    by (cases "pa2page (V2P v) s") (simp_all add: kfree_section_def Let_def)
qed

lemma hw_param_increment_section [simp]: "hw_param (increment_section v)"
proof (unfold hw_param_def, intro allI)
  fix h s :: "'a km_scheme"
  show "increment_section v (put_hw h s) = omap (\<lambda>(r, s'). (r, put_hw h s')) (increment_section v s)"
    by (cases "pa2page (V2P v) s") (simp_all add: increment_section_def Let_def)
qed

section \<open>Reference counts\<close>

text \<open>The reference count of the page at a kernel address; 0 for a free or unmanaged page.\<close>

definition rc :: "'a km_scheme \<Rightarrow> u64 \<Rightarrow> nat" where
  "rc s v =
     (let i = unat (PGNUM (V2P v))
      in if managed s i \<and> v = kva i then refcount (core_map s ! i) else 0)"

text \<open>Extensions of the state: only the fields of the allocator and of the locks matter.\<close>

lemma rc_cong: "npages t = npages s \<Longrightarrow> kend t = kend s \<Longrightarrow> core_map t = core_map s \<Longrightarrow> rc t = rc s"
  by (rule ext) (simp only: rc_def managed_def)

lemma kmem_inv_cong:
  "npages t = npages s \<Longrightarrow> kend t = kend s \<Longrightarrow> core_map t = core_map s \<Longrightarrow> free_pages t = free_pages s \<Longrightarrow>
     kmem_inv t = kmem_inv s"
  by (simp only: kmem_inv_def managed_def free_count_def)

lemma free_count_cong: "core_map t = core_map s \<Longrightarrow> free_count t = free_count s"
  by (simp only: free_count_def)

lemma spin_free_cong:
  "spin t = spin s \<Longrightarrow> ncli t = ncli s \<Longrightarrow> eflags_IF t = eflags_IF s \<Longrightarrow> spin_free l t = spin_free l s"
  by (simp only: spin_free_def cli_ok_def unheld_def)

lemma rc_kva: "npages s < 2 ^ 19 \<Longrightarrow> managed s i \<Longrightarrow> rc s (kva i) = refcount (core_map s ! i)"
  by (simp add: rc_def PGNUM_page_addr managed_def)

lemma rc_posD:
  assumes "0 < rc s v"
  obtains i where "managed s i" "v = kva i" "rc s v = refcount (core_map s ! i)"
proof -
  define i where "i = unat (PGNUM (V2P v))"
  have "managed s i" "v = kva i" "rc s v = refcount (core_map s ! i)"
    using assms by (simp_all add: rc_def Let_def i_def split: if_splits)
  then show thesis by (rule that)
qed

lemma managed_put_hw [simp]: "managed (put_hw h s) = managed s"
  by (simp add: managed_def fun_eq_iff)

lemma rc_put_hw [simp]: "rc (put_hw h s) = rc s"
  by (rule ext) (simp only: rc_def managed_put_hw km_put_hw)

lemma kmem_inv_put_hw [simp]: "kmem_inv (put_hw h s) = kmem_inv s"
  by (simp add: kmem_inv_def managed_def free_count_def)

lemma rc_update:
  assumes "npages s < 2 ^ 19" "length (core_map s) = npages s" "managed s i"
    and "core_map s' = (core_map s)[i := e]" "npages s' = npages s" "kend s' = kend s"
  shows "rc s' = (rc s)(kva i := refcount e)"
proof (rule ext)
  fix v
  have i: "i < npages s" "i < 2 ^ 52" using assms(1,3) by (auto simp: managed_def)
  show "rc s' v = ((rc s)(kva i := refcount e)) v"
  proof (cases "v = kva i")
    case True
    then show ?thesis using assms i by (simp add: rc_def PGNUM_page_addr managed_def)
  next
    case False
    then have "unat (PGNUM (V2P v)) \<noteq> i \<or> v \<noteq> kva (unat (PGNUM (V2P v)))" by auto
    with False show ?thesis using assms by (auto simp: rc_def managed_def Let_def nth_list_update)
  qed
qed

section \<open>kalloc\<close>

lemma kalloc_section_cases:
  assumes "kmem_inv s"
  obtains (none) "kalloc_section s = Ret (0, s)" "\<forall>e\<in>set (core_map s). available e \<noteq> 1"
  | (some) i where "managed s i" "available (core_map s ! i) = 1"
      "\<forall>j<i. available (core_map s ! j) \<noteq> 1"
      "kalloc_section s = Ret (kva i,
         s\<lparr>core_map := (core_map s)[i := (core_map s ! i)\<lparr>available := 0, refcount := 1\<rparr>],
           pages_in_use := pages_in_use s + 1, free_pages := free_pages s - 1\<rparr>)"
proof (cases "find_idx (\<lambda>e. available e = 1) (take (npages s) (core_map s))")
  case None
  moreover have "take (npages s) (core_map s) = core_map s" using assms by (simp add: kmem_inv_def)
  ultimately show ?thesis by (intro none) (simp_all add: kalloc_section_def find_idx_None [symmetric])
next
  case (Some i)
  with assms have "i < npages s" "available (core_map s ! i) = 1" "\<forall>j<i. available (core_map s ! j) \<noteq> 1"
    by (auto simp: kmem_inv_def find_idx_Some_iff)
  with assms Some show ?thesis
    by (intro some [of i]) (auto simp: kalloc_section_def kva_def page2pa_def kmem_inv_def)
qed

lemma kmem_inv_update:
  assumes inv: "kmem_inv s" and i: "managed s i" and e: "entry_ok e"
    and s': "core_map s' = (core_map s)[i := e]" "npages s' = npages s" "kend s' = kend s"
    and f: "free_pages s' + (if available (core_map s ! i) = 1 then 1 else 0)
          = free_pages s + (if available e = 1 then 1 else 0)"
  shows "kmem_inv s'"
proof -
  have il: "i < length (core_map s)" using inv i by (simp add: kmem_inv_def managed_def)
  have "free_pages s' = int (free_count s')"
    using length_filter_update [OF il, of "\<lambda>e. available e = 1" e] inv f
    by (simp add: free_count_def s' kmem_inv_def split: if_splits)
  then show ?thesis
    using inv i e s' il by (auto simp: kmem_inv_def nth_list_update managed_def)
qed

lemma kalloc_eq:
  assumes "kmem_ready s"
  shows "kalloc s = omap (\<lambda>(r, s'). (r, put_hw (cyc s) s')) (kalloc_section s)"
  using assms by (simp add: kalloc_def kmem_ready_def kmem_locked_param)

text \<open>The page that \<open>kalloc\<close> hands out is the lowest numbered available one.\<close>

definition least_free :: "'a km_scheme \<Rightarrow> nat \<Rightarrow> bool" where
  "least_free s i \<longleftrightarrow> i < npages s \<and> available (core_map s ! i) = 1
     \<and> (\<forall>j<i. available (core_map s ! j) \<noteq> 1)"

definition taken :: "nat \<Rightarrow> 'a km_scheme \<Rightarrow> 'a km_scheme" where
  "taken i s = s\<lparr>core_map := (core_map s)[i := (core_map s ! i)\<lparr>available := 0, refcount := 1\<rparr>],
     pages_in_use := pages_in_use s + 1, free_pages := free_pages s - 1\<rparr>"

lemma kalloc_cases:
  assumes "kmem_ready s"
  obtains (none) "kalloc s = Ret (0, put_hw (cyc s) s)" "free_count s = 0"
  | (some) i where "least_free s i" "managed s i" "kalloc s = Ret (kva i, put_hw (cyc s) (taken i s))"
proof -
  have inv: "kmem_inv s" using assms by (simp add: kmem_ready_def)
  show thesis
  proof (cases rule: kalloc_section_cases [OF inv])
    case 1
    then show ?thesis using assms
      by (intro none) (auto simp: kalloc_eq free_count_def filter_empty_conv)
  next
    case (2 i)
    then show ?thesis using assms
      by (intro some [of i]) (auto simp: kalloc_eq least_free_def managed_def taken_def)
  qed
qed

lemma least_free_managed: "kmem_inv s \<Longrightarrow> least_free s i \<Longrightarrow> managed s i"
  unfolding kmem_inv_def least_free_def by blast

lemma taken_inv:
  assumes "kmem_inv s" "least_free s i"
  shows "kmem_inv (taken i s)"
proof (rule kmem_inv_update [OF assms(1) least_free_managed [OF assms]])
  show "core_map (taken i s) = (core_map s)[i := (core_map s ! i)\<lparr>available := 0, refcount := 1\<rparr>]"
    by (simp add: taken_def)
qed (use assms(2) in \<open>simp_all add: taken_def entry_ok_def least_free_def\<close>)

lemma taken_rc:
  assumes "kmem_inv s" "least_free s i"
  shows "rc s (kva i) = 0" "rc (taken i s) = (rc s)(kva i := 1)"
proof -
  have m: "managed s i" "npages s < 2 ^ 19" "length (core_map s) = npages s"
    using assms least_free_managed by (simp_all add: kmem_inv_def)
  have "entry_ok (core_map s ! i)" "available (core_map s ! i) = 1"
    using assms by (simp_all add: kmem_inv_def least_free_def)
  then show "rc s (kva i) = 0" using m by (simp add: rc_kva entry_ok_def)
  have "rc (taken i s) = (rc s)(kva i := refcount ((core_map s ! i)\<lparr>available := 0, refcount := 1\<rparr>))"
    by (rule rc_update [OF m(2,3,1)]) (simp_all add: taken_def)
  then show "rc (taken i s) = (rc s)(kva i := 1)" by simp
qed

section \<open>kfree and increment\_refcount\<close>

definition dropped :: "nat \<Rightarrow> 'a km_scheme \<Rightarrow> 'a km_scheme" where
  "dropped i s =
     (let r = core_map s ! i
      in if refcount r = 1
         then s\<lparr>pages_in_use := pages_in_use s - 1, free_pages := free_pages s + 1,
                mem := (mem s)(i := (\<lambda>_. 2)),
                core_map := (core_map s)[i := r\<lparr>available := 1, user := 0, cva := 0, refcount := 0\<rparr>]\<rparr>
         else s\<lparr>core_map := (core_map s)[i := r\<lparr>refcount := refcount r - 1\<rparr>]\<rparr>)"

lemma kfree_eq:
  assumes "kmem_ready s" "managed s i" "0 < refcount (core_map s ! i)"
  shows "kfree (kva i) s = Ret (put_hw (cyc s) (dropped i s))"
proof -
  have n: "npages s < 2 ^ 19" "i < npages s" using assms by (simp_all add: kmem_ready_def kmem_inv_def managed_def)
  have "kfree_section (kva i) s = Ret ((), dropped i s)"
    using n assms(3) by (auto simp: kfree_section_def pa2page_kva dropped_def Let_def)
  then show ?thesis
    using assms n by (simp add: kfree_def managed_not_bad kmem_locked_param kmem_ready_def)
qed

lemma allocated_unavailable:
  "kmem_inv s \<Longrightarrow> i < npages s \<Longrightarrow> 0 < refcount (core_map s ! i) \<Longrightarrow> available (core_map s ! i) = 0"
  by (auto simp: kmem_inv_def entry_ok_def)

lemma dropped_inv:
  assumes "kmem_inv s" "managed s i" "0 < refcount (core_map s ! i)"
  shows "kmem_inv (dropped i s)" "rc (dropped i s) = (rc s)(kva i := rc s (kva i) - 1)"
proof -
  have n: "npages s < 2 ^ 19" "i < npages s" "length (core_map s) = npages s"
    using assms by (simp_all add: kmem_inv_def managed_def)
  have a: "available (core_map s ! i) = 0" using assms n allocated_unavailable by blast
  define e where "e = (let r = core_map s ! i in if refcount r = 1
     then r\<lparr>available := 1, user := 0, cva := 0, refcount := 0\<rparr> else r\<lparr>refcount := refcount r - 1\<rparr>)"
  have e: "core_map (dropped i s) = (core_map s)[i := e]" "npages (dropped i s) = npages s"
    "kend (dropped i s) = kend s" by (auto simp: dropped_def e_def Let_def)
  show "kmem_inv (dropped i s)"
    by (rule kmem_inv_update [OF assms(1,2) _ e]) (use a in \<open>auto simp: e_def entry_ok_def dropped_def Let_def\<close>)
  show "rc (dropped i s) = (rc s)(kva i := rc s (kva i) - 1)"
    using rc_update [OF n(1,3) assms(2) e] assms(3) n assms(2) by (simp add: rc_kva e_def Let_def)
qed

definition shared :: "nat \<Rightarrow> 'a km_scheme \<Rightarrow> 'a km_scheme" where
  "shared i s = s\<lparr>core_map := (core_map s)[i := (core_map s ! i)\<lparr>refcount := refcount (core_map s ! i) + 1\<rparr>]\<rparr>"

lemma increment_eq:
  assumes "kmem_ready s" "managed s i"
  shows "increment_refcount (kva i) s = Ret (put_hw (cyc s) (shared i s))"
proof -
  have n: "npages s < 2 ^ 19" "i < npages s" using assms by (simp_all add: kmem_ready_def kmem_inv_def managed_def)
  have "increment_section (kva i) s = Ret ((), shared i s)"
    using n by (auto simp: increment_section_def pa2page_kva shared_def Let_def)
  then show ?thesis
    using assms n by (simp add: increment_refcount_def managed_not_bad kmem_locked_param kmem_ready_def)
qed

lemma shared_inv:
  assumes "kmem_inv s" "managed s i" "0 < refcount (core_map s ! i)"
  shows "kmem_inv (shared i s)" "rc (shared i s) = (rc s)(kva i := rc s (kva i) + 1)"
proof -
  have n: "npages s < 2 ^ 19" "i < npages s" "length (core_map s) = npages s"
    using assms by (simp_all add: kmem_inv_def managed_def)
  have a: "available (core_map s ! i) = 0" using assms n allocated_unavailable by blast
  show "kmem_inv (shared i s)"
    by (rule kmem_inv_update [OF assms(1,2)]) (use a in \<open>auto simp: entry_ok_def shared_def\<close>)
  show "rc (shared i s) = (rc s)(kva i := rc s (kva i) + 1)"
    using rc_update [OF n(1,3) assms(2), of "shared i s"] n assms(2) by (simp add: rc_kva shared_def)
qed

section \<open>The allocator's contract\<close>

text \<open>
  What the rest of the kernel relies on: a reference count per page address; \<open>alloc\<close> returns
  null or a page that nobody holds, \<open>share\<close> adds a holder, \<open>free\<close> drops one.
\<close>

locale frame_pool =
  fixes alloc :: "'s \<Rightarrow> (u64 \<times> 's) outcome"
    and drop share :: "u64 \<Rightarrow> 's \<Rightarrow> 's outcome"
    and holders :: "'s \<Rightarrow> u64 \<Rightarrow> nat"
    and ready :: "'s \<Rightarrow> bool"
  assumes alloc_ok: "ready s \<Longrightarrow> \<exists>v s'. alloc s = Ret (v, s') \<and> ready s' \<and>
      (v = 0 \<and> holders s' = holders s \<or> v \<noteq> 0 \<and> holders s v = 0 \<and> holders s' = (holders s)(v := 1))"
    and drop_ok: "ready s \<Longrightarrow> 0 < holders s v \<Longrightarrow>
      \<exists>s'. drop v s = Ret s' \<and> ready s' \<and> holders s' = (holders s)(v := holders s v - 1)"
    and share_ok: "ready s \<Longrightarrow> 0 < holders s v \<Longrightarrow>
      \<exists>s'. share v s = Ret s' \<and> ready s' \<and> holders s' = (holders s)(v := holders s v + 1)"
begin

text \<open>\<open>n\<close> allocations in a row, and dropping a list of pages.\<close>

primrec alloc_n :: "nat \<Rightarrow> 's \<Rightarrow> (u64 list \<times> 's) outcome" where
  "alloc_n 0 s = Ret ([], s)"
| "alloc_n (Suc n) s =
     obind (alloc s) (\<lambda>(v, s1). obind (alloc_n n s1) (\<lambda>(vs, s2). Ret (v # vs, s2)))"

primrec drop_all :: "u64 list \<Rightarrow> 's \<Rightarrow> 's outcome" where
  "drop_all [] s = Ret s"
| "drop_all (v # vs) s = obind (drop v s) (drop_all vs)"

primrec share_n :: "nat \<Rightarrow> u64 \<Rightarrow> 's \<Rightarrow> 's outcome" where
  "share_n 0 v s = Ret s"
| "share_n (Suc n) v s = obind (share v s) (share_n n v)"

lemma alloc_n_ok:
  assumes "ready s"
  shows "\<exists>vs s'. alloc_n n s = Ret (vs, s') \<and> ready s' \<and> length vs = n
     \<and> distinct (filter (\<lambda>v. v \<noteq> 0) vs)
     \<and> (\<forall>v\<in>set vs. v \<noteq> 0 \<longrightarrow> holders s v = 0)
     \<and> (\<forall>v. holders s' v = (if v \<in> set vs \<and> v \<noteq> 0 then 1 else holders s v))"
  using assms
proof (induction n arbitrary: s)
  case (Suc n)
  obtain v s1 where a: "alloc s = Ret (v, s1)" "ready s1"
    "v = 0 \<and> holders s1 = holders s \<or> v \<noteq> 0 \<and> holders s v = 0 \<and> holders s1 = (holders s)(v := 1)"
    using alloc_ok [OF Suc.prems] by blast
  obtain vs s2 where b: "alloc_n n s1 = Ret (vs, s2)" "ready s2" "length vs = n"
    "distinct (filter (\<lambda>v. v \<noteq> 0) vs)" "\<forall>v\<in>set vs. v \<noteq> 0 \<longrightarrow> holders s1 v = 0"
    "\<forall>v. holders s2 v = (if v \<in> set vs \<and> v \<noteq> 0 then 1 else holders s1 v)"
    using Suc.IH [OF a(2)] by blast
  have "alloc_n (Suc n) s = Ret (v # vs, s2)" using a b by simp
  moreover have n: "v \<noteq> 0 \<Longrightarrow> v \<notin> set vs" using a b by auto
  moreover have "\<forall>w\<in>set (v # vs). w \<noteq> 0 \<longrightarrow> holders s w = 0"
    using a(3) b(5) n by (metis fun_upd_other set_ConsD)
  moreover have "holders s2 w = (if w \<in> set (v # vs) \<and> w \<noteq> 0 then 1 else holders s w)" for w
    using a(3) b(6) n by auto
  moreover have "distinct (filter (\<lambda>v. v \<noteq> 0) (v # vs))" "length (v # vs) = Suc n" using n b by auto
  ultimately show ?case using b(2) by blast
qed simp

lemma share_n_ok:
  assumes "ready s" "0 < holders s v"
  shows "\<exists>s'. share_n n v s = Ret s' \<and> ready s' \<and> holders s' = (holders s)(v := holders s v + n)"
  using assms
proof (induction n arbitrary: s)
  case (Suc n)
  obtain s1 where a: "share v s = Ret s1" "ready s1" "holders s1 = (holders s)(v := holders s v + 1)"
    using share_ok [OF Suc.prems] by blast
  have "0 < holders s1 v" using a(3) by simp
  then obtain s2 where "share_n n v s1 = Ret s2" "ready s2" "holders s2 = (holders s1)(v := holders s1 v + n)"
    using Suc.IH [OF a(2)] by blast
  with a show ?case by (intro exI [of _ s2]) (simp add: fun_eq_iff)
qed simp

text \<open>A page with \<open>n\<close> holders comes back to the pool after exactly \<open>n\<close> drops.\<close>

lemma drop_n_ok:
  assumes "ready s" "n \<le> holders s v"
  shows "\<exists>s'. drop_all (replicate n v) s = Ret s' \<and> ready s' \<and> holders s' = (holders s)(v := holders s v - n)"
  using assms
proof (induction n arbitrary: s)
  case (Suc n)
  obtain s1 where a: "drop v s = Ret s1" "ready s1" "holders s1 = (holders s)(v := holders s v - 1)"
    using drop_ok [of s v] Suc.prems by auto
  have "n \<le> holders s1 v" using a(3) Suc.prems by simp
  then obtain s2 where "drop_all (replicate n v) s1 = Ret s2" "ready s2"
    "holders s2 = (holders s1)(v := holders s1 v - n)"
    using Suc.IH [OF a(2)] by blast
  with a show ?case by (intro exI [of _ s2]) (simp add: fun_eq_iff)
qed simp

lemma share_then_drop:
  assumes "ready s" "holders s v = 1"
  shows "\<exists>s'. obind (share_n n v s) (drop_all (replicate (Suc n) v)) = Ret s' \<and> ready s' \<and> holders s' v = 0"
proof -
  obtain s1 where a: "share_n n v s = Ret s1" "ready s1" "holders s1 v = Suc n"
    using share_n_ok [of s v n] assms by auto
  then show ?thesis using drop_n_ok [of s1 "Suc n" v] by auto
qed

end

interpretation kpool: frame_pool kalloc kfree increment_refcount rc kmem_ready
proof unfold_locales
  fix s :: "'b km_scheme" and v
  assume ready: "kmem_ready s"
  then have inv: "kmem_inv s" and lk: "spin_free KmemLock s" by (simp_all add: kmem_ready_def)
  show "\<exists>v s'. kalloc s = Ret (v, s') \<and> kmem_ready s' \<and>
      (v = 0 \<and> rc s' = rc s \<or> v \<noteq> 0 \<and> rc s v = 0 \<and> rc s' = (rc s)(v := 1))"
  proof (cases rule: kalloc_cases [OF ready])
    case 1
    then show ?thesis using inv lk by (simp add: kmem_ready_def)
  next
    case (2 i)
    have "kva i \<noteq> 0" using 2 inv by (intro kva_nonzero) (simp add: managed_def kmem_inv_def)
    with 2 show ?thesis using inv lk by (simp add: kmem_ready_def taken_inv taken_rc)
  qed
  assume v: "0 < rc s v"
  then obtain i where i: "managed s i" "v = kva i" "0 < refcount (core_map s ! i)"
    by (metis rc_posD)
  show "\<exists>s'. kfree v s = Ret s' \<and> kmem_ready s' \<and> rc s' = (rc s)(v := rc s v - 1)"
    using kfree_eq [OF ready i(1,3)] dropped_inv [OF inv i(1,3)] lk i(2) by (simp add: kmem_ready_def)
  show "\<exists>s'. increment_refcount v s = Ret s' \<and> kmem_ready s' \<and> rc s' = (rc s)(v := rc s v + 1)"
    using increment_eq [OF ready i(1)] shared_inv [OF inv i(1,3)] lk i(2) by (simp add: kmem_ready_def)
qed

lemma signed_page_count:
  assumes "d < 2 ^ 19"
  shows "sint (ucast (signed_drop_bit PT_SHIFT (page_addr d)) :: u32) = int d"
proof -
  have "sint (signed_drop_bit 12 (page_addr d)) = drop_bit 12 (sint (page_addr d))"
    by (rule sint_signed_drop_bit_eq)
  also have "\<dots> = drop_bit 12 (int (d * 4096))"
    using assms by (subst sint64_nonneg) (simp_all add: unat_page_addr)
  also have "\<dots> = int d" by (simp add: drop_bit_eq_div)
  finally have "word_of_int (sint (signed_drop_bit 12 (page_addr d))) = (word_of_int (int d) :: u64)" by simp
  then have "signed_drop_bit 12 (page_addr d) = of_nat d" by simp
  then have "(ucast (signed_drop_bit PT_SHIFT (page_addr d)) :: u32) = of_nat d"
    using assms by (simp add: PT_SHIFT_def word_unat_eq_iff unat_of_nat unsigned_ucast_eq take_bit_eq_mod)
  then show ?thesis using assms by (subst sint32_nonneg) (simp_all add: unat_of_nat)
qed

lemma kva_add: "kva i + page_addr j = kva (i + j)"
  by (simp add: kva_def P2V_def page_addr_def PT_SHIFT_def push_bit_eq_mult algebra_simps)

lemma PGSIZE_page: "PGSIZE = page_addr 1"
  by (simp add: PGSIZE_def page_addr_def PT_SHIFT_def push_bit_eq_mult)

lemma kva_diff: "j \<le> i \<Longrightarrow> kva i - kva j = page_addr (i - j)"
  by (metis add_diff_cancel_left' kva_add le_add_diff_inverse)

lemma kva_le: "i < 2 ^ 19 \<Longrightarrow> j < 2 ^ 19 \<Longrightarrow> kva i \<le> kva j \<longleftrightarrow> i \<le> j"
  by (simp add: word_le_nat_alt unat_kva)

lemma vend_kva: "npages s < 2 ^ 19 \<Longrightarrow> P2V (npages_bytes s) = kva (npages s)"
  by (simp add: npages_bytes_small kva_def page_addr_def PT_SHIFT_def push_bit_eq_mult)

lemma PGROUNDUP_page_addr:
  assumes "n < 2 ^ 63"
  shows "PGROUNDUP (of_nat n) = page_addr ((n + 4095) div 4096)"
  using assms by (simp add: word_unat_eq_iff unat_PGROUNDUP unat_of_nat unat_page_addr)

lemma PGROUNDUP_kva: "i < 2 ^ 19 \<Longrightarrow> PGROUNDUP (kva i) = kva i"
proof -
  assume i: "i < 2 ^ 19"
  have "unat (PGROUNDUP (kva i)) = (unat (kva i) + 4095) div 4096 * 4096"
    by (rule unat_PGROUNDUP) (use i in \<open>simp add: unat_kva\<close>)
  also have "\<dots> = unat (kva i)" using i by (simp add: unat_kva)
  finally show ?thesis by (simp add: word_unat_eq_iff)
qed


section \<open>Initialisation\<close>

definition free_entry :: core_map_entry where
  "free_entry = \<lparr>available = 1, user = 0, cva = 0, refcount = 0\<rparr>"

definition released :: "nat \<Rightarrow> 'a km_scheme \<Rightarrow> 'a km_scheme" where
  "released i s = s\<lparr>pages_in_use := pages_in_use s - 1, free_pages := free_pages s + 1,
     mem := (mem s)(i := (\<lambda>_. 2)), core_map := (core_map s)[i := free_entry]\<rparr>"

lemma kfree_initial:
  assumes "\<not> use_lock s" "npages s < 2 ^ 19" "managed s i" "core_map s ! i = zero_entry"
  shows "kfree (kva i) s = Ret (released i s)"
proof -
  have "pa2page (page_addr i) s = Ret i" using assms by (simp add: pa2page_kva managed_def)
  then show ?thesis
    using assms managed_not_bad [OF assms(2,3)]
    by (simp add: kfree_def kmem_locked_def kfree_section_def released_def zero_entry_def free_entry_def)
qed

lemma freerange_loop_ok:
  assumes "\<not> use_lock s" "Suc (npages s) < 2 ^ 19" "i \<le> npages s" "kend s \<le> kva i"
    and "core_map s = cm @ replicate (npages s - i) zero_entry" "length cm = i"
  shows "\<exists>s'. freerange_loop (Suc (npages s - i)) (kva i) (kva (npages s)) s = Ret s'
     \<and> core_map s' = cm @ replicate (npages s - i) free_entry
     \<and> npages s' = npages s \<and> kend s' = kend s \<and> same_hw s' s"
  using assms
proof (induction "npages s - i" arbitrary: s i cm)
  case 0
  then have "i = npages s" by simp
  moreover have "\<not> kva i + PGSIZE \<le> kva i"
    using 0(3) \<open>i = npages s\<close> by (simp add: PGSIZE_page kva_add kva_le)
  ultimately show ?case using 0 by simp
next
  case (Suc n)
  let ?s = "released i s"
  have lt: "i < npages s" using Suc.hyps(2) by simp
  have nx: "kva i + PGSIZE = kva (Suc i)" by (simp add: PGSIZE_page kva_add)
  have le: "kva (Suc i) \<le> kva (npages s)" using lt Suc.prems by (simp add: kva_le)
  have m: "managed s i" using lt Suc.prems by (simp add: managed_def)
  have z: "core_map s ! i = zero_entry" using Suc.prems(5,6) lt by (simp add: nth_append)
  have "replicate (npages s - i) zero_entry = zero_entry # replicate n zero_entry"
    using Suc.hyps(2) by (metis replicate_Suc)
  then have cm: "core_map ?s = (cm @ [free_entry]) @ replicate (npages ?s - Suc i) zero_entry"
    using Suc.prems(5,6) Suc.hyps(2) by (simp add: released_def list_update_append)
  have "\<exists>s'. freerange_loop (Suc (npages ?s - Suc i)) (kva (Suc i)) (kva (npages ?s)) ?s = Ret s'
     \<and> core_map s' = (cm @ [free_entry]) @ replicate (npages ?s - Suc i) free_entry
     \<and> npages s' = npages ?s \<and> kend s' = kend ?s \<and> same_hw s' ?s"
  proof (rule Suc.hyps(1) [OF _ _ _ _ _ cm])
    show "kend ?s \<le> kva (Suc i)"
      using Suc.prems lt kva_le [of i "Suc i"] by (simp add: released_def)
  qed (use Suc.prems Suc.hyps lt in \<open>simp_all add: released_def\<close>)
  then obtain s' where s': "freerange_loop (Suc (npages s - Suc i)) (kva (Suc i)) (kva (npages s)) ?s = Ret s'"
     "core_map s' = (cm @ [free_entry]) @ replicate (npages s - Suc i) free_entry"
     "npages s' = npages s" "kend s' = kend s" "same_hw s' s"
    by (auto simp: released_def same_hw_def)
  have "Suc (npages s - Suc i) = npages s - i" using lt by simp
  then show ?case using s' kfree_initial [OF Suc.prems(1) _ m z] Suc.prems(2) nx le
    by (intro exI [of _ s']) (simp add: replicate_Suc [symmetric])
qed

text \<open>Pages of the core map itself.\<close>

definition core_map_pages :: "nat \<Rightarrow> nat" where
  "core_map_pages n = (n * sizeof_core_map_entry + 4095) div 4096"

definition first_free :: "nat \<Rightarrow> 'a km_scheme \<Rightarrow> nat" where
  "first_free k s = k + core_map_pages (npages s)"

lemma mem_init_result:
  assumes n: "Suc (npages s) < 2 ^ 19" and k: "kend s = kva k" "first_free k s \<le> npages s"
  shows "\<exists>s'. mem_init (kend s) s = Ret s'
     \<and> core_map s' = replicate (first_free k s) zero_entry @ replicate (npages s - first_free k s) free_entry
     \<and> npages s' = npages s \<and> kend s' = kend s \<and> use_lock s'
     \<and> free_pages s' = int (npages s - first_free k s) \<and> pages_in_use s' = 0
     \<and> same_hw s' (initlock KmemLock ''kmem'' s)"
proof -
  let ?f = "first_free k s"
  let ?s2 = "(initlock KmemLock ''kmem'' (s\<lparr>core_map := replicate (npages s) zero_entry\<rparr>))\<lparr>use_lock := False\<rparr>"
  have v1: "kend s + PGROUNDUP (core_map_bytes (npages s)) = kva ?f"
    unfolding k first_free_def core_map_bytes_def core_map_pages_def sizeof_core_map_entry_def
    using n by (subst PGROUNDUP_page_addr) (simp_all only: kva_add, simp)
  have f: "?f < 2 ^ 19" using n k by simp
  have vend: "P2V (npages_bytes s) = kva (npages s)" using n by (intro vend_kva) simp
  have "replicate (npages s) zero_entry = replicate ?f zero_entry @ replicate (npages s - ?f) zero_entry"
    using k(2) by (metis le_add_diff_inverse replicate_add)
  then obtain s3 where s3: "freerange_loop (Suc (npages s - ?f)) (kva ?f) (kva (npages s)) ?s2 = Ret s3"
     "core_map s3 = replicate ?f zero_entry @ replicate (npages s - ?f) free_entry"
     "npages s3 = npages s" "kend s3 = kend s" "same_hw s3 ?s2"
    using freerange_loop_ok [of ?s2 ?f "replicate ?f zero_entry"] n k f kva_le [of k ?f]
    by (auto simp: initlock_def first_free_def)
  have "freerange (kva ?f) (kva (npages s)) ?s2 = Ret s3"
  proof -
    have "unat (kva (npages s) - kva ?f) div 4096 = npages s - ?f"
      using n by (simp add: kva_diff [OF k(2)] unat_page_addr)
    then show ?thesis unfolding freerange_def Let_def PGROUNDUP_kva [OF f] by (simp only: s3(1))
  qed
  moreover have "sint (ucast (signed_drop_bit PT_SHIFT (kva (npages s) - kva ?f)) :: u32) = int (npages s - ?f)"
    using n by (simp add: kva_diff [OF k(2)] signed_page_count)
  ultimately show ?thesis
    using s3 by (simp add: mem_init_def Let_def v1 vend setrand_def same_hw_def initlock_def)
qed

lemma mem_init_inv:
  assumes n: "Suc (npages s) < 2 ^ 19" and k: "kend s = kva k" "first_free k s \<le> npages s"
    and s': "core_map s' = replicate (first_free k s) zero_entry @ replicate (npages s - first_free k s) free_entry"
      "npages s' = npages s" "kend s' = kend s" "free_pages s' = int (npages s - first_free k s)"
  shows "kmem_inv s'"
proof -
  have f: "first_free k s < 2 ^ 19" "k < 2 ^ 19" using n k by (simp_all add: first_free_def)
  have "managed s' i" if "i < npages s" "first_free k s \<le> i" for i
    using that n f k s' kva_le [of k i] by (simp add: managed_def first_free_def)
  then show ?thesis
    using n k(2) s'
    by (auto simp: kmem_inv_def free_count_def nth_append zero_entry_def free_entry_def entry_ok_def)
qed

lemma detect_memory_bound: "npages (detect_memory es s) \<le> 2 ^ 19"
proof -
  have "unat (min m (- KERNBASE) div PGSIZE) \<le> unat (- KERNBASE div PGSIZE)" for m
    by (simp only: unat_div) (intro div_le_mono, simp add: word_le_nat_alt [symmetric])
  also have "unat (- KERNBASE div PGSIZE) = 2 ^ 19" by (simp add: KERNBASE_def PGSIZE_def)
  finally show ?thesis by (simp add: detect_memory_def Let_def)
qed

text \<open>With \<open>2 ^ 19\<close> pages the 32-bit product wraps and the range handed to \<open>freerange\<close> is empty.\<close>

lemma npages_bytes_wraps: "npages s = 2 ^ 19 \<Longrightarrow> npages_bytes s = KERNBASE"
  by (simp add: npages_bytes_def KERNBASE_def)

lemma mem_init_wraps:
  assumes n: "npages s = 2 ^ 19" and k: "kend s = kva k" "Suc (first_free k s) < 2 ^ 19"
  shows "\<exists>s'. mem_init (kend s) s = Ret s' \<and> free_count s' = 0"
proof -
  let ?f = "first_free k s"
  let ?s2 = "(initlock KmemLock ''kmem'' (s\<lparr>core_map := replicate (npages s) zero_entry\<rparr>))\<lparr>use_lock := False\<rparr>"
  have v1: "kend s + PGROUNDUP (core_map_bytes (npages s)) = kva ?f"
    unfolding k first_free_def core_map_bytes_def core_map_pages_def sizeof_core_map_entry_def
    using n by (subst PGROUNDUP_page_addr) (simp_all only: kva_add, simp)
  have "\<not> kva ?f + PGSIZE \<le> P2V KERNBASE"
    using k(2) by (simp add: PGSIZE_page kva_add word_le_nat_alt unat_kva P2V_def) (simp add: KERNBASE_def)
  then have "freerange (kva ?f) (P2V KERNBASE) ?s2 = Ret ?s2"
    using k(2) by (simp add: freerange_def PGROUNDUP_kva Let_def)
  then show ?thesis
    by (simp add: mem_init_def Let_def v1 npages_bytes_wraps [OF n] setrand_def free_count_def
        initlock_def zero_entry_def)
qed

section \<open>Properties of the allocator\<close>

text \<open>
  C15. \<open>kalloc\<close> always returns.  It returns null exactly when no page is available; otherwise it
  returns the kernel address of the lowest numbered available page, whose reference count becomes
  1, adjusts the two page counters by one, and changes no other core map entry and no memory
  contents.  The allocator's invariant is kept and its lock is free again.
\<close>

theorem kalloc_functional:
  assumes "kmem_ready s"
  shows "\<exists>v s'. kalloc s = Ret (v, s') \<and> kmem_ready s' \<and> mem s' = mem s \<and>
     pages_in_use s' + free_pages s' = pages_in_use s + free_pages s \<and>
     (if free_count s = 0 then v = 0 \<and> core_map s' = core_map s
      else \<exists>i. least_free s i \<and> v = kva i \<and> v \<noteq> 0 \<and> free_pages s' = free_pages s - 1 \<and>
             core_map s' = (core_map s)[i := (core_map s ! i)\<lparr>available := 0, refcount := 1\<rparr>])"
proof -
  have inv: "kmem_inv s" and lk: "spin_free KmemLock s" using assms by (simp_all add: kmem_ready_def)
  show ?thesis
  proof (cases rule: kalloc_cases [OF assms])
    case 1
    then show ?thesis using inv lk by (simp add: kmem_ready_def)
  next
    case (2 i)
    have nz: "kva i \<noteq> 0" using 2 inv by (intro kva_nonzero) (simp add: managed_def kmem_inv_def)
    have "core_map s ! i \<in> set (core_map s)" using 2 inv by (simp add: managed_def kmem_inv_def)
    then have "free_count s \<noteq> 0" using 2(1) by (auto simp: free_count_def filter_empty_conv least_free_def)
    with 2 nz show ?thesis using inv lk
      by (simp add: kmem_ready_def taken_inv) (auto simp: taken_def intro!: exI [of _ i])
  qed
qed

text \<open>
  C16. Freeing one reference of an allocated page: with more than one holder the count goes down
  and the page stays allocated with its contents; with the last holder the page becomes available,
  its bytes are overwritten with the junk value 2 and the counters move by one.
\<close>

theorem kfree_functional:
  assumes "kmem_ready s" "managed s i" "refcount (core_map s ! i) = Suc n"
  shows "\<exists>s'. kfree (kva i) s = Ret s' \<and> kmem_ready s' \<and> rc s' = (rc s)(kva i := n) \<and>
     pages_in_use s' + free_pages s' = pages_in_use s + free_pages s \<and>
     (if n = 0 then available (core_map s' ! i) = 1 \<and> free_pages s' = free_pages s + 1
                 \<and> mem s' = (mem s)(i := (\<lambda>_. 2))
      else available (core_map s' ! i) = 0 \<and> free_pages s' = free_pages s \<and> mem s' = mem s)"
proof -
  have inv: "kmem_inv s" and lk: "spin_free KmemLock s" using assms by (simp_all add: kmem_ready_def)
  have p: "0 < refcount (core_map s ! i)" using assms(3) by simp
  have n: "npages s < 2 ^ 19" "i < length (core_map s)" using inv assms(2) by (simp_all add: kmem_inv_def managed_def)
  have "rc s (kva i) = Suc n" using assms n by (simp add: rc_kva)
  then show ?thesis
    using kfree_eq [OF assms(1,2) p] dropped_inv [OF inv assms(2) p] lk assms(3) n
      allocated_unavailable [OF inv _ p] assms(2)
    by (auto simp: kmem_ready_def dropped_def Let_def managed_def)
qed

text \<open>
  C20. Boot: for any memory size below 2 GB by more than one page, with the kernel image ending on
  a page boundary (the linker script aligns \<open>_end\<close>) and room for the core map, \<open>mem_init\<close>
  returns a state in which the allocator is ready for use: exactly the pages behind the kernel
  image and the core map are available, \<open>free_pages\<close> counts them, and no page is in use.
\<close>

theorem mem_init_ready:
  assumes "Suc (npages s) < 2 ^ 19" "kend s = kva k" "first_free k s \<le> npages s" "cli_ok s"
  shows "\<exists>s'. mem_init (kend s) s = Ret s' \<and> kmem_ready s' \<and> use_lock s' \<and> pages_in_use s' = 0 \<and>
     free_pages s' = int (npages s - first_free k s) \<and>
     (\<forall>i<npages s. available (core_map s' ! i) = (if first_free k s \<le> i then 1 else 0))"
proof -
  obtain s' where s': "mem_init (kend s) s = Ret s'"
     "core_map s' = replicate (first_free k s) zero_entry @ replicate (npages s - first_free k s) free_entry"
     "npages s' = npages s" "kend s' = kend s" "use_lock s'"
     "free_pages s' = int (npages s - first_free k s)" "pages_in_use s' = 0"
     "same_hw s' (initlock KmemLock ''kmem'' s)"
    using mem_init_result [OF assms(1-3)] by blast
  have "kmem_inv s'" using s'(2,3,4,6) by (rule mem_init_inv [OF assms(1-3)])
  moreover have "spin_free KmemLock s'"
    using s'(8) assms(4) by (simp add: same_hw_def initlock_def spin_free_def unheld_def cli_ok_def)
  moreover have "\<forall>i<npages s. available (core_map s' ! i) = (if first_free k s \<le> i then 1 else 0)"
    using s'(2) by (simp add: nth_append zero_entry_def free_entry_def)
  ultimately show ?thesis using s' by (auto simp: kmem_ready_def)
qed

text \<open>
  C36. The memory limit of \<open>detect_memory\<close> is 2 GB, but at exactly that limit the page count
  times the page size overflows the 32-bit \<open>int\<close> it is computed in, and \<open>mem_init\<close> hands
  out no page at all: it returns with no entry of the core map available.
\<close>

theorem mem_init_2GB_no_pages:
  assumes "npages s = 2 ^ 19" "kend s = kva k" "Suc (first_free k s) < 2 ^ 19"
  shows "\<exists>s'. mem_init (kend s) s = Ret s' \<and> free_count s' = 0"
  using assms by (rule mem_init_wraps)

subsection \<open>Concrete states\<close>

text \<open>A four-page machine: one kernel page, one free page, one page with two holders, one with one.\<close>

definition demo_hw :: hw where
  "demo_hw = \<lparr>eflags_IF = True, ncli = 0, intena = False,
     spin = (\<lambda>_. \<lparr>locked = False, lname = [], lcpu = None\<rparr>)\<rparr>"

definition demo_km :: km where
  "demo_km = hw.extend demo_hw (km.fields 4 2 0 1
     [zero_entry, free_entry, zero_entry\<lparr>refcount := 2\<rparr>, zero_entry\<lparr>refcount := 1\<rparr>]
     True (kva 1) 1 (\<lambda>_ _. 0))"

lemmas demo_km_simps = demo_km_def demo_hw_def hw.defs km.defs zero_entry_def free_entry_def

lemma demo_km_ready: "kmem_ready demo_km"
proof -
  have k: "kend demo_km = kva 1" "npages demo_km = 4" by (simp_all add: demo_km_simps)
  have m: "managed demo_km i" if "1 \<le> i" "i < 4" for i
    using that by (simp add: managed_def k kva_le)
  have "entry_ok (core_map demo_km ! i) \<and> (available (core_map demo_km ! i) = 1 \<longrightarrow> managed demo_km i)
        \<and> (0 < refcount (core_map demo_km ! i) \<longrightarrow> managed demo_km i)" if "i < 4" for i
  proof -
    have "i = 0 \<or> i = 1 \<or> i = 2 \<or> i = 3" using that by arith
    then show ?thesis using m [of i] by (elim disjE) (simp_all add: demo_km_simps entry_ok_def)
  qed
  then have "kmem_inv demo_km"
    unfolding kmem_inv_def k by (simp add: demo_km_simps free_count_def)
  moreover have "spin_free KmemLock demo_km"
    by (simp add: spin_free_def unheld_def cli_ok_def demo_km_simps)
  ultimately show ?thesis by (simp add: kmem_ready_def)
qed


theorem kalloc_functional_witness:
  "kmem_ready demo_km \<and> free_count demo_km = 1 \<and> (\<exists>i s'. kalloc demo_km = Ret (kva i, s') \<and> least_free demo_km i)"
proof -
  have f: "free_count demo_km = 1" by (simp add: free_count_def demo_km_simps)
  then show ?thesis using kalloc_functional [OF demo_km_ready] demo_km_ready by auto
qed

theorem kfree_functional_witness:
  "kmem_ready demo_km \<and> managed demo_km 2 \<and> refcount (core_map demo_km ! 2) = Suc 1 \<and>
     (\<exists>s'. kfree (kva 2) demo_km = Ret s' \<and> rc s' (kva 2) = 1 \<and> available (core_map s' ! 2) = 0)"
proof -
  have m: "managed demo_km 2" and r: "refcount (core_map demo_km ! 2) = Suc 1"
    by (simp_all add: managed_def demo_km_simps kva_le)
  show ?thesis using kfree_functional [OF demo_km_ready m r] demo_km_ready m r by auto
qed

definition demo_boot :: km where
  "demo_boot = demo_km\<lparr>npages := 4096, kend := kva 300\<rparr>"

lemma demo_boot_simps: "npages demo_boot = 4096" "kend demo_boot = kva 300" "cli_ok demo_boot"
  by (simp_all add: demo_boot_def demo_km_simps cli_ok_def)

theorem mem_init_ready_witness:
  "Suc (npages demo_boot) < 2 ^ 19 \<and> first_free 300 demo_boot \<le> npages demo_boot \<and> cli_ok demo_boot \<and>
     (\<exists>s'. mem_init (kend demo_boot) demo_boot = Ret s' \<and> kmem_ready s' \<and> free_pages s' = 3772)"
proof -
  have f: "first_free 300 demo_boot = 324"
    by (simp add: first_free_def core_map_pages_def sizeof_core_map_entry_def demo_boot_simps)
  have h: "Suc (npages demo_boot) < 2 ^ 19" "kend demo_boot = kva 300"
    "first_free 300 demo_boot \<le> npages demo_boot" "cli_ok demo_boot"
    by (simp_all add: demo_boot_simps f)
  show ?thesis using mem_init_ready [OF h] h by (auto simp: f demo_boot_simps)
qed

theorem mem_init_2GB_no_pages_witness:
  "\<exists>s'. mem_init (kva 300) (demo_boot\<lparr>npages := 2 ^ 19\<rparr>) = Ret s' \<and> free_count s' = 0"
proof -
  let ?s = "demo_boot\<lparr>npages := 2 ^ 19\<rparr>"
  have h: "npages ?s = 2 ^ 19" "kend ?s = kva 300" "Suc (first_free 300 ?s) < 2 ^ 19"
    by (simp_all add: demo_boot_simps first_free_def core_map_pages_def sizeof_core_map_entry_def)
  show ?thesis using mem_init_2GB_no_pages [OF h] h(2) by simp
qed

end
