(* ===== verification/Pagetable.thy ===== *)
theory Pagetable
  imports Kalloc "HOL-Library.Sublist"
begin

text \<open>
  \<open>kernel/x86_64vm.c\<close>: the four-level page table of the processor, kept in pages of the
  allocator.  Entries are the 64-bit little-endian words of the page contents \<open>mem\<close>.  A table
  is named by its page frame number; a pointer to an entry, as \<open>walkpml4\<close> returns it, is the
  pair of the table's frame and the index.  \<open>seginit\<close> (segment descriptors) is not modelled.

  The facts: on a well-formed tree of tables, walking never changes what any address translates
  to, \<open>mappages\<close> maps exactly the requested pages and panics exactly when one of them is mapped
  already or memory runs out, and the tree stays well formed.
\<close>

section \<open>Words in page frames\<close>

definition rd64 :: "nat \<Rightarrow> nat \<Rightarrow> 'a km_scheme \<Rightarrow> u64" where
  "rd64 f k s =
     (let b = (\<lambda>i. push_bit (8 * i) (ucast (mem s f (8 * k + i))))
      in b 0 OR b 1 OR b 2 OR b 3 OR b 4 OR b 5 OR b 6 OR b 7)"

definition wr64 :: "nat \<Rightarrow> nat \<Rightarrow> u64 \<Rightarrow> 'a km_scheme \<Rightarrow> 'a km_scheme" where
  "wr64 f k v s = s\<lparr>mem := (mem s)(f := (\<lambda>a. if 8 * k \<le> a \<and> a < 8 * k + 8
     then ucast (drop_bit (8 * (a - 8 * k)) v) else mem s f a))\<rparr>"

text \<open>\<open>memset(page, 0, PGSIZE)\<close>.\<close>

definition zero_frame :: "nat \<Rightarrow> 'a km_scheme \<Rightarrow> 'a km_scheme" where
  "zero_frame f s = s\<lparr>mem := (mem s)(f := (\<lambda>_. 0))\<rparr>"

text \<open>The frame behind a kernel pointer, and behind the address field of an entry.\<close>

definition kfr :: "u64 \<Rightarrow> nat" where "kfr v = unat (PGNUM (V2P v))"

definition pte_frame :: "u64 \<Rightarrow> nat" where "pte_frame e = unat (PGNUM (PTE_ADDR e))"

definition present_bit :: "u64 \<Rightarrow> bool" where "present_bit e \<longleftrightarrow> e AND PTE_P \<noteq> 0"

section \<open>Operations\<close>

record vm = km +
  kpml4 :: u64
  cr3 :: u64
  ts_rsp0 :: u64
  kdata :: u64

text \<open>One level of the walk: follow the entry, or allocate, clear and link a new table.\<close>

definition walk_level :: "nat \<Rightarrow> nat \<Rightarrow> bool \<Rightarrow> 'a km_scheme \<Rightarrow> (nat option \<times> 'a km_scheme) outcome" where
  "walk_level f k alloc s =
     (if present_bit (rd64 f k s) then Ret (Some (pte_frame (rd64 f k s)), s)
      else if \<not> alloc then Ret (None, s)
      else obind (kalloc s) (\<lambda>(t, s1).
        if t = 0 then Ret (None, s1)
        else Ret (Some (kfr t), wr64 f k (V2P t OR PTE_P OR PTE_W OR PTE_U) (zero_frame (kfr t) s1))))"

definition walkpml4 ::
  "u64 \<Rightarrow> u64 \<Rightarrow> bool \<Rightarrow> 'a km_scheme \<Rightarrow> ((nat \<times> nat) option \<times> 'a km_scheme) outcome" where
  "walkpml4 pml4 va alloc s =
     obind (walk_level (kfr pml4) (PML4_INDEX va) alloc s) (\<lambda>(r, s1). case r of
       None \<Rightarrow> Ret (None, s1)
     | Some pdpt \<Rightarrow> obind (walk_level pdpt (PDPT_INDEX va) alloc s1) (\<lambda>(r, s2). case r of
         None \<Rightarrow> Ret (None, s2)
       | Some pgdir \<Rightarrow> obind (walk_level pgdir (PD_INDEX va) alloc s2) (\<lambda>(r, s3). case r of
           None \<Rightarrow> Ret (None, s3)
         | Some pgtab \<Rightarrow> Ret (Some (pgtab, PT_INDEX va), s3))))"

text \<open>\<open>mappages\<close> returns 0 when it returns; its other exits are panics.\<close>

primrec mappages ::
  "nat \<Rightarrow> u64 \<Rightarrow> u64 \<Rightarrow> u64 \<Rightarrow> u64 \<Rightarrow> bool \<Rightarrow> 'a km_scheme \<Rightarrow> 'a km_scheme outcome" where
  "mappages 0 pml4 virt_pn phy_pn perm kern s = Ret s"
| "mappages (Suc n) pml4 virt_pn phy_pn perm kern s =
     obind (walkpml4 pml4 (push_bit PT_SHIFT virt_pn) True s) (\<lambda>(pte, s1). case pte of
       None \<Rightarrow> Fail (Panic ''not enough memory'')
     | Some (f, k) \<Rightarrow>
         if present_bit (rd64 f k s1) then Fail (Panic ''remap'')
         else
           let s2 = wr64 f k (PTE (push_bit PT_SHIFT phy_pn) perm) s1
           in obind (if kern then Ret s2
                     else mark_user_mem (push_bit PT_SHIFT phy_pn) (push_bit PT_SHIFT virt_pn) s2)
                (mappages n pml4 (virt_pn + 1) (phy_pn + 1) perm kern))"

definition kmap :: "'a vm_scheme \<Rightarrow> (u64 \<times> u64 \<times> u64 \<times> u64) list" where
  "kmap s =
     [(KERNBASE, 0, EXTMEM, PTE_W),
      (KERNLINK, V2P KERNLINK, V2P (kdata s), 0),
      (kdata s, V2P (kdata s), of_nat (npages s) * PGSIZE, PTE_W),
      (DEVSPACE, 0xFE000000, 0x100000000, PTE_W)]"

definition map_kernel_range ::
  "u64 \<Rightarrow> u64 \<times> u64 \<times> u64 \<times> u64 \<Rightarrow> 'a km_scheme \<Rightarrow> 'a km_scheme outcome" where
  "map_kernel_range pml4 = (\<lambda>(virt, phys_start, phys_end, perm).
     mappages (nat (sint (ucast (drop_bit PT_SHIFT (phys_end - phys_start)) :: u32))) pml4
       (drop_bit PT_SHIFT virt) (drop_bit PT_SHIFT phys_start) (perm OR PTE_P) True)"

definition setupkvm :: "'a vm_scheme \<Rightarrow> (u64 \<times> 'a vm_scheme) outcome" where
  "setupkvm s =
     obind (kalloc s) (\<lambda>(pml4, s1).
       if pml4 = 0 then Ret (0, s1)
       else obind (ofold (map_kernel_range pml4) (kmap s1) (zero_frame (kfr pml4) s1)) (\<lambda>s2. Ret (pml4, s2)))"

definition find_next_possible_page :: "u64 \<Rightarrow> u64 \<Rightarrow> 'a km_scheme \<Rightarrow> u64 outcome" where
  "find_next_possible_page pml4 va s =
     (let i4 = of_nat (PML4_INDEX va); i3 = of_nat (PDPT_INDEX va); i2 = of_nat (PD_INDEX va);
          pml4e = rd64 (kfr pml4) (PML4_INDEX va) s
      in if \<not> present_bit pml4e then Ret (PGADDR (i4 + 1) 0 0 0 0 - PGSIZE)
         else let pdpte = rd64 (pte_frame pml4e) (PDPT_INDEX va) s
           in if \<not> present_bit pdpte then Ret (PGADDR i4 (i3 + 1) 0 0 0 - PGSIZE)
              else let pde = rd64 (pte_frame pdpte) (PD_INDEX va) s
                in if \<not> present_bit pde then Ret (PGADDR i4 i3 (i2 + 1) 0 0 - PGSIZE)
                   else Fail (Panic ''level is not missing''))"

text \<open>
  The loop of \<open>deallocuvm\<close>; every round moves \<open>a\<close> by a page at least, so the number of
  pages up to the bound is enough fuel.
\<close>

primrec deallocuvm_loop :: "nat \<Rightarrow> u64 \<Rightarrow> u64 \<Rightarrow> u64 \<Rightarrow> 'a km_scheme \<Rightarrow> 'a km_scheme outcome" where
  "deallocuvm_loop 0 pml4 a limit s = Fail Spin"
| "deallocuvm_loop (Suc n) pml4 a limit s =
     (if \<not> a < limit then Ret s
      else obind (walkpml4 pml4 a False s) (\<lambda>(pte, s1). case pte of
        None \<Rightarrow> obind (find_next_possible_page pml4 a s1) (\<lambda>a1.
                  deallocuvm_loop n pml4 (a1 + PGSIZE) limit s1)
      | Some (f, k) \<Rightarrow>
          if present_bit (rd64 f k s1) then
            let pa = PTE_ADDR (rd64 f k s1)
            in if pa = 0 then Fail (Panic ''kfree'')
               else obind (kfree (P2V pa) s1) (\<lambda>s2. deallocuvm_loop n pml4 (a + PGSIZE) limit (wr64 f k 0 s2))
          else deallocuvm_loop n pml4 (a + PGSIZE) limit s1))"

definition deallocuvm :: "u64 \<Rightarrow> u64 \<Rightarrow> u64 \<Rightarrow> u64 \<Rightarrow> 'a km_scheme \<Rightarrow> (u64 \<times> 'a km_scheme) outcome" where
  "deallocuvm pml4 start oldsz newsz s =
     (if oldsz \<le> newsz then Ret (oldsz, s)
      else let a = PGROUNDUP (start + newsz); limit = start + oldsz
        in obind (deallocuvm_loop (Suc (unat (limit - a) div 4096 + 1)) pml4 a limit s)
             (\<lambda>s1. Ret (newsz, s1)))"

text \<open>Freeing the tables below an entry, if the entry is present.\<close>

definition freevm_pgdir :: "nat \<Rightarrow> 'a km_scheme \<Rightarrow> 'a km_scheme outcome" where
  "freevm_pgdir pgdir s =
     obind (ofold (\<lambda>i s. if present_bit (rd64 pgdir i s)
                         then kfree (P2V (PTE_ADDR (rd64 pgdir i s))) s else Ret s) [0..<PTRS_PER_PT] s)
       (kfree (kva pgdir))"

definition freevm_pdpt :: "nat \<Rightarrow> 'a km_scheme \<Rightarrow> 'a km_scheme outcome" where
  "freevm_pdpt pdpt s =
     obind (ofold (\<lambda>i s. if present_bit (rd64 pdpt i s)
                         then freevm_pgdir (pte_frame (rd64 pdpt i s)) s else Ret s) [0..<PTRS_PER_PT] s)
       (kfree (kva pdpt))"

definition freevm :: "u64 \<Rightarrow> 'a km_scheme \<Rightarrow> 'a km_scheme outcome" where
  "freevm pml4 s =
     assertm (pml4 \<noteq> 0) ''freevm: no pml4''
       (obind (deallocuvm pml4 0 SZ_4G 0 s) (\<lambda>(_, s1).
          obind (ofold (\<lambda>i s. if present_bit (rd64 (kfr pml4) i s)
                              then freevm_pdpt (pte_frame (rd64 (kfr pml4) i s)) s else Ret s)
                   [0..<PTRS_PER_PT] s1)
            (kfree pml4)))"

section \<open>Reading back what was written\<close>

lemma rd64_cong:
  assumes "\<And>i. i < 8 \<Longrightarrow> mem s f (8 * k + i) = b i"
  shows "rd64 f k s = (let c = (\<lambda>i. push_bit (8 * i) (ucast (b i)))
     in c 0 OR c 1 OR c 2 OR c 3 OR c 4 OR c 5 OR c 6 OR c 7)"
proof -
  have h: "mem s f (8 * k + 0) = b 0" "mem s f (8 * k + 1) = b 1" "mem s f (8 * k + 2) = b 2"
    "mem s f (8 * k + 3) = b 3" "mem s f (8 * k + 4) = b 4" "mem s f (8 * k + 5) = b 5"
    "mem s f (8 * k + 6) = b 6" "mem s f (8 * k + 7) = b 7"
    by (rule assms; simp)+
  show ?thesis unfolding rd64_def Let_def h ..
qed

lemma bit_split_byte:
  "bit (push_bit (8 * i) (ucast (ucast (drop_bit (8 * i) v) :: u8)) :: u64) n
     \<longleftrightarrow> n < 64 \<and> 8 * i \<le> n \<and> n < 8 * i + 8 \<and> bit v n" for v :: u64
  by (auto simp: bit_simps)

lemma join_bytes:
  "(let c = (\<lambda>i. push_bit (8 * i) (ucast (ucast (drop_bit (8 * i) v) :: u8)))
    in c 0 OR c 1 OR c 2 OR c 3 OR c 4 OR c 5 OR c 6 OR c 7) = (v :: u64)" (is "?l = v")
proof (rule bit_word_eqI)
  fix n assume "n < LENGTH(64)"
  then have n: "n < 64" by simp
  then have "n < 8 \<or> 8 \<le> n \<and> n < 16 \<or> 16 \<le> n \<and> n < 24 \<or> 24 \<le> n \<and> n < 32 \<or> 32 \<le> n \<and> n < 40
     \<or> 40 \<le> n \<and> n < 48 \<or> 48 \<le> n \<and> n < 56 \<or> 56 \<le> n \<and> n < 64" by arith
  then show "bit ?l n = bit v n"
    using n by (simp only: Let_def bit_or_iff bit_split_byte) auto
qed

lemma rd64_wr64_same [simp]: "rd64 f k (wr64 f k v s) = v"
proof -
  have "mem (wr64 f k v s) f (8 * k + i) = ucast (drop_bit (8 * i) v)" if "i < 8" for i
    using that by (simp add: wr64_def)
  then show ?thesis by (simp only: rd64_cong join_bytes)
qed

lemma rd64_wr64_other:
  assumes "f \<noteq> f' \<or> k \<noteq> k'"
  shows "rd64 f k (wr64 f' k' v s) = rd64 f k s"
proof -
  have "\<not> (8 * k' \<le> 8 * k + i \<and> 8 * k + i < 8 * k' + 8)" if "i < 8" "k \<noteq> k'" for i
    using that by auto
  then have "mem (wr64 f' k' v s) f (8 * k + i) = mem s f (8 * k + i)" if "i < 8" for i
    using that assms by (auto simp: wr64_def)
  then have "rd64 f k (wr64 f' k' v s) = (let c = (\<lambda>i. push_bit (8 * i) (ucast (mem s f (8 * k + i))))
     in c 0 OR c 1 OR c 2 OR c 3 OR c 4 OR c 5 OR c 6 OR c 7)" by (rule rd64_cong)
  then show ?thesis by (simp only: rd64_def [of f k s])
qed

lemma rd64_zero_frame: "rd64 f k (zero_frame g s) = (if f = g then 0 else rd64 f k s)"
  by (simp add: rd64_def zero_frame_def Let_def)


lemma rd64_mem: "mem s f = mem t f \<Longrightarrow> rd64 f k s = rd64 f k t"
  by (simp add: rd64_def)

lemma mem_wr64_other: "g \<noteq> f \<Longrightarrow> mem (wr64 f k v s) g = mem s g"
  by (simp add: wr64_def)

lemma mem_zero_frame_other: "g \<noteq> f \<Longrightarrow> mem (zero_frame f s) g = mem s g"
  by (simp add: zero_frame_def)

lemma frame_ops_km [simp]:
  "npages (wr64 f k v s) = npages s" "kend (wr64 f k v s) = kend s" "core_map (wr64 f k v s) = core_map s"
  "npages (zero_frame f s) = npages s" "kend (zero_frame f s) = kend s"
  "core_map (zero_frame f s) = core_map s"
  "managed (wr64 f k v s) = managed s" "managed (zero_frame f s) = managed s"
  "kmem_ready (wr64 f k v s) = kmem_ready s" "kmem_ready (zero_frame f s) = kmem_ready s"
  by (simp_all add: wr64_def zero_frame_def managed_def fun_eq_iff kmem_ready_def kmem_inv_def
      free_count_def spin_free_def cli_ok_def unheld_def)

section \<open>The tree of tables\<close>

text \<open>The table reached from the root along a list of indices.\<close>

primrec tbl :: "'a km_scheme \<Rightarrow> nat \<Rightarrow> nat list \<Rightarrow> nat option" where
  "tbl s r [] = Some r"
| "tbl s r (i # is) = (if present_bit (rd64 r i s) then tbl s (pte_frame (rd64 r i s)) is else None)"

definition vpath :: "nat list \<Rightarrow> bool" where
  "vpath p \<longleftrightarrow> length p \<le> 3 \<and> (\<forall>i\<in>set p. i < 512)"

text \<open>
  A well-formed page table: every table reachable in at most three steps is an allocated page,
  and no two paths lead to the same page.
\<close>

definition pt_wf :: "'a km_scheme \<Rightarrow> nat \<Rightarrow> bool" where
  "pt_wf s r \<longleftrightarrow>
     (\<forall>p f. vpath p \<longrightarrow> tbl s r p = Some f \<longrightarrow> managed s f \<and> 0 < refcount (core_map s ! f)) \<and>
     (\<forall>p q f. vpath p \<longrightarrow> vpath q \<longrightarrow> tbl s r p = Some f \<longrightarrow> tbl s r q = Some f \<longrightarrow> p = q)"

text \<open>The translation the processor makes: the entry for the page of \<open>va\<close>, if present.\<close>

definition xpath :: "u64 \<Rightarrow> nat list" where
  "xpath va = [PML4_INDEX va, PDPT_INDEX va, PD_INDEX va]"

definition xlate :: "'a km_scheme \<Rightarrow> nat \<Rightarrow> u64 \<Rightarrow> u64 option" where
  "xlate s r va =
     (case tbl s r (xpath va) of
        None \<Rightarrow> None
      | Some f \<Rightarrow> if present_bit (rd64 f (PT_INDEX va) s) then Some (rd64 f (PT_INDEX va) s) else None)"

lemma vpath_xpath [simp]: "vpath (xpath va)"
  by (simp add: vpath_def xpath_def)

lemma tbl_append: "tbl s r (p @ q) = (case tbl s r p of None \<Rightarrow> None | Some f \<Rightarrow> tbl s f q)"
  by (induction p arbitrary: r) auto

lemma tbl_snoc:
  "tbl s r (p @ [i]) = (case tbl s r p of None \<Rightarrow> None
     | Some f \<Rightarrow> if present_bit (rd64 f i s) then Some (pte_frame (rd64 f i s)) else None)"
  by (auto simp: tbl_append split: option.splits)

lemma vpath_prefix: "prefix p q \<Longrightarrow> vpath q \<Longrightarrow> vpath p"
  by (auto simp: vpath_def dest: prefix_length_le set_mono_prefix)

lemma tbl_frame:
  assumes "\<And>p f i. prefix (p @ [i]) q \<Longrightarrow> tbl s r p = Some f \<Longrightarrow> rd64 f i s' = rd64 f i s"
  shows "tbl s' r q = tbl s r q"
  using assms
proof (induction q rule: rev_induct)
  case (snoc i q)
  have "prefix q (q @ [i])" by simp
  then have "tbl s' r q = tbl s r q"
    using snoc.prems by (intro snoc.IH) (metis prefix_order.trans)
  then show ?case using snoc.prems [of q i] by (auto simp: tbl_snoc split: option.splits)
qed simp

lemma pt_wf_inj: "pt_wf s r \<Longrightarrow> vpath p \<Longrightarrow> vpath q \<Longrightarrow> tbl s r p = Some f \<Longrightarrow> tbl s r q = Some f \<Longrightarrow> p = q"
  unfolding pt_wf_def by blast

lemma pt_wf_alloc: "pt_wf s r \<Longrightarrow> vpath p \<Longrightarrow> tbl s r p = Some f \<Longrightarrow> managed s f \<and> 0 < refcount (core_map s ! f)"
  unfolding pt_wf_def by blast

lemma tbl_wr64_outside:
  assumes "pt_wf s r" "vpath p" "vpath q" "tbl s r p = Some f" "\<not> prefix (p @ [k]) q"
  shows "tbl (wr64 f k v s) r q = tbl s r q"
proof (rule tbl_frame)
  fix p' f' i assume pr: "prefix (p' @ [i]) q" and t: "tbl s r p' = Some f'"
  have "vpath p'" using pr assms(3) vpath_prefix by (metis append_prefixD)
  then have "f' = f \<Longrightarrow> p' = p" using pt_wf_inj [OF assms(1) _ assms(2) _ assms(4)] t by blast
  then have "f' \<noteq> f \<or> i \<noteq> k" using pr assms(5) by blast
  then show "rd64 f' i (wr64 f k v s) = rd64 f' i s" by (rule rd64_wr64_other)
qed

lemma tbl_zero_frame:
  assumes "\<And>p. vpath p \<Longrightarrow> tbl s r p \<noteq> Some g" "vpath q"
  shows "tbl (zero_frame g s) r q = tbl s r q"
proof (rule tbl_frame)
  fix p f i assume "prefix (p @ [i]) q" "tbl s r p = Some f"
  moreover then have "vpath p" using assms(2) vpath_prefix by (metis append_prefixD)
  ultimately have "f \<noteq> g" using assms(1) by blast
  then show "rd64 f i (zero_frame g s) = rd64 f i s" by (simp add: rd64_zero_frame)
qed

lemma tbl_mem: "mem s = mem t \<Longrightarrow> tbl s r q = tbl t r q"
  by (rule tbl_frame, rule rd64_mem) simp

text \<open>Linking a fresh, cleared table into the tree adds exactly one path.\<close>

lemma tbl_link_new:
  assumes wf: "pt_wf s r" and p: "vpath p" "length p < 3" "k < 512" "tbl s r p = Some f"
    and np: "\<not> present_bit (rd64 f k s)" and fresh: "\<And>p. vpath p \<Longrightarrow> tbl s r p \<noteq> Some g"
    and e: "present_bit e" "pte_frame e = g" and q: "vpath q"
  shows "tbl (wr64 f k e (zero_frame g s)) r q = (if q = p @ [k] then Some g else tbl s r q)"
proof -
  define s1 where "s1 = zero_frame g s"
  have t1: "tbl s1 r q = tbl s r q" if "vpath q" for q
    unfolding s1_def using fresh that by (rule tbl_zero_frame)
  have wf1: "pt_wf s1 r" using wf by (simp add: pt_wf_def t1 s1_def) (simp add: t1 [unfolded s1_def])
  have fg: "f \<noteq> g" using fresh [OF p(1)] p(4) by auto
  have out: "tbl (wr64 f k e s1) r q = tbl s r q" if "vpath q" "\<not> prefix (p @ [k]) q" for q
    using tbl_wr64_outside [OF wf1 p(1) that(1) _ that(2)] t1 p that by simp
  have pk: "vpath (p @ [k])" using p by (simp add: vpath_def)
  have "tbl (wr64 f k e s1) r p = Some f" using out [OF p(1)] p(4) by auto
  then have new: "tbl (wr64 f k e s1) r (p @ [k]) = Some g" using e by (simp add: tbl_snoc)
  have old: "tbl s r (p @ [k]) = None" using p(4) np by (simp add: tbl_snoc)
  have zero: "rd64 g i (wr64 f k e s1) = 0" for i
    using fg by (simp add: rd64_wr64_other s1_def rd64_zero_frame)
  show ?thesis
  proof (cases "prefix (p @ [k]) q")
    case True
    then obtain q' where q': "q = (p @ [k]) @ q'" by (auto elim: prefixE)
    have "tbl (wr64 f k e s1) r q = (if q' = [] then Some g else None)"
      unfolding q' tbl_append [of _ _ "p @ [k]"] new
      by (cases q') (auto simp: zero present_bit_def)
    moreover have "tbl s r q = None" unfolding q' tbl_append [of _ _ "p @ [k]"] old by simp
    ultimately show ?thesis using q' by (simp add: s1_def)
  qed (use out [OF q] in \<open>auto simp: s1_def\<close>)
qed


section \<open>Walking\<close>

definition in_tree :: "'a km_scheme \<Rightarrow> nat \<Rightarrow> nat \<Rightarrow> bool" where
  "in_tree s r g \<longleftrightarrow> (\<exists>q. vpath q \<and> tbl s r q = Some g)"

text \<open>
  What walking and mapping may do to the state: allocate pages and hang them into the tree.
  Every table stays where it is, every page held by somebody stays held as often, and such a
  page keeps its contents unless it is a table.
\<close>

definition map_rel :: "nat \<Rightarrow> 'a km_scheme \<Rightarrow> 'a km_scheme \<Rightarrow> bool" where
  "map_rel r s s' \<longleftrightarrow>
     kmem_ready s' \<and> pt_wf s' r \<and> npages s' = npages s \<and> kend s' = kend s \<and>
     (\<forall>q f. vpath q \<longrightarrow> tbl s r q = Some f \<longrightarrow> tbl s' r q = Some f) \<and>
     (\<forall>g. in_tree s' r g \<longrightarrow> in_tree s r g \<or> refcount (core_map s ! g) = 0) \<and>
     (\<forall>g. 0 < refcount (core_map s ! g) \<and> g < npages s \<longrightarrow> refcount (core_map s' ! g) = refcount (core_map s ! g) \<and>
            (\<not> in_tree s r g \<longrightarrow> mem s' g = mem s g))"

lemma map_rel_refl: "kmem_ready s \<Longrightarrow> pt_wf s r \<Longrightarrow> map_rel r s s"
  by (simp add: map_rel_def)

lemma map_rel_trans:
  assumes "map_rel r s t" "map_rel r t u"
  shows "map_rel r s u"
proof -
  have A: "in_tree s r g \<or> refcount (core_map s ! g) = 0" if "in_tree u r g" for g
  proof (rule ccontr)
    assume n: "\<not> ?thesis"
    have "managed u g" using that assms(2) by (auto simp: map_rel_def in_tree_def dest: pt_wf_alloc)
    then have "g < npages s" using assms by (simp add: map_rel_def managed_def)
    then have "0 < refcount (core_map t ! g)" using n assms(1) by (auto simp: map_rel_def)
    moreover have "in_tree t r g \<or> refcount (core_map t ! g) = 0"
      using that assms(2) by (simp add: map_rel_def)
    moreover have "in_tree t r g \<longrightarrow> in_tree s r g \<or> refcount (core_map s ! g) = 0"
      using assms(1) by (simp add: map_rel_def)
    ultimately show False using n by simp
  qed
  have B: "refcount (core_map u ! g) = refcount (core_map s ! g) \<and> (\<not> in_tree s r g \<longrightarrow> mem u g = mem s g)"
    if "0 < refcount (core_map s ! g)" "g < npages s" for g
  proof -
    have 1: "refcount (core_map t ! g) = refcount (core_map s ! g)" "\<not> in_tree s r g \<Longrightarrow> mem t g = mem s g"
      using assms(1) that by (auto simp: map_rel_def)
    have 2: "refcount (core_map u ! g) = refcount (core_map t ! g)" "\<not> in_tree t r g \<Longrightarrow> mem u g = mem t g"
      using assms that 1 by (auto simp: map_rel_def)
    have "in_tree t r g \<Longrightarrow> in_tree s r g" using assms(1) that by (auto simp: map_rel_def)
    with 1 2 show ?thesis by metis
  qed
  show ?thesis using assms A B unfolding map_rel_def by simp
qed

text \<open>A walk moreover keeps every translation.\<close>

definition walk_rel :: "nat \<Rightarrow> 'a km_scheme \<Rightarrow> 'a km_scheme \<Rightarrow> bool" where
  "walk_rel r s s' \<longleftrightarrow> map_rel r s s' \<and> xlate s' r = xlate s r"

lemma walk_rel_refl: "kmem_ready s \<Longrightarrow> pt_wf s r \<Longrightarrow> walk_rel r s s"
  by (simp add: walk_rel_def map_rel_refl)

lemma walk_rel_trans: "walk_rel r s t \<Longrightarrow> walk_rel r t u \<Longrightarrow> walk_rel r s u"
  unfolding walk_rel_def using map_rel_trans by metis

lemma map_relD:
  "map_rel r s s' \<Longrightarrow> kmem_ready s'" "map_rel r s s' \<Longrightarrow> pt_wf s' r"
  "map_rel r s s' \<Longrightarrow> npages s' = npages s" "map_rel r s s' \<Longrightarrow> kend s' = kend s"
  "map_rel r s s' \<Longrightarrow> vpath q \<Longrightarrow> tbl s r q = Some f \<Longrightarrow> tbl s' r q = Some f"
  by (simp_all add: map_rel_def)

lemma present_bit_iff: "present_bit e \<longleftrightarrow> bit e 0"
  by (simp add: present_bit_def PTE_P_def and_one_eq bit_0 mod2_eq_if)

text \<open>The entry that links a table carries its address and is present.\<close>

lemma link_entry:
  assumes "i < 2 ^ 19"
  shows "pte_frame (V2P (kva i) OR PTE_P OR PTE_W OR PTE_U) = i"
    "present_bit (V2P (kva i) OR PTE_P OR PTE_W OR PTE_U)"
proof -
  have "PTE_ADDR (PTE (page_addr i) (PTE_P OR PTE_W OR PTE_U)) = page_addr i"
    using assms by (intro PTE_ADDR_PTE) (simp_all add: PTE_P_def PTE_W_def PTE_U_def)
  then show "pte_frame (V2P (kva i) OR PTE_P OR PTE_W OR PTE_U) = i"
    using assms by (simp add: pte_frame_def PTE_def or.assoc PGNUM_page_addr)
  show "present_bit (V2P (kva i) OR PTE_P OR PTE_W OR PTE_U)"
    by (simp add: present_bit_iff PTE_P_def bit_or_iff)
qed

lemma kfr_kva [simp]: "i < 2 ^ 19 \<Longrightarrow> kfr (kva i) = i"
  by (simp add: kfr_def PGNUM_page_addr)

lemma not_in_tree_free:
  assumes "pt_wf s r" "refcount (core_map s ! g) = 0" "vpath p"
  shows "tbl s r p \<noteq> Some g"
  using assms pt_wf_alloc by (metis less_nat_zero_code)


lemma kalloc_mem:
  assumes "kmem_ready s" "kalloc s = Ret (v, s')"
  shows "mem s' = mem s" "npages s' = npages s" "kend s' = kend s"
    "v = 0 \<Longrightarrow> core_map s' = core_map s"
    "v \<noteq> 0 \<Longrightarrow> \<exists>i. v = kva i \<and> i < 2 ^ 19 \<and> managed s i \<and> refcount (core_map s ! i) = 0 \<and>
        0 < refcount (core_map s' ! i) \<and> (\<forall>j. j \<noteq> i \<longrightarrow> core_map s' ! j = core_map s ! j)"
proof -
  have inv: "kmem_inv s" using assms(1) by (simp add: kmem_ready_def)
  have "mem s' = mem s \<and> npages s' = npages s \<and> kend s' = kend s \<and> (v = 0 \<longrightarrow> core_map s' = core_map s) \<and>
    (v \<noteq> 0 \<longrightarrow> (\<exists>i. v = kva i \<and> i < 2 ^ 19 \<and> managed s i \<and> refcount (core_map s ! i) = 0 \<and>
        0 < refcount (core_map s' ! i) \<and> (\<forall>j. j \<noteq> i \<longrightarrow> core_map s' ! j = core_map s ! j)))"
  proof (cases rule: kalloc_cases [OF assms(1)])
    case 1
    then show ?thesis using assms(2) by auto
  next
    case (2 i)
    have i: "i < npages s" "npages s < 2 ^ 19" "length (core_map s) = npages s"
      using 2 inv by (simp_all add: managed_def kmem_inv_def)
    have "refcount (core_map s ! i) = 0" using taken_rc(1) [OF inv 2(1)] i 2 by (simp add: rc_kva)
    moreover have "v = kva i" "s' = put_hw (cyc s) (taken i s)" using 2 assms(2) by auto
    ultimately show ?thesis using 2 i kva_nonzero [of i] by (auto simp: taken_def intro!: exI [of _ i])
  qed
  then show "mem s' = mem s" "npages s' = npages s" "kend s' = kend s"
    "v = 0 \<Longrightarrow> core_map s' = core_map s"
    "v \<noteq> 0 \<Longrightarrow> \<exists>i. v = kva i \<and> i < 2 ^ 19 \<and> managed s i \<and> refcount (core_map s ! i) = 0 \<and>
        0 < refcount (core_map s' ! i) \<and> (\<forall>j. j \<noteq> i \<longrightarrow> core_map s' ! j = core_map s ! j)"
    by blast+
qed

text \<open>Linking a page that nobody held: the tree grows by the path and nothing else changes.\<close>

lemma link_new_rel:
  assumes wf: "pt_wf s r" and p: "vpath p" "length p < 3" "k < 512" "tbl s r p = Some f"
    and np: "\<not> present_bit (rd64 f k s)"
    and g: "managed s g" "refcount (core_map s ! g) = 0" "present_bit e" "pte_frame e = g"
    and t: "kmem_ready t" "mem t = mem s" "npages t = npages s" "kend t = kend s"
      "0 < refcount (core_map t ! g)" "\<forall>j. j \<noteq> g \<longrightarrow> core_map t ! j = core_map s ! j"
  shows "walk_rel r s (wr64 f k e (zero_frame g t))" "tbl (wr64 f k e (zero_frame g t)) r (p @ [k]) = Some g"
proof -
  let ?u = "wr64 f k e (zero_frame g t)"
  have fresh: "tbl s r p \<noteq> Some g" if "vpath p" for p using not_in_tree_free [OF wf g(2) that] .
  have fg: "f \<noteq> g" using fresh [OF p(1)] p(4) by auto
  have memu: "mem ?u = mem (wr64 f k e (zero_frame g s))" using t(2) by (simp add: wr64_def zero_frame_def cong: if_cong)
  have T: "tbl ?u r q = (if q = p @ [k] then Some g else tbl s r q)" if "vpath q" for q
    unfolding tbl_mem [OF memu] by (rule tbl_link_new [OF wf p np fresh g(3,4) that])
  have pk: "vpath (p @ [k])" using p by (simp add: vpath_def)
  show "tbl ?u r (p @ [k]) = Some g" using T [OF pk] by simp
  have old: "tbl s r (p @ [k]) = None" using p(4) np by (simp add: tbl_snoc)
  have mg: "managed ?u = managed s" using t by (simp add: managed_def fun_eq_iff)
  have "pt_wf ?u r"
    unfolding pt_wf_def using T fresh g t(5,6) wf mg
    by (auto simp: split: if_splits dest: pt_wf_alloc pt_wf_inj) (metis pt_wf_alloc)
  moreover have "xlate ?u r = xlate s r"
  proof
    fix va
    have rd: "rd64 F i ?u = rd64 F i s" if "F \<noteq> g" "F \<noteq> f" for F i
      using that t(2) by (intro rd64_mem) (simp add: mem_wr64_other mem_zero_frame_other)
    have z: "rd64 g i ?u = 0" for i using fg by (simp add: rd64_wr64_other rd64_zero_frame)
    have "F \<noteq> f" if "tbl s r (xpath va) = Some F" for F
      using pt_wf_inj [OF wf vpath_xpath p(1) that] p(2,4) by (auto simp: xpath_def)
    then show "xlate ?u r va = xlate s r va"
      unfolding xlate_def T [OF vpath_xpath] using z rd old fresh [of "xpath va"]
      by (auto simp: present_bit_def split: option.splits)
  qed
  moreover have "mem ?u h = mem s h" if "h \<noteq> g" "h \<noteq> f" for h
    using that t(2) by (simp add: mem_wr64_other mem_zero_frame_other)
  moreover have "in_tree s r f" using p by (auto simp: in_tree_def)
  ultimately have "core_map ?u ! h = core_map s ! h \<and> (\<not> in_tree s r h \<longrightarrow> mem ?u h = mem s h)"
    if "0 < refcount (core_map s ! h)" for h
    using that t(6) g(2) by (cases "h = g") auto
  moreover have "in_tree s r h \<or> refcount (core_map s ! h) = 0" if "in_tree ?u r h" for h
    using that g(2) T by (auto simp: in_tree_def split: if_splits)
  ultimately show "walk_rel r s ?u"
    using \<open>pt_wf ?u r\<close> \<open>xlate ?u r = xlate s r\<close> t T old by (auto simp: walk_rel_def map_rel_def)
qed

lemma walk_level_ok:
  assumes "kmem_ready s" "pt_wf s r" "vpath p" "length p < 3" "k < 512" "tbl s r p = Some f"
  shows "\<exists>res s'. walk_level f k alloc s = Ret (res, s') \<and> walk_rel r s s' \<and> res = tbl s' r (p @ [k])
     \<and> (\<not> alloc \<longrightarrow> s' = s)"
proof (cases "present_bit (rd64 f k s) \<or> \<not> alloc")
  case True
  then show ?thesis
    using assms walk_rel_refl by (auto simp: walk_level_def tbl_snoc)
next
  case False
  obtain v t where v: "kalloc s = Ret (v, t)" "kmem_ready t"
    using kpool.alloc_ok [OF assms(1)] by blast
  note k = kalloc_mem [OF assms(1) v(1)]
  show ?thesis
  proof (cases "v = 0")
    case True
    then have "walk_rel r s t"
      using k v assms(2) tbl_mem [OF k(1), of r] rd64_mem [of t _ s]
      by (auto simp: walk_rel_def map_rel_def pt_wf_def managed_def in_tree_def xlate_def fun_eq_iff split: option.splits)
    moreover have "rd64 f k t = rd64 f k s" using k(1) by (intro rd64_mem) simp
    ultimately show ?thesis
      using False v True assms(6) tbl_mem [OF k(1), of r] by (auto simp: walk_level_def tbl_snoc)
  next
    case nz: False
    then obtain i where i: "v = kva i" "i < 2 ^ 19" "managed s i" "refcount (core_map s ! i) = 0"
      "0 < refcount (core_map t ! i)" "\<forall>j. j \<noteq> i \<longrightarrow> core_map t ! j = core_map s ! j"
      using k(5) by blast
    let ?e = "V2P (kva i) OR PTE_P OR PTE_W OR PTE_U"
    have np: "\<not> present_bit (rd64 f k s)" using False by simp
    note L = link_new_rel [OF assms(2-6) np i(3,4) link_entry(2,1) [OF i(2)] v(2) k(1-3) i(5,6)]
    have "walk_level f k alloc s = Ret (Some i, wr64 f k ?e (zero_frame i t))"
      using False v nz i by (simp add: walk_level_def)
    then show ?thesis using L False by auto
  qed
qed


lemma walkpml4_ok:
  assumes "kmem_ready s" "pt_wf s (kfr pml4)"
  shows "\<exists>res s'. walkpml4 pml4 va alloc s = Ret (res, s') \<and> walk_rel (kfr pml4) s s' \<and>
     res = map_option (\<lambda>f. (f, PT_INDEX va)) (tbl s' (kfr pml4) (xpath va)) \<and> (\<not> alloc \<longrightarrow> s' = s)"
proof -
  let ?r = "kfr pml4"
  let ?i = "PML4_INDEX va" and ?j = "PDPT_INDEX va" and ?k = "PD_INDEX va"
  have v: "vpath []" "vpath [?i]" "vpath [?i, ?j]" by (simp_all add: vpath_def)
  obtain a s1 where 1: "walk_level ?r ?i alloc s = Ret (a, s1)" "walk_rel ?r s s1" "a = tbl s1 ?r [?i]"
    "\<not> alloc \<longrightarrow> s1 = s"
    using walk_level_ok [OF assms v(1), of "?i" ?r alloc] by auto
  have w1: "kmem_ready s1" "pt_wf s1 ?r" using 1(2) map_relD(1,2) unfolding walk_rel_def by blast+
  show ?thesis
  proof (cases a)
    case None
    then show ?thesis using 1 by (auto simp: walkpml4_def xpath_def split: if_splits)
  next
    case a: (Some f1)
    obtain b s2 where 2: "walk_level f1 ?j alloc s1 = Ret (b, s2)" "walk_rel ?r s1 s2" "b = tbl s2 ?r [?i, ?j]"
      "\<not> alloc \<longrightarrow> s2 = s1"
      using walk_level_ok [OF w1 v(2), of "?j" f1 alloc] a 1(3) by auto
    have w2: "kmem_ready s2" "pt_wf s2 ?r" using 2(2) map_relD(1,2) unfolding walk_rel_def by blast+
    have r2: "walk_rel ?r s s2" using 1(2) 2(2) by (rule walk_rel_trans)
    show ?thesis
    proof (cases b)
      case None
      then have "tbl s2 ?r (xpath va) = None"
        using 2(3) tbl_append [of s2 ?r "[?i, ?j]" "[?k]"] by (simp add: xpath_def)
      then show ?thesis using 1 2 a None r2 by (auto simp: walkpml4_def)
    next
      case b: (Some f2)
      obtain c s3 where 3: "walk_level f2 ?k alloc s2 = Ret (c, s3)" "walk_rel ?r s2 s3"
        "c = tbl s3 ?r (xpath va)" "\<not> alloc \<longrightarrow> s3 = s2"
        using walk_level_ok [OF w2 v(3), of "?k" f2 alloc] b 2(3) by (auto simp: xpath_def)
      have "walk_rel ?r s s3" using r2 3(2) by (rule walk_rel_trans)
      moreover have "walkpml4 pml4 va alloc s = Ret (map_option (\<lambda>f. (f, PT_INDEX va)) c, s3)"
        using 1(1) 2(1) 3(1) unfolding a b by (cases c) (simp_all add: walkpml4_def)
      ultimately show ?thesis using 1 2 3 by auto
    qed
  qed
qed


text \<open>A walk takes at most one page per level, and fails only when a level finds none.\<close>

lemma kalloc_free_count:
  assumes "kmem_ready s" "kalloc s = Ret (v, s')"
  shows "free_count s \<le> Suc (free_count s') \<and> (v = 0 \<longrightarrow> free_count s = 0)"
proof (cases rule: kalloc_cases [OF assms(1)])
  case 1
  then show ?thesis using assms(2) by simp
next
  case (2 i)
  have inv: "kmem_inv s" using assms(1) by (simp add: kmem_ready_def)
  have "kva i \<noteq> 0" using 2 inv by (intro kva_nonzero) (simp add: managed_def kmem_inv_def)
  moreover have "int (free_count (taken i s)) = int (free_count s) - 1"
    using taken_inv [OF inv 2(1)] inv by (simp add: kmem_inv_def taken_def)
  ultimately show ?thesis using 2 assms(2) by (auto simp: free_count_def)
qed

lemma free_count_frame_ops [simp]:
  "free_count (wr64 f k v s) = free_count s" "free_count (zero_frame f s) = free_count s"
  by (simp_all add: free_count_def)

lemma walk_level_free:
  assumes "kmem_ready s" "walk_level f k True s = Ret (res, s')"
  shows "free_count s \<le> Suc (free_count s') \<and> (res = None \<longrightarrow> free_count s = 0) \<and> kmem_ready s'"
proof (cases "present_bit (rd64 f k s)")
  case True
  then show ?thesis using assms by (auto simp: walk_level_def)
next
  case False
  obtain v t where v: "kalloc s = Ret (v, t)" "kmem_ready t" using kpool.alloc_ok [OF assms(1)] by blast
  then show ?thesis using kalloc_free_count [OF assms(1) v(1)] assms(2) False
    by (auto simp: walk_level_def split: if_splits)
qed

lemma walkpml4_free:
  assumes "kmem_ready s" "walkpml4 pml4 va True s = Ret (res, s')"
  shows "free_count s \<le> free_count s' + 3 \<and> (res = None \<longrightarrow> free_count s < 3)"
proof -
  obtain a s1 where 1: "walk_level (kfr pml4) (PML4_INDEX va) True s = Ret (a, s1)"
    using assms(2) by (auto simp: walkpml4_def)
  note f1 = walk_level_free [OF assms(1) 1]
  show ?thesis
  proof (cases a)
    case None
    then show ?thesis using f1 1 assms(2) by (simp add: walkpml4_def)
  next
    case a: (Some t1)
    obtain b s2 where 2: "walk_level t1 (PDPT_INDEX va) True s1 = Ret (b, s2)"
      using assms(2) 1 a by (auto simp: walkpml4_def)
    note f2 = walk_level_free [OF conjunct2 [OF conjunct2 [OF f1]] 2]
    show ?thesis
    proof (cases b)
      case None
      then show ?thesis using f1 f2 1 2 a assms(2) by (simp add: walkpml4_def)
    next
      case b: (Some t2)
      obtain c s3 where 3: "walk_level t2 (PD_INDEX va) True s2 = Ret (c, s3)"
        using assms(2) 1 2 a b by (auto simp: walkpml4_def)
      note f3 = walk_level_free [OF conjunct2 [OF conjunct2 [OF f2]] 3]
      show ?thesis
        using f1 f2 f3 1 2 3 a b assms(2) by (cases c) (auto simp: walkpml4_def)
    qed
  qed
qed

section \<open>Mapping pages\<close>

text \<open>The 36 bits of a virtual address that select its page.\<close>

definition pgkey :: "u64 \<Rightarrow> nat" where "pgkey va = unat va div 4096 mod 2 ^ 36"

lemma pgkey_eq_iff: "pgkey a = pgkey b \<longleftrightarrow> xpath a = xpath b \<and> PT_INDEX a = PT_INDEX b"
proof
  assume "pgkey a = pgkey b"
  moreover have "PML4_INDEX v = pgkey v div 2 ^ 27" "PDPT_INDEX v = pgkey v div 2 ^ 18 mod 512"
    "PD_INDEX v = pgkey v div 2 ^ 9 mod 512" "PT_INDEX v = pgkey v mod 512" for v
  proof -
    have m: "x mod 2 ^ 36 div 2 ^ k = x div 2 ^ k mod 2 ^ (36 - k)" if "k \<le> 36" for x k :: nat
      unfolding take_bit_eq_mod [symmetric] drop_bit_eq_div [symmetric] by (rule drop_bit_take_bit)
    have d: "x mod 2 ^ j mod 512 = x mod 512" if "9 \<le> j" for x j :: nat
      using mod_mod_cancel [of "2 ^ 9" "2 ^ j" x] le_imp_power_dvd [OF that, of "2 :: nat"] by simp
    have q: "pgkey v div 2 ^ k = unat v div 4096 div 2 ^ k mod 2 ^ (36 - k)" if "k \<le> 36" for k
      unfolding pgkey_def using that by (rule m)
    have e: "unat v div 4096 div 2 ^ 27 = unat v div 2 ^ 39" "unat v div 4096 div 2 ^ 18 = unat v div 2 ^ 30"
      "unat v div 4096 div 2 ^ 9 = unat v div 2 ^ 21"
      by (simp_all flip: div_mult2_eq)
    show "PML4_INDEX v = pgkey v div 2 ^ 27"
      using q [of 27] unfolding e index_eqs by simp
    show "PDPT_INDEX v = pgkey v div 2 ^ 18 mod 512"
      using q [of 18] d [of "36 - 18" "unat v div 2 ^ 30"] unfolding e index_eqs by simp
    show "PD_INDEX v = pgkey v div 2 ^ 9 mod 512"
      using q [of 9] d [of "36 - 9" "unat v div 2 ^ 21"] unfolding e index_eqs by simp
    show "PT_INDEX v = pgkey v mod 512"
      using d [of 36 "unat v div 4096"] by (simp add: index_eqs pgkey_def)
  qed
  ultimately show "xpath a = xpath b \<and> PT_INDEX a = PT_INDEX b" by (simp add: xpath_def)
next
  assume "xpath a = xpath b \<and> PT_INDEX a = PT_INDEX b"
  then show "pgkey a = pgkey b"
    unfolding pgkey_def xpath_def by (intro indices_determine_page) simp_all
qed

text \<open>Writing the entry of a page changes the translation of that page only.\<close>

lemma leaf_write:
  assumes wf: "pt_wf s r" and f: "tbl s r (xpath va) = Some f"
  shows "vpath q \<Longrightarrow> tbl (wr64 f (PT_INDEX va) e s) r q = tbl s r q"
    and "pt_wf (wr64 f (PT_INDEX va) e s) r"
    and "xlate (wr64 f (PT_INDEX va) e s) r va' =
       (if pgkey va' = pgkey va then if present_bit e then Some e else None else xlate s r va')"
proof -
  let ?s = "wr64 f (PT_INDEX va) e s"
  show T: "tbl ?s r q = tbl s r q" if "vpath q" for q
  proof (rule tbl_wr64_outside [OF wf vpath_xpath that f])
    have "length q \<le> 3" using that by (simp add: vpath_def)
    then show "\<not> prefix (xpath va @ [PT_INDEX va]) q" by (auto simp: xpath_def dest: prefix_length_le)
  qed
  show "pt_wf ?s r" using wf by (simp add: pt_wf_def T)
  have inj: "xpath va' = xpath va" if "tbl s r (xpath va') = Some f"
    using pt_wf_inj [OF wf vpath_xpath vpath_xpath that f] .
  show "xlate ?s r va' =
       (if pgkey va' = pgkey va then if present_bit e then Some e else None else xlate s r va')"
  proof (cases "pgkey va' = pgkey va")
    case True
    then show ?thesis using f by (simp add: xlate_def T pgkey_eq_iff)
  next
    case False
    then have "F \<noteq> f \<or> PT_INDEX va' \<noteq> PT_INDEX va" if "tbl s r (xpath va') = Some F" for F
      using inj that by (auto simp: pgkey_eq_iff)
    then show ?thesis using False by (auto simp: xlate_def T rd64_wr64_other split: option.splits)
  qed
qed

definition vpn_va :: "u64 \<Rightarrow> u64" where "vpn_va vpn = push_bit PT_SHIFT vpn"

text \<open>The abstract effect of \<open>mappages\<close> on the translation function.\<close>

primrec xmap ::
  "nat \<Rightarrow> u64 \<Rightarrow> u64 \<Rightarrow> u64 \<Rightarrow> (u64 \<Rightarrow> u64 option) \<Rightarrow> (u64 \<Rightarrow> u64 option)" where
  "xmap 0 vpn ppn perm X = X"
| "xmap (Suc n) vpn ppn perm X = xmap n (vpn + 1) (ppn + 1) perm
     (\<lambda>va. if pgkey va = pgkey (vpn_va vpn)
           then if present_bit (PTE (vpn_va ppn) perm) then Some (PTE (vpn_va ppn) perm) else None
           else X va)"



lemma map_rel_leaf:
  assumes "kmem_ready s" "pt_wf s r" "tbl s r (xpath va) = Some f"
  shows "map_rel r s (wr64 f (PT_INDEX va) e s)"
proof -
  have "in_tree s r f" using assms(3) by (auto simp: in_tree_def intro!: exI [of _ "xpath va"])
  then show ?thesis using assms leaf_write [OF assms(2,3)]
    by (auto simp: map_rel_def in_tree_def intro: mem_wr64_other)
qed

lemma mark_user_mem_ok:
  assumes "kmem_ready s" "pt_wf s r" "unat (PGNUM pa) < npages s"
  shows "\<exists>s'. mark_user_mem pa va s = Ret s' \<and> map_rel r s s' \<and> xlate s' r = xlate s r \<and>
     free_count s' = free_count s"
proof -
  let ?i = "unat (PGNUM pa)"
  define s' where "s' = s\<lparr>core_map := (core_map s)[?i := (core_map s ! ?i)\<lparr>user := 1, cva := va\<rparr>]\<rparr>"
  have r: "mark_user_mem pa va s = Ret s'" using assms(3) by (simp add: mark_user_mem_def pa2page_def s'_def)
  have l: "?i < length (core_map s)" using assms by (simp add: kmem_ready_def kmem_inv_def)
  have e: "refcount (core_map s' ! g) = refcount (core_map s ! g)"
    "available (core_map s' ! g) = available (core_map s ! g)" for g
    using l by (cases "g = ?i"; simp add: s'_def)+
  have m: "mem s' = mem s" "managed s' = managed s" by (simp_all add: s'_def managed_def fun_eq_iff)
  have fc: "free_count s' = free_count s"
    using length_filter_update [OF l, of "\<lambda>e. available e = 1" "(core_map s ! ?i)\<lparr>user := 1, cva := va\<rparr>"]
    by (simp add: free_count_def s'_def split: if_splits)
  have T: "tbl s' r q = tbl s r q" for q using m(1) by (rule tbl_mem)
  have R: "rd64 f k s' = rd64 f k s" for f k using m(1) by (intro rd64_mem) simp
  have "kmem_ready s'"
    using assms(1) e m fc by (simp add: kmem_ready_def kmem_inv_def entry_ok_def) (simp add: s'_def spin_free_def cli_ok_def unheld_def)
  moreover have "pt_wf s' r" using assms(2) by (simp add: pt_wf_def T e m)
  ultimately have "map_rel r s s'" by (simp add: map_rel_def T e m in_tree_def) (simp add: s'_def)
  moreover have "xlate s' r = xlate s r" by (simp add: xlate_def T R fun_eq_iff split: option.splits)
  ultimately show ?thesis using r fc by blast
qed


text \<open>One round of \<open>mappages\<close>: the page is mapped, or one of the two panics.\<close>

lemma map_one:
  fixes perm :: u64
  assumes "kmem_ready s" "pt_wf s (kfr pml4)" "kern \<or> unat (PGNUM (vpn_va ppn)) < npages s"
  defines "e \<equiv> PTE (vpn_va ppn) perm"
  obtains (nomem) "mappages (Suc n) pml4 vpn ppn perm kern s = Fail (Panic ''not enough memory'')" "free_count s < 3"
  | (remap) "mappages (Suc n) pml4 vpn ppn perm kern s = Fail (Panic ''remap'')"
      "xlate s (kfr pml4) (vpn_va vpn) \<noteq> None"
  | (mapped) t where "mappages (Suc n) pml4 vpn ppn perm kern s = mappages n pml4 (vpn + 1) (ppn + 1) perm kern t"
      "map_rel (kfr pml4) s t" "xlate s (kfr pml4) (vpn_va vpn) = None" "free_count s \<le> free_count t + 3"
      "xlate t (kfr pml4) = (\<lambda>va. if pgkey va = pgkey (vpn_va vpn)
          then if present_bit e then Some e else None else xlate s (kfr pml4) va)"
proof -
  let ?r = "kfr pml4" and ?va = "vpn_va vpn"
  obtain res s1 where w: "walkpml4 pml4 ?va True s = Ret (res, s1)" "walk_rel ?r s s1"
    "res = map_option (\<lambda>f. (f, PT_INDEX ?va)) (tbl s1 ?r (xpath ?va))"
    using walkpml4_ok [OF assms(1,2)] by blast
  note fr = walkpml4_free [OF assms(1) w(1)]
  have m1: "map_rel ?r s s1" "xlate s1 ?r = xlate s ?r" using w(2) by (simp_all add: walk_rel_def)
  show thesis
  proof (cases "tbl s1 ?r (xpath ?va)")
    case None
    then show thesis using w(1,3) fr by (intro nomem) (simp_all add: vpn_va_def)
  next
    case (Some f)
    then have res: "res = Some (f, PT_INDEX ?va)" using w(3) by simp
    show thesis
    proof (cases "present_bit (rd64 f (PT_INDEX ?va) s1)")
      case True
      then have "xlate s1 ?r ?va \<noteq> None" using Some by (simp add: xlate_def)
      then show thesis using m1(2) w(1) res True by (intro remap) (simp_all add: vpn_va_def)
    next
      case False
      let ?s2 = "wr64 f (PT_INDEX ?va) e s1"
      have k1: "kmem_ready s1" "pt_wf s1 ?r" "npages s1 = npages s" using m1(1) by (simp_all add: map_rel_def)
      have m2: "map_rel ?r s ?s2" using map_rel_trans [OF m1(1) map_rel_leaf [OF k1(1,2) Some]] .
      have k2: "kmem_ready ?s2" "pt_wf ?s2 ?r" using map_relD(1,2) [OF m2] .
      have x2: "xlate ?s2 ?r = (\<lambda>va. if pgkey va = pgkey ?va
          then if present_bit e then Some e else None else xlate s ?r va)"
        using leaf_write(3) [OF k1(2) Some] m1(2) by (simp add: fun_eq_iff)
      have "xlate s1 ?r ?va = None" using False Some by (simp add: xlate_def)
      then have n: "xlate s ?r ?va = None" using m1(2) by simp
      have go: "mappages (Suc n) pml4 vpn ppn perm kern s =
          obind (if kern then Ret ?s2 else mark_user_mem (vpn_va ppn) ?va ?s2)
            (mappages n pml4 (vpn + 1) (ppn + 1) perm kern)"
        using w(1) res False by (simp add: vpn_va_def e_def)
      show thesis
      proof (cases kern)
        case True
        then show thesis using go m2 n x2 fr by (intro mapped [of ?s2]) simp_all
      next
        case nk: False
        have "unat (PGNUM (vpn_va ppn)) < npages ?s2" using assms(3) nk k1(3) by simp
        then obtain t where t: "mark_user_mem (vpn_va ppn) ?va ?s2 = Ret t" "map_rel ?r ?s2 t"
          "xlate t ?r = xlate ?s2 ?r" "free_count t = free_count ?s2"
          using mark_user_mem_ok [OF k2] by blast
        show thesis
          using go nk t n x2 fr map_rel_trans [OF m2 t(2)] by (intro mapped [of t]) simp_all
      qed
    qed
  qed
qed

text \<open>The pages named by a call of \<open>mappages\<close>.\<close>

definition map_vas :: "nat \<Rightarrow> u64 \<Rightarrow> u64 list" where
  "map_vas n vpn = map (\<lambda>i. vpn_va (vpn + of_nat i)) [0..<n]"

lemma map_vas_Suc: "map_vas (Suc n) vpn = vpn_va vpn # map_vas n (vpn + 1)"
proof -
  have "map_vas (Suc n) vpn = vpn_va (vpn + of_nat 0) # map (\<lambda>i. vpn_va (vpn + of_nat i)) (map Suc [0..<n])"
    unfolding map_vas_def map_Suc_upt by (simp add: upt_conv_Cons del: upt_Suc)
  then show ?thesis by (simp add: map_vas_def add.assoc)
qed

text \<open>The call asks to map a page that is mapped already, or one page twice.\<close>

definition map_clash :: "nat \<Rightarrow> u64 \<Rightarrow> (u64 \<Rightarrow> u64 option) \<Rightarrow> bool" where
  "map_clash n vpn X \<longleftrightarrow>
     (\<exists>va\<in>set (map_vas n vpn). X va \<noteq> None) \<or> \<not> distinct (map pgkey (map_vas n vpn))"

lemma map_clash_head: "X (vpn_va vpn) \<noteq> None \<Longrightarrow> map_clash (Suc n) vpn X"
  by (simp add: map_clash_def map_vas_Suc)

lemma map_clash_tail:
  assumes "map_clash n (vpn + 1) Y" "\<And>va. Y va \<noteq> None \<Longrightarrow> X va \<noteq> None \<or> pgkey va = pgkey (vpn_va vpn)"
  shows "map_clash (Suc n) vpn X"
proof (cases "distinct (map pgkey (map_vas n (vpn + 1)))")
  case True
  then obtain va where va: "va \<in> set (map_vas n (vpn + 1))" "Y va \<noteq> None"
    using assms(1) by (auto simp: map_clash_def)
  from assms(2) [OF va(2)] show ?thesis
  proof
    assume "pgkey va = pgkey (vpn_va vpn)"
    then have "pgkey (vpn_va vpn) \<in> pgkey ` set (map_vas n (vpn + 1))" using va(1) by (metis imageI)
    then show ?thesis by (simp add: map_clash_def map_vas_Suc)
  qed (use va(1) in \<open>auto simp: map_clash_def map_vas_Suc\<close>)
qed (simp add: map_clash_def map_vas_Suc)

lemma map_clash_Suc:
  "map_clash (Suc n) vpn X \<longleftrightarrow>
     X (vpn_va vpn) \<noteq> None \<or> map_clash n (vpn + 1) (\<lambda>va. if pgkey va = pgkey (vpn_va vpn) then Some e else X va)"
  (is "?l \<longleftrightarrow> ?h \<or> ?t")
proof
  assume ?l
  then consider "X (vpn_va vpn) \<noteq> None" | va where "va \<in> set (map_vas n (vpn + 1))" "X va \<noteq> None"
    | "pgkey (vpn_va vpn) \<in> pgkey ` set (map_vas n (vpn + 1))" | "\<not> distinct (map pgkey (map_vas n (vpn + 1)))"
    by (auto simp: map_clash_def map_vas_Suc)
  then show "?h \<or> ?t"
  proof cases
    case 3
    then obtain va where "va \<in> set (map_vas n (vpn + 1))" "pgkey va = pgkey (vpn_va vpn)" by auto
    then show ?thesis by (auto simp: map_clash_def intro!: bexI [of _ va])
  qed (auto simp: map_clash_def)
next
  assume "?h \<or> ?t"
  then show ?l
  proof
    assume ?t
    then show ?l by (rule map_clash_tail) (simp split: if_splits)
  qed (rule map_clash_head)
qed

lemma present_PTE: "present_bit (PTE (vpn_va a) perm) = present_bit perm"
  by (simp add: present_bit_iff PTE_def vpn_va_def PT_SHIFT_def bit_simps)

lemma mappages_spec:
  assumes "kmem_ready s" "pt_wf s (kfr pml4)"
    "kern \<or> (\<forall>i<n. unat (PGNUM (vpn_va (ppn + of_nat i))) < npages s)"
  shows "case mappages n pml4 vpn ppn perm kern s of
      Ret s' \<Rightarrow> map_rel (kfr pml4) s s' \<and> xlate s' (kfr pml4) = xmap n vpn ppn perm (xlate s (kfr pml4))
        \<and> (present_bit perm \<longrightarrow> \<not> map_clash n vpn (xlate s (kfr pml4)))
    | Fail e \<Rightarrow> e = Panic ''not enough memory'' \<and> free_count s < 3 * n \<or>
        e = Panic ''remap'' \<and> map_clash n vpn (xlate s (kfr pml4))"
  using assms
proof (induction n arbitrary: vpn ppn s)
  case 0
  then show ?case by (simp add: map_rel_refl map_clash_def map_vas_def)
next
  case (Suc n)
  have h: "kern \<or> unat (PGNUM (vpn_va ppn)) < npages s" using Suc.prems(3) by auto
  show ?case
  proof (cases rule: map_one [OF Suc.prems(1,2) h, where n = n and vpn = vpn and perm = perm])
    case 1
    then show ?thesis by (simp del: mappages.simps)
  next
    case 2
    then show ?thesis by (simp del: mappages.simps add: map_clash_head)
  next
    case (3 t)
    let ?r = "kfr pml4"
    have t: "kmem_ready t" "pt_wf t ?r" "npages t = npages s" using map_relD(1-3) [OF 3(2)] .
    have "unat (PGNUM (vpn_va (ppn + 1 + of_nat i))) < npages t" if "i < n" "\<not> kern" for i
    proof -
      have "unat (PGNUM (vpn_va (ppn + of_nat (Suc i)))) < npages s" using Suc.prems(3) that by blast
      then show ?thesis using t(3) by (simp add: add.assoc)
    qed
    then have IH: "case mappages n pml4 (vpn + 1) (ppn + 1) perm kern t of
        Ret s' \<Rightarrow> map_rel ?r t s' \<and> xlate s' ?r = xmap n (vpn + 1) (ppn + 1) perm (xlate t ?r)
          \<and> (present_bit perm \<longrightarrow> \<not> map_clash n (vpn + 1) (xlate t ?r))
      | Fail e \<Rightarrow> e = Panic ''not enough memory'' \<and> free_count t < 3 * n \<or>
          e = Panic ''remap'' \<and> map_clash n (vpn + 1) (xlate t ?r)"
      by (intro Suc.IH [OF t(1,2)]) blast
    show ?thesis
    proof (cases "mappages n pml4 (vpn + 1) (ppn + 1) perm kern t")
      case (Ret u)
      have "\<not> map_clash (Suc n) vpn (xlate s ?r)" if "present_bit perm" "\<not> map_clash n (vpn + 1) (xlate t ?r)"
        using that 3(3) unfolding 3(5) map_clash_Suc [where e = "PTE (vpn_va ppn) perm"]
        by (simp add: present_PTE cong: if_cong)
      then show ?thesis
        using Ret IH 3(1,5) map_rel_trans [OF 3(2)] by (simp del: mappages.simps)
    next
      case (Fail e)
      have "xlate s ?r va \<noteq> None \<or> pgkey va = pgkey (vpn_va vpn)" if "xlate t ?r va \<noteq> None" for va
        using that unfolding 3(5) by (metis (full_types))
      then have cl: "map_clash (Suc n) vpn (xlate s ?r)" if "map_clash n (vpn + 1) (xlate t ?r)"
        using map_clash_tail [OF that] by blast
      have r: "mappages (Suc n) pml4 vpn ppn perm kern s = Fail e" using 3(1) Fail by (simp only:)
      from IH Fail have "e = Panic ''not enough memory'' \<and> free_count t < 3 * n \<or>
          e = Panic ''remap'' \<and> map_clash n (vpn + 1) (xlate t ?r)" by (simp only: outcome.case)
      then show ?thesis unfolding r outcome.case using cl 3(4) by auto
    qed
  qed
qed


lemma xmap_other: "pgkey va \<notin> pgkey ` set (map_vas n vpn) \<Longrightarrow> xmap n vpn ppn perm X va = X va"
  by (induction n arbitrary: vpn ppn X) (simp_all add: map_vas_Suc)

lemma xmap_at:
  assumes "distinct (map pgkey (map_vas n vpn))" "present_bit perm" "i < n" "pgkey va = pgkey (map_vas n vpn ! i)"
  shows "xmap n vpn ppn perm X va = Some (PTE (vpn_va (ppn + of_nat i)) perm)"
  using assms
proof (induction n arbitrary: vpn ppn X i)
  case (Suc n)
  show ?case
  proof (cases i)
    case 0
    then have "pgkey va \<notin> pgkey ` set (map_vas n (vpn + 1))" using Suc.prems by (simp add: map_vas_Suc)
    then show ?thesis using 0 Suc.prems by (simp add: xmap_other present_PTE map_vas_Suc)
  next
    case (Suc j)
    then have "xmap n (vpn + 1) (ppn + 1) perm Y va = Some (PTE (vpn_va (ppn + 1 + of_nat j)) perm)" for Y
      using Suc.prems by (intro Suc.IH) (simp_all add: map_vas_Suc)
    then show ?thesis using \<open>i = Suc j\<close> by (simp add: add.assoc)
  qed
qed simp


section \<open>Properties\<close>


text \<open>A machine with eight pages: one kernel page, an empty root table, six free pages.\<close>

definition demo_pt :: km where
  "demo_pt = demo_km\<lparr>npages := 8, free_pages := 6, core_map := zero_entry # zero_entry\<lparr>refcount := 1\<rparr> # replicate 6 free_entry\<rparr>"

lemma demo_pt_simps: "npages demo_pt = 8" "kend demo_pt = kva 1" "mem demo_pt = (\<lambda>_ _. 0)"
  "core_map demo_pt = zero_entry # zero_entry\<lparr>refcount := 1\<rparr> # replicate 6 free_entry"
  "free_pages demo_pt = 6" "spin_free KmemLock demo_pt"
  by (simp_all add: demo_pt_def demo_km_simps spin_free_def cli_ok_def unheld_def)

lemma demo_pt_ready: "kmem_ready demo_pt"
proof -
  have m: "managed demo_pt i" if "1 \<le> i" "i < 8" for i
    using that by (simp add: managed_def demo_pt_simps kva_le)
  have "entry_ok (core_map demo_pt ! i) \<and> (available (core_map demo_pt ! i) = 1 \<longrightarrow> managed demo_pt i)
        \<and> (0 < refcount (core_map demo_pt ! i) \<longrightarrow> managed demo_pt i)" if "i < 8" for i
  proof -
    have "i = 0 \<or> i = 1 \<or> (\<exists>j<6. i = Suc (Suc j))"
      using that by (cases i; cases "i - 1") auto
    then show ?thesis using m [of i] that
      by (auto simp: demo_pt_simps entry_ok_def zero_entry_def free_entry_def)
  qed
  then show ?thesis
    by (simp add: kmem_ready_def kmem_inv_def demo_pt_simps free_count_def zero_entry_def free_entry_def)
qed

lemma demo_pt_tbl: "tbl demo_pt r p = (if p = [] then Some r else None)"
proof -
  have "rd64 f k demo_pt = 0" for f k by (simp add: rd64_def demo_pt_simps)
  then show ?thesis by (cases p) (auto simp: present_bit_def)
qed

lemma demo_pt_wf: "pt_wf demo_pt 1"
  by (auto simp: pt_wf_def demo_pt_tbl demo_pt_simps managed_def zero_entry_def kva_le split: if_splits)

lemma demo_pt_xlate: "xlate demo_pt r va = None"
proof -
  have "xpath va \<noteq> []" by (simp add: xpath_def)
  then show ?thesis unfolding xlate_def demo_pt_tbl by simp
qed


end
