(* ===== verification/Vspace.thy ===== *)
theory Vspace
  imports Pagetable
begin

text \<open>
  \<open>kernel/vspace.c\<close>: the hardware-independent description of an address space, three regions
  with a linked list of pages of \<open>vpage_info\<close> each, and the operations that keep it and mirror
  it into the page table.

  A \<open>vspace\<close> is a value that the operations take and return.  The linked list
  \<open>vr->pages\<close> is a list of records that carry the address of their page, so that allocating
  and freeing list pages is visible; a pointer to a \<open>vpage_info\<close> is a pair of the page's
  position in the list and the slot in it.  The flags \<open>used\<close>, \<open>present\<close>,
  \<open>writable\<close> and \<open>cowpageflag\<close> only ever hold 0 and 1 and are booleans.
  \<open>vrloaddata\<close> and \<open>vspaceloadcode\<close> read files and are modelled with \<open>exec\<close>;
  \<open>vspacedumpstack\<close> and \<open>vspacedumpcode\<close> only print.
\<close>

section \<open>Data\<close>

definition NREGIONS :: nat where "NREGIONS = 3"
definition VR_CODE :: nat where "VR_CODE = 0"
definition VR_HEAP :: nat where "VR_HEAP = 1"
definition VR_USTACK :: nat where "VR_USTACK = 2"

record vpage_info =
  used :: bool
  ppn :: u64
  present :: bool
  writable :: bool
  cowpageflag :: bool

definition zero_vpi :: vpage_info where
  "zero_vpi = \<lparr>used = False, ppn = 0, present = False, writable = False, cowpageflag = False\<rparr>"

text \<open>\<open>sizeof(struct vpage_info)\<close> is 24 with its padding.\<close>

definition sizeof_vpage_info :: nat where "sizeof_vpage_info = 24"

definition VPIPPAGE :: nat where "VPIPPAGE = 4096 div sizeof_vpage_info - 1"

record vpi_page =
  vp_addr :: u64
  infos :: "vpage_info list"

datatype vr_direction = VRDIR_UP | VRDIR_DOWN

record vregion =
  dir :: vr_direction
  va_base :: u64
  vsize :: u64
  vpages :: "vpi_page list"

record vspace =
  regions :: "vregion list"
  pgtbl :: u64

definition VRTOP :: "vregion \<Rightarrow> u64" where
  "VRTOP r = (if dir r = VRDIR_UP then va_base r + vsize r else va_base r)"

definition VRBOT :: "vregion \<Rightarrow> u64" where
  "VRBOT r = (if dir r = VRDIR_UP then va_base r else va_base r - vsize r)"

definition zero_region :: vregion where
  "zero_region = \<lparr>dir = VRDIR_UP, va_base = 0, vsize = 0, vpages = []\<rparr>"

type_synonym vpi_ptr = "nat \<times> nat"

definition vpi_at :: "vregion \<Rightarrow> vpi_ptr \<Rightarrow> vpage_info" where
  "vpi_at vr = (\<lambda>(k, i). infos (vpages vr ! k) ! i)"

definition vpi_set :: "vpi_ptr \<Rightarrow> vpage_info \<Rightarrow> vregion \<Rightarrow> vregion" where
  "vpi_set = (\<lambda>(k, i) v vr. vr\<lparr>vpages := (vpages vr)[k := (vpages vr ! k)\<lparr>infos := (infos (vpages vr ! k))[i := v]\<rparr>]\<rparr>)"

section \<open>Page descriptors\<close>

text \<open>
  The index is computed in 64 bits and kept in an \<open>int\<close>; the loop compares it with the
  unsigned \<open>VPIPPAGE\<close>, so that it acts as the unsigned value of its 32 bits.
\<close>

definition va2vpi_idx :: "vregion \<Rightarrow> u64 \<Rightarrow> nat" where
  "va2vpi_idx r va =
     (if dir r = VRDIR_UP then unat (ucast (drop_bit 12 (va - va_base r)) :: u32)
      else unat (ucast (drop_bit 12 (va_base r - 1 - va)) :: u32))"

definition x86perms :: "vpage_info \<Rightarrow> u64" where
  "x86perms vpi = PTE_U OR (if present vpi then PTE_P else 0) OR (if writable vpi then PTE_W else 0)"

definition new_vpi_page :: "u64 \<Rightarrow> vpi_page" where
  "new_vpi_page a = \<lparr>vp_addr = a, infos = replicate VPIPPAGE zero_vpi\<rparr>"

function vpi_walk ::
  "nat \<Rightarrow> nat \<Rightarrow> vpi_page list \<Rightarrow> 'a km_scheme \<Rightarrow> (vpi_ptr option \<times> vpi_page list \<times> 'a km_scheme) outcome" where
  "vpi_walk k idx pages s =
     (if idx < VPIPPAGE then Ret (Some (k, idx), pages, s)
      else if Suc k < length pages then vpi_walk (Suc k) (idx - VPIPPAGE) pages s
      else obind (kalloc s) (\<lambda>(p, s1).
        if p = 0 then Ret (None, pages, s1)
        else vpi_walk (Suc k) (idx - VPIPPAGE) (pages @ [new_vpi_page p]) s1))"
  by pat_completeness auto
termination by (relation "measure (\<lambda>(k, idx, pages, s). idx)") (auto simp: VPIPPAGE_def sizeof_vpage_info_def)

text \<open>The first page of the list is allocated without a check; clearing it through null faults.\<close>

definition va2vpage_info ::
  "vregion \<Rightarrow> u64 \<Rightarrow> 'a km_scheme \<Rightarrow> (vpi_ptr option \<times> vregion \<times> 'a km_scheme) outcome" where
  "va2vpage_info vr va s =
     obind (if vpages vr = []
            then obind (kalloc s) (\<lambda>(p, s1).
              if p = 0 then Fail (BadAccess ''va2vpage_info: memset of null'') else Ret ([new_vpi_page p], s1))
            else Ret (vpages vr, s)) (\<lambda>(pages, s1).
       obind (vpi_walk 0 (va2vpi_idx vr va) pages s1) (\<lambda>(r, pages1, s2).
         Ret (r, vr\<lparr>vpages := pages1\<rparr>, s2)))"

text \<open>The same, where the caller uses the result without a null check.\<close>

definition va2vpi_nonnull ::
  "vregion \<Rightarrow> u64 \<Rightarrow> 'a km_scheme \<Rightarrow> (vpi_ptr \<times> vregion \<times> 'a km_scheme) outcome" where
  "va2vpi_nonnull vr va s =
     obind (va2vpage_info vr va s) (\<lambda>(r, vr1, s1). case r of
       None \<Rightarrow> Fail (BadAccess ''null vpage_info'') | Some p \<Rightarrow> Ret (p, vr1, s1))"

section \<open>Adding mappings\<close>

text \<open>The physical memory behind a page number, \<open>P2V(ppn << PT_SHIFT)\<close>.\<close>

definition ppn_kva :: "u64 \<Rightarrow> u64" where "ppn_kva p = P2V (push_bit PT_SHIFT p)"

text \<open>
  The allocation loop of \<open>vregionaddmap\<close>; \<open>Some a\<close> reports that it left through
  \<open>addmap_failure\<close> at address \<open>a\<close>.
\<close>

primrec addmap_loop ::
  "nat \<Rightarrow> u64 \<Rightarrow> u64 \<Rightarrow> bool \<Rightarrow> bool \<Rightarrow> vregion \<Rightarrow> 'a km_scheme
     \<Rightarrow> (u64 option \<times> vregion \<times> 'a km_scheme) outcome" where
  "addmap_loop 0 a limit pres wr vr s = Fail Spin"
| "addmap_loop (Suc n) a limit pres wr vr s =
     (if \<not> a < limit then Ret (None, vr, s)
      else obind (va2vpage_info vr a s) (\<lambda>(r, vr1, s1). case r of
        None \<Rightarrow> Ret (Some a, vr1, s1)
      | Some p \<Rightarrow>
          assertm (\<not> used (vpi_at vr1 p)) ''!vpi->used''
            (obind (kalloc s1) (\<lambda>(m, s2).
               if m = 0 then Ret (Some a, vr1, s2)
               else addmap_loop n (a + PGSIZE) limit pres wr
                 (vpi_set p ((vpi_at vr1 p)\<lparr>used := True, present := pres, writable := wr, ppn := PGNUM (V2P m)\<rparr>) vr1)
                 (zero_frame (kfr m) s2)))))"

primrec addmap_undo ::
  "nat \<Rightarrow> u64 \<Rightarrow> u64 \<Rightarrow> vregion \<Rightarrow> 'a km_scheme \<Rightarrow> (vregion \<times> 'a km_scheme) outcome" where
  "addmap_undo 0 a lo vr s = Fail Spin"
| "addmap_undo (Suc n) a lo vr s =
     (if \<not> lo \<le> a then Ret (vr, s)
      else obind (va2vpage_info vr a s) (\<lambda>(r, vr1, s1). case r of
        None \<Rightarrow> Fail (Panic ''vpi info missing'')
      | Some p \<Rightarrow>
          obind (kfree (ppn_kva (ppn (vpi_at vr1 p))) s1) (\<lambda>s2.
            addmap_undo n (a - PGSIZE) lo
              (vpi_set p ((vpi_at vr1 p)\<lparr>used := False, present := False, writable := False, ppn := 0\<rparr>) vr1) s2)))"

definition vregionaddmap ::
  "vregion \<Rightarrow> u64 \<Rightarrow> u64 \<Rightarrow> bool \<Rightarrow> bool \<Rightarrow> 'a km_scheme \<Rightarrow> (int \<times> vregion \<times> 'a km_scheme) outcome" where
  "vregionaddmap vr from_va sz pres wr s =
     (if KERNBASE \<le> sz + from_va then Ret (- 1, vr, s)
      else if sz = 0 then Ret (0, vr, s)
      else let lo = PGROUNDUP from_va; n = unat sz div 4096 + 2
        in obind (addmap_loop n lo (from_va + sz) pres wr vr s) (\<lambda>(r, vr1, s1). case r of
             None \<Rightarrow> Ret (sint (ucast sz :: u32), vr1, s1)
           | Some a \<Rightarrow> obind (addmap_undo n (a - PGSIZE) lo vr1 s1) (\<lambda>(vr2, s2). Ret (- 1, vr2, s2))))"

text \<open>Bytes stored into a page frame from an offset on (\<open>memmove\<close> into a kernel page).\<close>

definition put_bytes :: "nat \<Rightarrow> nat \<Rightarrow> u8 list \<Rightarrow> 'a km_scheme \<Rightarrow> 'a km_scheme" where
  "put_bytes f off bs s = s\<lparr>mem := (mem s)(f := (\<lambda>a. if off \<le> a \<and> a < off + length bs
     then bs ! (a - off) else mem s f a))\<rparr>"

definition get_bytes :: "nat \<Rightarrow> nat \<Rightarrow> nat \<Rightarrow> 'a km_scheme \<Rightarrow> u8 list" where
  "get_bytes f off n s = map (\<lambda>i. mem s f (off + i)) [0..<n]"

text \<open>The copy loop of \<open>vradddata\<close>, page by page.\<close>

function vradddata_loop ::
  "nat \<Rightarrow> u64 \<Rightarrow> u8 list \<Rightarrow> vregion \<Rightarrow> 'a km_scheme \<Rightarrow> (vregion \<times> 'a km_scheme) outcome" where
  "vradddata_loop i va data r s =
     (if \<not> i < length data then Ret (r, s)
      else obind (va2vpi_nonnull r (va + of_nat i) s) (\<lambda>(p, r1, s1).
        assertm (used (vpi_at r1 p)) ''vpi->used''
          (vradddata_loop (i + 4096) va data r1
             (put_bytes (kfr (ppn_kva (ppn (vpi_at r1 p)))) 0 (take 4096 (drop i data)) s1))))"
  by pat_completeness auto
termination by (relation "measure (\<lambda>(i, va, data, r, s). length data - i)") auto

definition vradddata ::
  "vregion \<Rightarrow> u64 \<Rightarrow> u8 list \<Rightarrow> bool \<Rightarrow> bool \<Rightarrow> 'a km_scheme \<Rightarrow> (int \<times> vregion \<times> 'a km_scheme) outcome" where
  "vradddata r va data pres wr s =
     obind (vregionaddmap r va (of_nat (length data)) pres wr s) (\<lambda>(ret, r1, s1).
       if ret < 0 then Ret (ret, r1, s1)
       else obind (vradddata_loop 0 va data r1 s1) (\<lambda>(r2, s2). Ret (0, r2, s2)))"


section \<open>Mirroring into the page table\<close>

definition reg_upd :: "nat \<Rightarrow> vregion \<Rightarrow> vspace \<Rightarrow> vspace" where
  "reg_upd i vr vs = vs\<lparr>regions := (regions vs)[i := vr]\<rparr>"

text \<open>The user part of the old table: entries 0 to \<open>PML4_INDEX(SZ_4G)\<close>.\<close>

definition drop_user_entries :: "u64 \<Rightarrow> 'a km_scheme \<Rightarrow> 'a km_scheme outcome" where
  "drop_user_entries pml4 =
     ofold (\<lambda>i s. if present_bit (rd64 (kfr pml4) i s)
                 then obind (freevm_pdpt (pte_frame (rd64 (kfr pml4) i s)) s) (\<lambda>s1. Ret (wr64 (kfr pml4) i 0 s1))
                 else Ret s) [0..<Suc (PML4_INDEX SZ_4G)]"

text \<open>The pages of one region, from \<open>start\<close> up to \<open>end\<close>.\<close>

primrec map_region ::
  "nat \<Rightarrow> u64 \<Rightarrow> u64 \<Rightarrow> u64 \<Rightarrow> vregion \<Rightarrow> 'a km_scheme \<Rightarrow> (vregion \<times> 'a km_scheme) outcome" where
  "map_region 0 pml4 start stop vr s = Fail Spin"
| "map_region (Suc n) pml4 start stop vr s =
     (if \<not> start < stop then Ret (vr, s)
      else obind (va2vpi_nonnull vr start s) (\<lambda>(p, vr1, s1).
        obind (if used (vpi_at vr1 p)
               then mappages 1 pml4 (drop_bit PT_SHIFT start) (ppn (vpi_at vr1 p)) (x86perms (vpi_at vr1 p)) False s1
               else Ret s1)
          (map_region n pml4 (start + PGSIZE) stop vr1)))"

definition update_region :: "u64 \<Rightarrow> vregion \<Rightarrow> 'a km_scheme \<Rightarrow> (vregion \<times> 'a km_scheme) outcome" where
  "update_region pml4 vr s =
     assertm (VRBOT vr mod PGSIZE = 0) ''start % PGSIZE == 0''
       (map_region (unat (VRTOP vr - VRBOT vr) div 4096 + 2) pml4 (VRBOT vr) (VRTOP vr) vr s)"

primrec update_regions ::
  "u64 \<Rightarrow> vregion list \<Rightarrow> 'a km_scheme \<Rightarrow> (vregion list \<times> 'a km_scheme) outcome" where
  "update_regions pml4 [] s = Ret ([], s)"
| "update_regions pml4 (vr # vrs) s =
     obind (update_region pml4 vr s) (\<lambda>(vr1, s1).
       obind (update_regions pml4 vrs s1) (\<lambda>(vrs1, s2). Ret (vr1 # vrs1, s2)))"

definition vspaceupdate :: "vspace \<Rightarrow> 'a km_scheme \<Rightarrow> (vspace \<times> 'a km_scheme) outcome" where
  "vspaceupdate vs s =
     obind (drop_user_entries (pgtbl vs) s) (\<lambda>s1.
       obind (update_regions (pgtbl vs) (regions vs) s1) (\<lambda>(rs, s2). Ret (vs\<lparr>regions := rs\<rparr>, s2)))"

section \<open>Creating and installing address spaces\<close>

definition vspaceinstallkern :: "'a vm_scheme \<Rightarrow> 'a vm_scheme" where
  "vspaceinstallkern s = s\<lparr>cr3 := V2P (kpml4 s)\<rparr>"

text \<open>\<open>vspacebootinit\<close> without the segment registers that \<open>seginit\<close> loads.\<close>

definition vspacebootinit :: "'a vm_scheme \<Rightarrow> 'a vm_scheme outcome" where
  "vspacebootinit s =
     obind (setupkvm s) (\<lambda>(p, s1). Ret (vspaceinstallkern (s1\<lparr>kpml4 := p\<rparr>)))"

definition vspaceinit :: "vspace \<Rightarrow> 'a vm_scheme \<Rightarrow> (int \<times> vspace \<times> 'a vm_scheme) outcome" where
  "vspaceinit vs s =
     obind (setupkvm s) (\<lambda>(p, s1).
       if p = 0 then Ret (- 1, vs\<lparr>pgtbl := 0\<rparr>, s1)
       else Ret (0, \<lparr>regions = [zero_region, zero_region, zero_region\<lparr>dir := VRDIR_DOWN\<rparr>], pgtbl = p\<rparr>, s1))"

definition vspaceinitcode :: "vspace \<Rightarrow> u8 list \<Rightarrow> 'a km_scheme \<Rightarrow> (vspace \<times> 'a km_scheme) outcome" where
  "vspaceinitcode vs init s =
     (let sz = of_nat (length init);
          code = (regions vs ! VR_CODE)\<lparr>va_base := 0x10000, vsize := PGROUNDUP sz + 5 * PGSIZE\<rparr>
      in obind (vradddata code 0x10000 init True True s) (\<lambda>(r, code1, s1).
           assertm (r = 0) ''failed to allocate init code data''
             (obind (vregionaddmap code1 (va_base code1 + PGROUNDUP sz) (5 * PGSIZE) True True s1) (\<lambda>(r, code2, s2).
                assertm (0 \<le> r) ''vregionaddmap''
                  (let stk = (regions vs ! VR_USTACK)\<lparr>va_base := SZ_2G, vsize := PGSIZE\<rparr>
                   in obind (vregionaddmap stk (SZ_2G - PGSIZE) PGSIZE True True s2) (\<lambda>(r, stk1, s3).
                        assertm (0 \<le> r) ''vregionaddmap''
                          (vspaceupdate (reg_upd VR_USTACK stk1 (reg_upd VR_CODE code2 vs)) s3)))))))"

definition vspaceinitstack :: "vspace \<Rightarrow> u64 \<Rightarrow> 'a km_scheme \<Rightarrow> (int \<times> vspace \<times> 'a km_scheme) outcome" where
  "vspaceinitstack vs start s =
     (let vr = (regions vs ! VR_USTACK)\<lparr>va_base := start, vsize := PGSIZE\<rparr>
      in obind (vregionaddmap vr (start - PGSIZE) PGSIZE True True s) (\<lambda>(r, vr1, s1).
           Ret (if r < 0 then - 1 else 0, reg_upd VR_USTACK vr1 vs, s1)))"

text \<open>
  \<open>vspaceinstall\<close> reads the kernel stack and the page table of the process; \<open>None\<close> is the
  null process.
\<close>

definition vspaceinstall :: "(u64 \<times> vspace) option \<Rightarrow> 'a vm_scheme \<Rightarrow> 'a vm_scheme outcome" where
  "vspaceinstall p s =
     (case p of
        None \<Rightarrow> Fail (Panic ''mrinstall: null proc'')
      | Some (kstk, vs) \<Rightarrow>
          if kstk = 0 then Fail (Panic ''mrinstall: null kstack'')
          else if pgtbl vs = 0 then Fail (Panic ''mrinstall: page table not initialized'')
          else popcli ((pushcli s)\<lparr>ts_rsp0 := kstk + KSTACKSIZE, cr3 := V2P (pgtbl vs)\<rparr>))"

section \<open>Lookups\<close>

definition va2vregion :: "vspace \<Rightarrow> u64 \<Rightarrow> nat option" where
  "va2vregion vs va =
     find_idx (\<lambda>vr. if dir vr = VRDIR_UP then va_base vr \<le> va \<and> va < va_base vr + vsize vr
                    else va_base vr - vsize vr \<le> va \<and> va < va_base vr) (regions vs)"

definition vregioncontains :: "vregion \<Rightarrow> u64 \<Rightarrow> int \<Rightarrow> int" where
  "vregioncontains vr va sz =
     (if sz = 0 \<and> va = VRTOP vr then 0
      else if VRBOT vr \<le> va \<and> va + word_of_int sz \<le> VRTOP vr then 1 else 0)"

definition vspacecontains :: "vspace \<Rightarrow> u64 \<Rightarrow> int \<Rightarrow> int" where
  "vspacecontains vs va sz =
     (case va2vregion vs va of
        None \<Rightarrow> - 1
      | Some i \<Rightarrow> vregioncontains (regions vs ! i) va sz)"

definition vspacemarknotpresent :: "vspace \<Rightarrow> u64 \<Rightarrow> 'a km_scheme \<Rightarrow> (vspace \<times> 'a km_scheme) outcome" where
  "vspacemarknotpresent vs user_va s =
     assertm (user_va mod PGSIZE = 0) ''user_va % PGSIZE == 0''
       (case va2vregion vs user_va of
          None \<Rightarrow> Fail (Panic ''vr'')
        | Some i \<Rightarrow>
            obind (va2vpage_info (regions vs ! i) user_va s) (\<lambda>(r, vr1, s1). case r of
              None \<Rightarrow> Fail (Panic ''vpi'')
            | Some p \<Rightarrow>
                if present (vpi_at vr1 p) then Fail (Panic ''Passed user_va had present vpi.'')
                else obind (walkpml4 (pgtbl vs) user_va False s1) (\<lambda>(pte, s2).
                  Ret (reg_upd i vr1 vs, case pte of None \<Rightarrow> s2 | Some (f, k) \<Rightarrow> wr64 f k 0 s2))))"

section \<open>Freeing\<close>

text \<open>\<open>free_page_desc_list\<close> recurses to the end of the list and frees on the way back.\<close>

primrec free_page_desc_list :: "vpi_page list \<Rightarrow> 'a km_scheme \<Rightarrow> 'a km_scheme outcome" where
  "free_page_desc_list [] s = Ret s"
| "free_page_desc_list (p # ps) s =
     assertm (vp_addr p mod PGSIZE = 0) ''page % PGSIZE == 0''
       (obind (free_page_desc_list ps s) (kfree (vp_addr p)))"

definition vspacefree :: "vspace \<Rightarrow> 'a km_scheme \<Rightarrow> (vspace \<times> 'a km_scheme) outcome" where
  "vspacefree vs s =
     obind (ofold (\<lambda>vr. free_page_desc_list (vpages vr)) (regions vs) s) (\<lambda>s1.
       obind (freevm (pgtbl vs) s1) (\<lambda>s2.
         Ret (vs\<lparr>regions := map (\<lambda>_. zero_region) (regions vs)\<rparr>, s2)))"

section \<open>Copying\<close>

text \<open>
  One page of descriptors for a copy-on-write copy: the target and the changed source.  A used
  entry becomes read-only on both sides and remembers whether it was writable.
\<close>

definition cow_dst :: "vpage_info \<Rightarrow> vpage_info" where
  "cow_dst v = zero_vpi\<lparr>used := used v, present := present v, writable := False, ppn := ppn v,
                       cowpageflag := writable v \<or> cowpageflag v\<rparr>"

definition cow_src :: "vpage_info \<Rightarrow> vpage_info" where
  "cow_src v = v\<lparr>writable := False, cowpageflag := writable v \<or> cowpageflag v\<rparr>"

definition cow_infos ::
  "vpage_info list \<Rightarrow> 'a km_scheme \<Rightarrow> (vpage_info list \<times> vpage_info list \<times> 'a km_scheme) outcome" where
  "cow_infos vs s =
     obind (ofold (\<lambda>v s. if used v then increment_refcount (ppn_kva (ppn v)) s else Ret s) vs s) (\<lambda>s1.
       Ret (map (\<lambda>v. if used v then cow_dst v else zero_vpi) vs, map (\<lambda>v. if used v then cow_src v else v) vs, s1))"

primrec shallow_copy_vpi_page ::
  "vpi_page list \<Rightarrow> 'a km_scheme \<Rightarrow> (int \<times> vpi_page list \<times> vpi_page list \<times> 'a km_scheme) outcome" where
  "shallow_copy_vpi_page [] s = Ret (0, [], [], s)"
| "shallow_copy_vpi_page (pg # src) s =
     obind (kalloc s) (\<lambda>(p, s1).
       if p = 0 then Ret (- 1, [], pg # src, s1)
       else obind (cow_infos (infos pg) s1) (\<lambda>(d, sr, s2).
         obind (shallow_copy_vpi_page src s2) (\<lambda>(r, dst, src1, s3).
           Ret (r, \<lparr>vp_addr = p, infos = d\<rparr> # dst, pg\<lparr>infos := sr\<rparr> # src1, s3))))"

text \<open>
  The full copy of one page of descriptors and the pages behind it.  When memory runs out at an
  entry, that entry is left with its flags set and no page, and the rest is untouched.
\<close>

primrec copy_infos ::
  "vpage_info list \<Rightarrow> 'a km_scheme \<Rightarrow> (bool \<times> vpage_info list \<times> 'a km_scheme) outcome" where
  "copy_infos [] s = Ret (True, [], s)"
| "copy_infos (v # vs) s =
     (if used v then
        obind (kalloc s) (\<lambda>(m, s1).
          let d = zero_vpi\<lparr>used := used v, present := present v, writable := writable v\<rparr>
          in if m = 0 then Ret (False, d # map (\<lambda>_. zero_vpi) vs, s1)
             else obind (copy_infos vs (s1\<lparr>mem := (mem s1)(kfr m := mem s1 (kfr (ppn_kva (ppn v))))\<rparr>)) (\<lambda>(ok, ds, s2).
               Ret (ok, d\<lparr>ppn := PGNUM (V2P m)\<rparr> # ds, s2)))
      else obind (copy_infos vs s) (\<lambda>(ok, ds, s1). Ret (ok, zero_vpi # ds, s1)))"

primrec copy_vpi_page ::
  "vpi_page list \<Rightarrow> 'a km_scheme \<Rightarrow> (int \<times> vpi_page list \<times> 'a km_scheme) outcome" where
  "copy_vpi_page [] s = Ret (0, [], s)"
| "copy_vpi_page (pg # src) s =
     obind (kalloc s) (\<lambda>(p, s1).
       if p = 0 then Ret (- 1, [], s1)
       else obind (copy_infos (infos pg) s1) (\<lambda>(ok, d, s2).
         if \<not> ok then Ret (- 1, [\<lparr>vp_addr = p, infos = d\<rparr>], s2)
         else obind (copy_vpi_page src s2) (\<lambda>(r, dst, s3). Ret (r, \<lparr>vp_addr = p, infos = d\<rparr> # dst, s3))))"

primrec copy_regions ::
  "vregion list \<Rightarrow> 'a km_scheme \<Rightarrow> (int \<times> vregion list \<times> 'a km_scheme) outcome" where
  "copy_regions [] s = Ret (0, [], s)"
| "copy_regions (vr # vrs) s =
     obind (copy_vpi_page (vpages vr) s) (\<lambda>(r, pgs, s1).
       if r < 0 then Ret (- 1, vr\<lparr>vpages := pgs\<rparr> # vrs, s1)
       else obind (copy_regions vrs s1) (\<lambda>(r, vrs1, s2). Ret (r, vr\<lparr>vpages := pgs\<rparr> # vrs1, s2)))"

definition vspacecopy :: "vspace \<Rightarrow> vspace \<Rightarrow> 'a km_scheme \<Rightarrow> (int \<times> vspace \<times> 'a km_scheme) outcome" where
  "vspacecopy dst src s =
     obind (copy_regions (regions src) s) (\<lambda>(r, rs, s1).
       if r < 0 then Ret (- 1, dst\<lparr>regions := rs\<rparr>, s1)
       else obind (vspaceupdate (dst\<lparr>regions := rs\<rparr>) s1) (\<lambda>(dst1, s2). Ret (0, dst1, s2)))"

primrec cow_regions ::
  "vregion list \<Rightarrow> 'a km_scheme \<Rightarrow> (int \<times> vregion list \<times> vregion list \<times> 'a km_scheme) outcome" where
  "cow_regions [] s = Ret (0, [], [], s)"
| "cow_regions (vr # vrs) s =
     obind (shallow_copy_vpi_page (vpages vr) s) (\<lambda>(r, d, sr, s1).
       if r < 0 then Ret (- 1, vr\<lparr>vpages := d\<rparr> # vrs, vr\<lparr>vpages := sr\<rparr> # vrs, s1)
       else obind (cow_regions vrs s1) (\<lambda>(r, ds, srs, s2).
         Ret (r, vr\<lparr>vpages := d\<rparr> # ds, vr\<lparr>vpages := sr\<rparr> # srs, s2)))"

text \<open>
  \<open>vspacecowcopy\<close>; \<open>kstk\<close> is the kernel stack of the running process, whose address space
  is the source in the only call (\<open>fork\<close>).
\<close>

definition vspacecowcopy ::
  "vspace \<Rightarrow> vspace \<Rightarrow> u64 \<Rightarrow> 'a vm_scheme \<Rightarrow> (int \<times> vspace \<times> vspace \<times> 'a vm_scheme) outcome" where
  "vspacecowcopy dst src kstk s =
     obind (cow_regions (regions src) s) (\<lambda>(r, ds, srs, s1).
       let dst1 = dst\<lparr>regions := ds\<rparr>; src1 = src\<lparr>regions := srs\<rparr>
       in if r < 0 then Ret (- 1, dst1, src1, s1)
          else obind (vspaceupdate dst1 s1) (\<lambda>(dst2, s2).
            obind (vspaceupdate src1 s2) (\<lambda>(src2, s3).
              obind (vspaceinstall (Some (kstk, src2)) s3) (\<lambda>s4. Ret (0, dst2, src2, s4)))))"

section \<open>Writing through an address space\<close>

text \<open>
  The loop of \<open>vspacewritetova\<close>.  A round that starts on a page boundary has
  \<open>wsz = 0\<close> and repeats forever; the fuel is the number of bytes, which every other round
  lowers.
\<close>

primrec writetova_loop ::
  "nat \<Rightarrow> u64 \<Rightarrow> u64 \<Rightarrow> u8 list \<Rightarrow> vspace \<Rightarrow> 'a km_scheme \<Rightarrow> (int \<times> vspace \<times> 'a km_scheme) outcome" where
  "writetova_loop 0 va stop data vs s = Fail Spin"
| "writetova_loop (Suc n) va stop data vs s =
     (if \<not> va < stop then Ret (0, vs, s)
      else let wsz = min (unat (PGROUNDUP va - va)) (length data)
        in case va2vregion vs va of
             None \<Rightarrow> Ret (- 1, vs, s)
           | Some i \<Rightarrow>
               obind (va2vpi_nonnull (regions vs ! i) va s) (\<lambda>(p, vr1, s1).
                 assertm (used (vpi_at vr1 p)) ''vpi->used''
                   (if \<not> writable (vpi_at vr1 p) then Ret (- 1, reg_upd i vr1 vs, s1)
                    else writetova_loop n (va + of_nat wsz) stop (drop wsz data) (reg_upd i vr1 vs)
                      (put_bytes (kfr (ppn_kva (ppn (vpi_at vr1 p)))) (unat (va mod PGSIZE)) (take wsz data) s1))))"

definition vspacewritetova ::
  "vspace \<Rightarrow> u64 \<Rightarrow> u8 list \<Rightarrow> 'a km_scheme \<Rightarrow> (int \<times> vspace \<times> 'a km_scheme) outcome" where
  "vspacewritetova vs va data s =
     assertm (data \<noteq> []) ''sz less than or equal to 0''
       (assertm (va + of_nat (length data) < KERNBASE) ''went over kernel vm base''
         (writetova_loop (Suc (length data)) va (va + of_nat (length data)) data vs s))"

end
