(* ===== verification/Sched.thy ===== *)
theory Sched
  imports Vspace
begin

text \<open>
  The process table and the scheduler of \<open>kernel/proc.c\<close>: slots and their states, allocation
  of a slot, \<open>sleep\<close>, \<open>wakeup\<close>, \<open>yield\<close>, \<open>kill\<close> and the scheduling loop.

  A process is named by its index in the table.  The trap frame and the saved context that
  \<open>p->tf\<close> and \<open>p->context\<close> point to on the kernel stack are fields of the process record,
  next to the addresses themselves.  A call of \<open>swtch\<close> ends the part of the kernel thread
  that runs now; \<open>sleep\<close> and \<open>yield\<close> are therefore modelled by their part up to the
  switch (\<open>sleep_switch\<close>, \<open>yield_switch\<close>), which includes the checks of \<open>sched\<close>,
  and their part after it.  What a process does between being switched to and switching back is
  a parameter of the scheduling loop.

  The lemmas show the invariant of the process table, what \<open>allocproc\<close> and \<open>kill\<close> do, that a round of the scheduler
  comes to its end, and that no wake-up is lost between \<open>sleep\<close> on one processor and \<open>wakeup\<close> on another.
\<close>

section \<open>State\<close>

datatype procstate = UNUSED | EMBRYO | SLEEPING | RUNNABLE | RUNNING | ZOMBIE

text \<open>
  Sleep channels: the addresses the code sleeps on.  A process waits for its children on the
  address whose value is its own pid; pid 0 is the null channel.
\<close>

datatype chan =
    NoChan | PidChan int | SleepLkChan sleep_id | TicksChan | InputChan | BufChan nat
  | PipeWriter u64 | PipeReader u64

definition pid_chan :: "int \<Rightarrow> chan" where
  "pid_chan p = (if p = 0 then NoChan else PidChan p)"

record trap_frame =
  rax :: u64
  rbx :: u64
  rcx :: u64
  rdx :: u64
  rbp :: u64
  rsi :: u64
  rdi :: u64
  r8 :: u64
  r9 :: u64
  r10 :: u64
  r11 :: u64
  r12 :: u64
  r13 :: u64
  r14 :: u64
  r15 :: u64
  trapno :: u64
  err :: u64
  rip :: u64
  cs :: u64
  rflags :: u64
  rsp :: u64
  ss :: u64

definition zero_tf :: trap_frame where
  "zero_tf = \<lparr>rax = 0, rbx = 0, rcx = 0, rdx = 0, rbp = 0, rsi = 0, rdi = 0, r8 = 0, r9 = 0, r10 = 0,
     r11 = 0, r12 = 0, r13 = 0, r14 = 0, r15 = 0, trapno = 0, err = 0, rip = 0, cs = 0, rflags = 0,
     rsp = 0, ss = 0\<rparr>"

definition sizeof_trap_frame :: u64 where "sizeof_trap_frame = 22 * 8"

text \<open>Where a new context starts; the other registers of a context are cleared.\<close>

datatype entry_point = Forkret | Resumed

record kcontext =
  c_rip :: entry_point

definition sizeof_context :: u64 where "sizeof_context = 8 * 8"

record proc =
  vspace :: Vspace.vspace
  kstack :: u64
  state :: procstate
  pid :: int
  tf_ptr :: u64
  tf :: trap_frame
  context_ptr :: u64
  pcontext :: kcontext
  chan :: chan
  killed :: bool
  pname :: string
  fds :: "nat option list"
  parent :: int

record ps = vm +
  ptable :: "proc list"
  initproc :: "nat option"
  nextpid :: int
  curproc :: "nat option"
  ticks :: u32
  num_page_faults :: int

definition proc_upd :: "nat \<Rightarrow> (proc \<Rightarrow> proc) \<Rightarrow> 'a ps_scheme \<Rightarrow> 'a ps_scheme" where
  "proc_upd i f s = s\<lparr>ptable := (ptable s)[i := f (ptable s ! i)]\<rparr>"

text \<open>\<open>myproc()\<close> is \<open>mycpu()->proc\<close>; most callers use it without a null check.\<close>

definition myproc :: "'a ps_scheme \<Rightarrow> nat outcome" where
  "myproc s = (case curproc s of None \<Rightarrow> Fail (BadAccess ''myproc() is null'') | Some i \<Rightarrow> Ret i)"

section \<open>Operations\<close>

definition pinit :: "'a ps_scheme \<Rightarrow> 'a ps_scheme" where
  "pinit s = initlock PtableLock ''ptable'' s"

text \<open>\<open>n++\<close> on an \<open>int\<close>; the kernel is compiled with \<open>-fwrapv\<close>.\<close>

definition int_inc :: "int \<Rightarrow> int" where
  "int_inc n = sint (word_of_int (n + 1) :: u32)"

text \<open>The part of \<open>allocproc\<close> under \<open>ptable.lock\<close>: claim the first unused slot.\<close>

definition allocproc_section :: "'a ps_scheme \<Rightarrow> (nat option \<times> 'a ps_scheme) outcome" where
  "allocproc_section s =
     (case find_idx (\<lambda>p. state p = UNUSED) (ptable s) of
        None \<Rightarrow> Ret (None, s)
      | Some i \<Rightarrow>
          Ret (Some i, (proc_upd i (\<lambda>p. p\<lparr>state := EMBRYO, pid := nextpid s, killed := False\<rparr>) s)
                         \<lparr>nextpid := int_inc (nextpid s)\<rparr>))"

definition allocproc :: "'a ps_scheme \<Rightarrow> (nat option \<times> 'a ps_scheme) outcome" where
  "allocproc s =
     obind (with_lock PtableLock allocproc_section s) (\<lambda>(r, s1). case r of
       None \<Rightarrow> Ret (None, s1)
     | Some i \<Rightarrow>
         obind (kalloc s1) (\<lambda>(k, s2).
           if k = 0 then Ret (None, proc_upd i (\<lambda>p. p\<lparr>kstack := 0, state := UNUSED\<rparr>) s2)
           else
             let sp = k + KSTACKSIZE - sizeof_trap_frame;
                 cp = sp - 8 - sizeof_context
             in Ret (Some i, proc_upd i (\<lambda>p. p\<lparr>kstack := k, tf_ptr := sp, context_ptr := cp,
                                              pcontext := \<lparr>c_rip = Forkret\<rparr>\<rparr>) s2)))"

text \<open>The checks of \<open>sched\<close> before it switches to the scheduler.\<close>

definition sched :: "'a ps_scheme \<Rightarrow> 'a ps_scheme outcome" where
  "sched s =
     (if \<not> holding PtableLock s then Fail (Panic ''sched ptable.lock'')
      else if ncli s \<noteq> 1 then Fail (Panic ''sched locks'')
      else obind (myproc s) (\<lambda>i.
        if state (ptable s ! i) = RUNNING then Fail (Panic ''sched running'')
        else if eflags_IF s then Fail (Panic ''sched interruptible'')
        else Ret (proc_upd i (\<lambda>p. p\<lparr>pcontext := \<lparr>c_rip = Resumed\<rparr>\<rparr>) s)))"

text \<open>The statement after the switch back: the interrupt flag of this kernel thread.\<close>

definition sched_resume :: "bool \<Rightarrow> 'a ps_scheme \<Rightarrow> 'a ps_scheme" where
  "sched_resume ie s = s\<lparr>intena := ie\<rparr>"

definition yield_switch :: "'a ps_scheme \<Rightarrow> 'a ps_scheme outcome" where
  "yield_switch s =
     obind (acquire PtableLock s) (\<lambda>s1.
       obind (myproc s1) (\<lambda>i. sched (proc_upd i (\<lambda>p. p\<lparr>state := RUNNABLE\<rparr>) s1)))"

definition yield_resume :: "bool \<Rightarrow> 'a ps_scheme \<Rightarrow> 'a ps_scheme outcome" where
  "yield_resume ie s = release PtableLock (sched_resume ie s)"

text \<open>The statements of \<open>sleep\<close> up to the switch, one by one, for process \<open>i\<close>.\<close>

definition sleep_steps :: "chan \<Rightarrow> lock_id \<Rightarrow> nat \<Rightarrow> ('a ps_scheme \<Rightarrow> 'a ps_scheme outcome) list" where
  "sleep_steps c lk i =
     (if lk \<noteq> PtableLock then [acquire PtableLock, release lk] else []) @
     [\<lambda>s. Ret (proc_upd i (\<lambda>p. p\<lparr>chan := c\<rparr>) s), \<lambda>s. Ret (proc_upd i (\<lambda>p. p\<lparr>state := SLEEPING\<rparr>) s), sched]"

definition sleep_switch :: "chan \<Rightarrow> lock_id \<Rightarrow> 'a ps_scheme \<Rightarrow> 'a ps_scheme outcome" where
  "sleep_switch c lk s =
     (case curproc s of
        None \<Rightarrow> Fail (Panic ''sleep'')
      | Some i \<Rightarrow> ofold id (sleep_steps c lk i) s)"

definition sleep_resume :: "bool \<Rightarrow> lock_id \<Rightarrow> 'a ps_scheme \<Rightarrow> 'a ps_scheme outcome" where
  "sleep_resume ie lk s =
     obind (myproc s) (\<lambda>i.
       let s1 = proc_upd i (\<lambda>p. p\<lparr>chan := NoChan\<rparr>) (sched_resume ie s)
       in if lk \<noteq> PtableLock then obind (release PtableLock s1) (acquire lk) else Ret s1)"

text \<open>
  For a caller that runs alone, a call of \<open>sleep\<close> that passes its checks does not come back
  until another thread has run.
\<close>

definition sleep :: "chan \<Rightarrow> lock_id \<Rightarrow> 'a ps_scheme \<Rightarrow> 'a ps_scheme outcome" where
  "sleep c lk s = obind (sleep_switch c lk s) (\<lambda>_. Fail Blocked)"

definition wake_proc :: "chan \<Rightarrow> proc \<Rightarrow> proc" where
  "wake_proc c p = (if state p = SLEEPING \<and> chan p = c then p\<lparr>state := RUNNABLE\<rparr> else p)"

definition wakeup1 :: "chan \<Rightarrow> 'a ps_scheme \<Rightarrow> 'a ps_scheme" where
  "wakeup1 c s = s\<lparr>ptable := map (wake_proc c) (ptable s)\<rparr>"

definition wakeup :: "chan \<Rightarrow> 'a ps_scheme \<Rightarrow> 'a ps_scheme outcome" where
  "wakeup c s = omap snd (with_lock PtableLock (\<lambda>s. Ret ((), wakeup1 c s)) s)"

definition kill_section :: "int \<Rightarrow> 'a ps_scheme \<Rightarrow> (int \<times> 'a ps_scheme) outcome" where
  "kill_section pd s =
     (case find_idx (\<lambda>p. pid p = pd) (ptable s) of
        None \<Rightarrow> Ret (- 1, s)
      | Some i \<Rightarrow>
          Ret (0, proc_upd i (\<lambda>p. p\<lparr>killed := True,
                   state := (if state p = SLEEPING then RUNNABLE else state p)\<rparr>) s))"

definition kill :: "int \<Rightarrow> 'a ps_scheme \<Rightarrow> (int \<times> 'a ps_scheme) outcome" where
  "kill pd s = with_lock PtableLock (kill_section pd) s"

definition findproc :: "int \<Rightarrow> 'a ps_scheme \<Rightarrow> nat option" where
  "findproc pd s = find_idx (\<lambda>p. pid p = pd) (ptable s)"

definition procinstall :: "nat \<Rightarrow> 'a ps_scheme \<Rightarrow> 'a ps_scheme outcome" where
  "procinstall i s = vspaceinstall (Some (kstack (ptable s ! i), vspace (ptable s ! i))) s"

text \<open>
  One turn of the scheduling loop at slot \<open>i\<close>; \<open>run\<close> is what happens from the switch to the
  process until the switch back.
\<close>

definition sched_turn ::
  "(nat \<Rightarrow> 'a ps_scheme \<Rightarrow> 'a ps_scheme outcome) \<Rightarrow> nat \<Rightarrow> 'a ps_scheme \<Rightarrow> 'a ps_scheme outcome" where
  "sched_turn run i s =
     (if state (ptable s ! i) \<noteq> RUNNABLE then Ret s
      else obind (procinstall i (s\<lparr>curproc := Some i\<rparr>)) (\<lambda>s1.
        obind (run i (proc_upd i (\<lambda>p. p\<lparr>state := RUNNING\<rparr>) s1)) (\<lambda>s2.
          Ret ((vspaceinstallkern s2)\<lparr>curproc := None\<rparr>))))"

text \<open>One round of the endless loop of \<open>scheduler\<close>.\<close>

definition scheduler_round ::
  "(nat \<Rightarrow> 'a ps_scheme \<Rightarrow> 'a ps_scheme outcome) \<Rightarrow> 'a ps_scheme \<Rightarrow> 'a ps_scheme outcome" where
  "scheduler_round run s =
     obind (acquire PtableLock (s\<lparr>eflags_IF := True\<rparr>)) (\<lambda>s1.
       obind (ofold (sched_turn run) [0..<NPROC] s1) (release PtableLock))"


section \<open>Critical sections of the process table\<close>

lemma ps_put_hw [simp]:
  "ptable (put_hw h s) = ptable s" "curproc (put_hw h s) = curproc s" "nextpid (put_hw h s) = nextpid s"
  "initproc (put_hw h s) = initproc s" "ticks (put_hw h s) = ticks s" "cr3 (put_hw h s) = cr3 s"
  by (simp_all add: put_hw_def)

lemma ps_settle [simp]:
  "ptable (settle s) = ptable s" "curproc (settle s) = curproc s" "nextpid (settle s) = nextpid s"
  by (simp_all add: settle_def)

lemma ps_enter [simp]:
  "ptable (enter l s) = ptable s" "curproc (enter l s) = curproc s" "nextpid (enter l s) = nextpid s"
  by (simp_all add: enter_def)

lemma ps_upd_put_hw [simp]:
  "proc_upd i f (put_hw h s) = put_hw h (proc_upd i f s)"
  "wakeup1 c (put_hw h s) = put_hw h (wakeup1 c s)"
  "(put_hw h s)\<lparr>nextpid := n\<rparr> = put_hw h (s\<lparr>nextpid := n\<rparr>)"
  by (simp_all add: proc_upd_def wakeup1_def put_hw_def)

lemma same_hw_upd [simp]:
  "same_hw (proc_upd i f s) t = same_hw s t" "same_hw (wakeup1 c s) t = same_hw s t"
  by (simp_all add: same_hw_def proc_upd_def wakeup1_def)

lemma settle_inside: "ncli s \<noteq> 0 \<Longrightarrow> settle s = s"
  by (simp add: settle_def)

lemma ptable_proc_upd [simp]: "ptable (proc_upd i f s) = (ptable s)[i := f (ptable s ! i)]"
  by (simp add: proc_upd_def)

lemma proc_upd_twice: "proc_upd i g (proc_upd i f s) = proc_upd i (\<lambda>p. g (f p)) s"
  by (cases "i < length (ptable s)") (simp_all add: proc_upd_def list_update_beyond)

lemma sleep_switch_unfold:
  "sleep_switch c lk s =
     (case curproc s of
        None \<Rightarrow> Fail (Panic ''sleep'')
      | Some i \<Rightarrow>
          obind (if lk \<noteq> PtableLock then obind (acquire PtableLock s) (release lk) else Ret s) (\<lambda>s1.
            sched (proc_upd i (\<lambda>p. p\<lparr>chan := c, state := SLEEPING\<rparr>) s1)))"
  by (simp add: sleep_switch_def sleep_steps_def proc_upd_twice obind_assoc cong: obind_cong split: option.split)

lemma int_inc_small: "0 \<le> n \<Longrightarrow> n < 2 ^ 31 - 1 \<Longrightarrow> int_inc n = n + 1"
proof -
  assume "0 \<le> n" "n < 2 ^ 31 - 1"
  then have "signed_take_bit 31 (n + 1) = n + 1" by (intro signed_take_bit_int_eq_self) simp_all
  then show ?thesis unfolding int_inc_def by (subst sint_sbintrunc') simp
qed

lemma hw_param_allocproc [simp]: "hw_param allocproc_section"
  by (auto simp: hw_param_def allocproc_section_def split: option.splits)

lemma hw_param_kill [simp]: "hw_param (kill_section pd)"
  by (auto simp: hw_param_def kill_section_def split: option.splits)

lemma wakeup_eq:
  "cli_ok s \<Longrightarrow> unheld PtableLock s \<Longrightarrow> wakeup c s = Ret (put_hw (settle s) (wakeup1 c s))"
  by (simp add: wakeup_def with_lock_param hw_param_def)


section \<open>The process table invariant\<close>

text \<open>
  The table has \<open>NPROC\<close> slots; the running process, if there is one, is exactly the slot in
  state \<open>RUNNING\<close>; pids are handed out in increasing order and the pids of the slots in use
  are distinct.
\<close>

definition ptable_inv :: "'a ps_scheme \<Rightarrow> bool" where
  "ptable_inv s \<longleftrightarrow>
     length (ptable s) = NPROC \<and>
     (\<forall>i<NPROC. state (ptable s ! i) = RUNNING \<longleftrightarrow> curproc s = Some i) \<and>
     (\<forall>i. curproc s = Some i \<longrightarrow> i < NPROC) \<and>
     (\<forall>i<NPROC. pid (ptable s ! i) < nextpid s) \<and>
     (\<forall>i<NPROC. \<forall>j<NPROC. state (ptable s ! i) \<noteq> UNUSED \<longrightarrow> state (ptable s ! j) \<noteq> UNUSED \<longrightarrow>
        pid (ptable s ! i) = pid (ptable s ! j) \<longrightarrow> i = j)"

lemma ptable_invI:
  assumes "length (ptable s) = NPROC" "\<And>i. i < NPROC \<Longrightarrow> (state (ptable s ! i) = RUNNING) = (curproc s = Some i)"
    "\<And>i. curproc s = Some i \<Longrightarrow> i < NPROC" "\<And>i. i < NPROC \<Longrightarrow> pid (ptable s ! i) < nextpid s"
    "\<And>i j. i < NPROC \<Longrightarrow> j < NPROC \<Longrightarrow> state (ptable s ! i) \<noteq> UNUSED \<Longrightarrow> state (ptable s ! j) \<noteq> UNUSED \<Longrightarrow>
        pid (ptable s ! i) = pid (ptable s ! j) \<Longrightarrow> i = j"
  shows "ptable_inv s"
  using assms unfolding ptable_inv_def by blast

lemma ptable_invD:
  assumes "ptable_inv s"
  shows "length (ptable s) = NPROC" "i < NPROC \<Longrightarrow> (state (ptable s ! i) = RUNNING) = (curproc s = Some i)"
    "curproc s = Some i \<Longrightarrow> i < NPROC" "i < NPROC \<Longrightarrow> pid (ptable s ! i) < nextpid s"
    "i < NPROC \<Longrightarrow> j < NPROC \<Longrightarrow> state (ptable s ! i) \<noteq> UNUSED \<Longrightarrow> state (ptable s ! j) \<noteq> UNUSED \<Longrightarrow>
        pid (ptable s ! i) = pid (ptable s ! j) \<Longrightarrow> i = j"
  using assms unfolding ptable_inv_def by blast+

lemma ptable_inv_put_hw [simp]: "ptable_inv (put_hw h s) = ptable_inv s"
  by (simp add: ptable_inv_def)

text \<open>Only the table, the running slot and the pid counter matter.\<close>

lemma ptable_inv_cong:
  "ptable s = ptable t \<Longrightarrow> curproc s = curproc t \<Longrightarrow> nextpid s = nextpid t \<Longrightarrow> ptable_inv s = ptable_inv t"
  by (simp add: ptable_inv_def)

lemma ptable_inv_ids:
  assumes "ptable_inv s" "length (ptable t) = NPROC" "curproc t = curproc s" "nextpid t = nextpid s"
    "\<And>j. j < NPROC \<Longrightarrow> pid (ptable t ! j) = pid (ptable s ! j)"
    "\<And>j. j < NPROC \<Longrightarrow> (state (ptable t ! j) = RUNNING) = (state (ptable s ! j) = RUNNING)"
    "\<And>j. j < NPROC \<Longrightarrow> state (ptable s ! j) = UNUSED \<Longrightarrow> state (ptable t ! j) = UNUSED"
  shows "ptable_inv t"
proof (rule ptable_invI)
  note D = ptable_invD [OF assms(1)]
  show "length (ptable t) = NPROC" by (rule assms(2))
  show "(state (ptable t ! i) = RUNNING) = (curproc t = Some i)" if "i < NPROC" for i
    using D(2) [OF that] assms(6) [OF that] assms(3) by simp
  show "i < NPROC" if "curproc t = Some i" for i using D(3) that assms(3) by simp
  show "pid (ptable t ! i) < nextpid t" if "i < NPROC" for i using D(4) [OF that] assms(5) [OF that] assms(4) by simp
  fix i j
  assume "i < NPROC" "j < NPROC" "state (ptable t ! i) \<noteq> UNUSED" "state (ptable t ! j) \<noteq> UNUSED"
    "pid (ptable t ! i) = pid (ptable t ! j)"
  then show "i = j" using D(5) [of i j] assms(5,7) by metis
qed

lemma ptable_inv_wakeup1:
  assumes "ptable_inv s"
  shows "ptable_inv (wakeup1 c s)"
proof (rule ptable_inv_ids [OF assms])
  have l: "length (ptable s) = NPROC" using assms by (rule ptable_invD)
  fix j assume "j < NPROC"
  then have e: "ptable (wakeup1 c s) ! j = wake_proc c (ptable s ! j)" using l by (simp add: wakeup1_def)
  show "pid (ptable (wakeup1 c s) ! j) = pid (ptable s ! j)"
    "(state (ptable (wakeup1 c s) ! j) = RUNNING) = (state (ptable s ! j) = RUNNING)"
    "state (ptable s ! j) = UNUSED \<Longrightarrow> state (ptable (wakeup1 c s) ! j) = UNUSED"
    by (simp_all add: e wake_proc_def)
qed (use ptable_invD(1) [OF assms] in \<open>simp_all add: wakeup1_def\<close>)

lemma ptable_inv_upd:
  assumes "ptable_inv s" "pid (f (ptable s ! i)) = pid (ptable s ! i)"
    "(state (f (ptable s ! i)) = RUNNING) = (state (ptable s ! i) = RUNNING)"
    "state (ptable s ! i) = UNUSED \<Longrightarrow> state (f (ptable s ! i)) = UNUSED"
  shows "ptable_inv (proc_upd i f s)"
proof (rule ptable_inv_ids [OF assms(1)])
  have l: "length (ptable s) = NPROC" using assms(1) by (rule ptable_invD)
  fix j assume "j < NPROC"
  then have e: "ptable (proc_upd i f s) ! j = (if j = i then f (ptable s ! i) else ptable s ! j)"
    using l by (simp add: nth_list_update)
  show "pid (ptable (proc_upd i f s) ! j) = pid (ptable s ! j)"
    "(state (ptable (proc_upd i f s) ! j) = RUNNING) = (state (ptable s ! j) = RUNNING)"
    "state (ptable s ! j) = UNUSED \<Longrightarrow> state (ptable (proc_upd i f s) ! j) = UNUSED"
    unfolding e using assms(2-4) by (cases "j = i"; simp)+
qed (use ptable_invD(1) [OF assms(1)] in \<open>simp_all add: proc_upd_def\<close>)

lemma ptable_inv_kill:
  assumes "ptable_inv s" "kill_section pd s = Ret (r, s')"
  shows "ptable_inv s'"
proof (cases "find_idx (\<lambda>p. pid p = pd) (ptable s)")
  case (Some i)
  then have "s' = proc_upd i (\<lambda>p. p\<lparr>killed := True,
                   state := (if state p = SLEEPING then RUNNABLE else state p)\<rparr>) s"
    using assms(2) by (simp add: kill_section_def)
  then show ?thesis using assms(1) by (simp only:) (rule ptable_inv_upd, simp_all)
qed (use assms in \<open>simp add: kill_section_def\<close>)

text \<open>The counter of the pids has not reached the largest \<open>int\<close>.\<close>

definition pids_left :: "'a ps_scheme \<Rightarrow> bool" where
  "pids_left s \<longleftrightarrow> 0 < nextpid s \<and> nextpid s < 2 ^ 31 - 1"

lemma ptable_inv_alloc:
  assumes inv: "ptable_inv s" and i: "find_idx (\<lambda>p. state p = UNUSED) (ptable s) = Some i"
  defines "t \<equiv> (proc_upd i (\<lambda>p. p\<lparr>state := EMBRYO, pid := nextpid s, killed := False\<rparr>) s)\<lparr>nextpid := nextpid s + 1\<rparr>"
  shows "ptable_inv t" "i < NPROC" "curproc s \<noteq> Some i"
proof -
  have l: "length (ptable s) = NPROC" using inv by (rule ptable_invD)
  show li: "i < NPROC" using find_idx_SomeD [OF i] l by simp
  have u: "state (ptable s ! i) = UNUSED" using find_idx_SomeD [OF i] by simp
  show ne: "curproc s \<noteq> Some i" using ptable_invD(2) [OF inv li] u by auto
  have lt: "pid (ptable s ! j) < nextpid s" if "j < NPROC" for j using inv that by (rule ptable_invD)
  have e: "ptable t ! j = (if j = i then (ptable s ! i)\<lparr>state := EMBRYO, pid := nextpid s, killed := False\<rparr> else ptable s ! j)"
    if "j < NPROC" for j using that l by (simp add: t_def nth_list_update)
  have "j = k" if "j < NPROC" "k < NPROC" "state (ptable t ! j) \<noteq> UNUSED" "state (ptable t ! k) \<noteq> UNUSED"
    "pid (ptable t ! j) = pid (ptable t ! k)" for j k
    using that lt [OF that(1)] lt [OF that(2)] ptable_invD(5) [OF inv that(1,2)] e [OF that(1)] e [OF that(2)]
    by (cases "j = i"; cases "k = i") simp_all
  moreover have "pid (ptable t ! j) < nextpid t" if "j < NPROC" for j
    using e [OF that] lt [OF that] by (simp add: t_def)
  moreover have "(state (ptable t ! j) = RUNNING) = (curproc t = Some j)" if "j < NPROC" for j
    using e [OF that] ptable_invD(2) [OF inv that] ne by (simp add: t_def proc_upd_def)
  moreover have "length (ptable t) = NPROC" "curproc t = curproc s" using l by (simp_all add: t_def proc_upd_def)
  ultimately show "ptable_inv t" using ptable_invD(3) [OF inv] by (intro ptable_invI) simp_all
qed

section \<open>Allocating a process\<close>

lemma km_proc_upd [simp]:
  "kmem_inv (proc_upd i f s) = kmem_inv s" "rc (proc_upd i f s) = rc s" "free_count (proc_upd i f s) = free_count s"
  "spin_free l (proc_upd i f s) = spin_free l s"
  by (rule kmem_inv_cong rc_cong free_count_cong spin_free_cong; simp add: proc_upd_def)+

lemma km_nextpid [simp]:
  "kmem_inv (s\<lparr>nextpid := n\<rparr>) = kmem_inv s" "rc (s\<lparr>nextpid := n\<rparr>) = rc s" "free_count (s\<lparr>nextpid := n\<rparr>) = free_count s"
  "spin_free l (s\<lparr>nextpid := n\<rparr>) = spin_free l s"
  by (rule kmem_inv_cong rc_cong free_count_cong spin_free_cong; simp)+

lemma spin_free_settle [simp]: "spin_free l (put_hw (settle h) s) = spin_free l h"
  by (simp add: spin_free_def)

lemma free_count_put_hw [simp]: "free_count (put_hw h s) = free_count s"
  by (rule free_count_cong) simp

lemma kalloc_ps:
  assumes "kmem_ready s" "kalloc s = Ret (v, s')"
  shows "ptable s' = ptable s" "curproc s' = curproc s" "nextpid s' = nextpid s" "spin_free l s' = spin_free l s"
proof -
  have "ptable s' = ptable s \<and> curproc s' = curproc s \<and> nextpid s' = nextpid s \<and> spin_free l s' = spin_free l s"
    by (cases rule: kalloc_cases [OF assms(1)]) (use assms(2) in \<open>auto simp: taken_def\<close>)
  then show "ptable s' = ptable s" "curproc s' = curproc s" "nextpid s' = nextpid s" "spin_free l s' = spin_free l s"
    by simp_all
qed

lemma kalloc_some_free:
  assumes "kmem_ready s" "kalloc s = Ret (v, s')" "v \<noteq> 0"
  shows "0 < free_count s"
proof (cases rule: kalloc_cases [OF assms(1)])
  case (2 i)
  then have "i < length (core_map s)" using assms(1) by (simp add: least_free_def kmem_ready_def kmem_inv_def)
  then show ?thesis using 2 by (auto simp: free_count_def filter_empty_conv least_free_def intro!: bexI [OF _ nth_mem])
qed (use assms in simp)

lemma ptable_inv_upd_unused:
  assumes "ptable_inv s" "curproc s \<noteq> Some i" "state (f (ptable s ! i)) = UNUSED" "pid (f (ptable s ! i)) = pid (ptable s ! i)"
  shows "ptable_inv (proc_upd i f s)"
proof (cases "i < NPROC")
  case True
  then have "state (ptable s ! i) \<noteq> RUNNING" using assms(2) ptable_invD(2) [OF assms(1)] by simp
  then show ?thesis using assms by (intro ptable_inv_upd) simp_all
next
  case False
  then have "(ptable s)[i := f (ptable s ! i)] = ptable s"
    using ptable_invD(1) [OF assms(1)] by (intro list_update_beyond) simp
  then have "proc_upd i f s = s" by (simp add: proc_upd_def)
  then show ?thesis using assms(1) by simp
qed


text \<open>The table has a slot to give away.\<close>

definition unused_slot :: "'a ps_scheme \<Rightarrow> bool" where
  "unused_slot s \<longleftrightarrow> (\<exists>p\<in>set (ptable s). state p = UNUSED)"

lemma allocproc_none:
  assumes "spin_free PtableLock s" "\<not> unused_slot s"
  shows "allocproc s = Ret (None, put_hw (settle s) s)"
proof -
  have "find_idx (\<lambda>p. state p = UNUSED) (ptable s) = None"
    using assms(2) by (simp add: unused_slot_def find_idx_None)
  then show ?thesis
    using assms(1) by (simp add: allocproc_def with_lock_param spin_free_def allocproc_section_def)
qed

lemma allocproc_some:
  assumes ready: "kmem_ready s" "spin_free PtableLock s" and inv: "ptable_inv s" and left: "pids_left s" and u: "unused_slot s"
  obtains i k s' where "find_idx (\<lambda>p. state p = UNUSED) (ptable s) = Some i"
    "allocproc s = Ret (if k = 0 then None else Some i, s')" "kmem_ready s'" "spin_free PtableLock s'" "ptable_inv s'"
    "nextpid s' = nextpid s + 1" "curproc s' = curproc s" "i < NPROC"
    "k = 0 \<longrightarrow> free_count s = 0 \<and> rc s' = rc s" "k \<noteq> 0 \<longrightarrow> 0 < free_count s \<and> rc s k = 0 \<and> rc s' = (rc s)(k := 1)"
    "ptable s' = (ptable s)[i := (ptable s ! i)\<lparr>killed := False, pid := nextpid s, kstack := k,
       state := (if k = 0 then UNUSED else EMBRYO),
       tf_ptr := (if k = 0 then tf_ptr (ptable s ! i) else k + KSTACKSIZE - sizeof_trap_frame),
       context_ptr := (if k = 0 then context_ptr (ptable s ! i) else k + KSTACKSIZE - sizeof_trap_frame - 8 - sizeof_context),
       pcontext := (if k = 0 then pcontext (ptable s ! i) else \<lparr>c_rip = Forkret\<rparr>)\<rparr>]"
proof -
  obtain i where i: "find_idx (\<lambda>p. state p = UNUSED) (ptable s) = Some i"
    using u find_idx_ex [of _ "ptable s" "\<lambda>p. state p = UNUSED"] by (auto simp: unused_slot_def)
  define e where "e = (proc_upd i (\<lambda>p. p\<lparr>state := EMBRYO, pid := nextpid s, killed := False\<rparr>) s)\<lparr>nextpid := nextpid s + 1\<rparr>"
  note ie = ptable_inv_alloc [OF inv i, folded e_def]
  define t where "t = put_hw (settle s) e"
  have sec: "with_lock PtableLock allocproc_section s = Ret (Some i, t)"
    using ready(2) i left by (simp add: with_lock_param spin_free_def allocproc_section_def t_def e_def int_inc_small pids_left_def)
  have kt: "kmem_ready t" "spin_free PtableLock t" "ptable_inv t"
    using ready ie by (simp_all add: t_def e_def kmem_ready_def)
  obtain k s1 where k: "kalloc t = Ret (k, s1)" "kmem_ready s1"
    "k = 0 \<and> rc s1 = rc t \<or> k \<noteq> 0 \<and> rc t k = 0 \<and> rc s1 = (rc t)(k := 1)"
    using kpool.alloc_ok [OF kt(1)] by blast
  note kp = kalloc_ps [OF kt(1) k(1)]
  have inv1: "ptable_inv s1" using kt(3) kp by (simp add: ptable_inv_cong [of s1 t])
  have li: "i < length (ptable s)" using find_idx_SomeD [OF i] by simp
  have c: "curproc s1 \<noteq> Some i" using ie(3) kp by (simp add: t_def e_def proc_upd_def)
  define s' where "s' = (if k = 0 then proc_upd i (\<lambda>p. p\<lparr>kstack := 0, state := UNUSED\<rparr>) s1
     else proc_upd i (\<lambda>p. p\<lparr>kstack := k, tf_ptr := k + KSTACKSIZE - sizeof_trap_frame,
            context_ptr := k + KSTACKSIZE - sizeof_trap_frame - 8 - sizeof_context, pcontext := \<lparr>c_rip = Forkret\<rparr>\<rparr>) s1)"
  have r: "allocproc s = Ret (if k = 0 then None else Some i, s')"
    using sec k(1) by (simp add: allocproc_def s'_def Let_def)
  have "ptable_inv s'"
    using inv1 c unfolding s'_def by (auto intro: ptable_inv_upd ptable_inv_upd_unused)
  moreover have "kmem_ready s'" "spin_free PtableLock s'" "rc s' = rc s1"
    using k(2) kp(4) kt(2) by (simp_all add: s'_def kmem_ready_def)
  moreover have "rc t = rc s" "free_count t = free_count s" by (simp_all add: t_def e_def)
  moreover have "k = 0 \<Longrightarrow> free_count t = 0" using kalloc_free_count [OF kt(1) k(1)] by simp
  moreover have "k \<noteq> 0 \<Longrightarrow> 0 < free_count t" using kalloc_some_free [OF kt(1) k(1)] by simp
  moreover have "nextpid s' = nextpid s + 1" "curproc s' = curproc s"
    using kp by (simp_all add: s'_def t_def e_def proc_upd_def)
  moreover have "ptable s' = (ptable s)[i := (ptable s ! i)\<lparr>killed := False, pid := nextpid s, kstack := k,
       state := (if k = 0 then UNUSED else EMBRYO),
       tf_ptr := (if k = 0 then tf_ptr (ptable s ! i) else k + KSTACKSIZE - sizeof_trap_frame),
       context_ptr := (if k = 0 then context_ptr (ptable s ! i) else k + KSTACKSIZE - sizeof_trap_frame - 8 - sizeof_context),
       pcontext := (if k = 0 then pcontext (ptable s ! i) else \<lparr>c_rip = Forkret\<rparr>)\<rparr>]"
    using kp li by (cases "ptable s ! i") (simp add: s'_def t_def e_def)
  ultimately show thesis using i r k(3) ie(2) by (intro that [of i k s']) auto
qed


section \<open>Running processes\<close>

text \<open>Every process that can run, or wait to run, has a kernel stack and a page table.\<close>

definition live :: "'a ps_scheme \<Rightarrow> bool" where
  "live s \<longleftrightarrow> (\<forall>p\<in>set (ptable s). state p \<in> {RUNNABLE, RUNNING, SLEEPING} \<longrightarrow> kstack p \<noteq> 0 \<and> pgtbl (vspace p) \<noteq> 0)"

text \<open>The processor inside the scheduling loop: \<open>ptable.lock\<close> is the only lock held.\<close>

definition sched_hw :: "'a hw_scheme \<Rightarrow> bool" where
  "sched_hw s \<longleftrightarrow> holding PtableLock s \<and> ncli s = 1 \<and> \<not> eflags_IF s"

text \<open>When a process is switched to, and when it has switched back.\<close>

definition dispatched :: "nat \<Rightarrow> 'a ps_scheme \<Rightarrow> bool" where
  "dispatched i s \<longleftrightarrow> ptable_inv s \<and> live s \<and> curproc s = Some i \<and> sched_hw s"

definition switched_back :: "'a ps_scheme \<Rightarrow> bool" where
  "switched_back s \<longleftrightarrow> ptable_inv (s\<lparr>curproc := None\<rparr>) \<and> live s \<and> sched_hw s"

definition idle :: "'a ps_scheme \<Rightarrow> bool" where
  "idle s \<longleftrightarrow> ptable_inv s \<and> live s \<and> curproc s = None \<and> spin_free PtableLock s \<and> ncli s = 0"

lemma live_upd:
  assumes "live s" "state (f (ptable s ! i)) \<in> {RUNNABLE, RUNNING, SLEEPING} \<Longrightarrow>
     kstack (f (ptable s ! i)) \<noteq> 0 \<and> pgtbl (vspace (f (ptable s ! i))) \<noteq> 0"
  shows "live (proc_upd i f s)"
  using assms unfolding live_def by (auto dest!: set_update_subset_insert [THEN subsetD])

lemma liveD: "live s \<Longrightarrow> length (ptable s) = NPROC \<Longrightarrow> i < NPROC \<Longrightarrow>
    state (ptable s ! i) \<in> {RUNNABLE, RUNNING, SLEEPING} \<Longrightarrow> kstack (ptable s ! i) \<noteq> 0 \<and> pgtbl (vspace (ptable s ! i)) \<noteq> 0"
  unfolding live_def by (metis nth_mem)

lemma live_cong: "ptable s = ptable t \<Longrightarrow> live s = live t"
  by (simp add: live_def)

lemma sched_hw_cong: "same_hw s t \<Longrightarrow> sched_hw s = sched_hw t"
  by (simp add: same_hw_def sched_hw_def holding_def)

lemma procinstall_inside:
  assumes "ncli s = 1" "\<not> eflags_IF s" "kstack (ptable s ! i) \<noteq> 0" "pgtbl (vspace (ptable s ! i)) \<noteq> 0"
  shows "procinstall i s = Ret (s\<lparr>ts_rsp0 := kstack (ptable s ! i) + KSTACKSIZE, cr3 := V2P (pgtbl (vspace (ptable s ! i)))\<rparr>)"
  using assms by (simp add: procinstall_def vspaceinstall_def popcli_def pushcli_def Let_def)

lemma ptable_inv_dispatch:
  assumes inv: "ptable_inv s" and c: "curproc s = None" and i: "i < NPROC" and r: "state (ptable s ! i) \<noteq> UNUSED"
    and f: "state (f (ptable s ! i)) = RUNNING" "pid (f (ptable s ! i)) = pid (ptable s ! i)"
  shows "ptable_inv ((proc_upd i f s)\<lparr>curproc := Some i\<rparr>)"
proof -
  have l: "length (ptable s) = NPROC" using inv by (rule ptable_invD)
  have e: "ptable (proc_upd i f s) ! j = (if j = i then f (ptable s ! i) else ptable s ! j)" if "j < NPROC" for j
    using that l by (simp add: nth_list_update)
  have nr: "state (ptable s ! j) \<noteq> RUNNING" if "j < NPROC" for j using ptable_invD(2) [OF inv that] c by simp
  have "pid (ptable (proc_upd i f s) ! j) = pid (ptable s ! j)" if "j < NPROC" for j using e [OF that] f by simp
  moreover have "state (ptable (proc_upd i f s) ! j) \<noteq> UNUSED \<Longrightarrow> state (ptable s ! j) \<noteq> UNUSED" if "j < NPROC" for j
    using e [OF that] r by (cases "j = i") simp_all
  moreover have "(state (ptable (proc_upd i f s) ! j) = RUNNING) = (j = i)" if "j < NPROC" for j
    using e [OF that] f nr [OF that] by simp
  moreover have "nextpid (proc_upd i f s) = nextpid s" by (simp add: proc_upd_def)
  ultimately show ?thesis
    using l i ptable_invD(4,5) [OF inv] by (intro ptable_invI) (auto simp del: ptable_proc_upd simp: proc_upd_def)
qed

lemma ptable_inv_leave:
  assumes inv: "ptable_inv s" and c: "curproc s = Some i"
    and f: "state (f (ptable s ! i)) \<noteq> RUNNING" "pid (f (ptable s ! i)) = pid (ptable s ! i)"
  shows "ptable_inv ((proc_upd i f s)\<lparr>curproc := None\<rparr>)"
proof -
  have l: "length (ptable s) = NPROC" using inv by (rule ptable_invD)
  have i: "i < NPROC" using inv c by (rule ptable_invD)
  have r: "state (ptable s ! i) = RUNNING" using ptable_invD(2) [OF inv i] c by simp
  have e: "ptable (proc_upd i f s) ! j = (if j = i then f (ptable s ! i) else ptable s ! j)" if "j < NPROC" for j
    using that l by (simp add: nth_list_update)
  have "pid (ptable (proc_upd i f s) ! j) = pid (ptable s ! j)" if "j < NPROC" for j using e [OF that] f by simp
  moreover have "state (ptable (proc_upd i f s) ! j) \<noteq> UNUSED \<Longrightarrow> state (ptable s ! j) \<noteq> UNUSED" if "j < NPROC" for j
    using e [OF that] r by (cases "j = i") simp_all
  moreover have "state (ptable (proc_upd i f s) ! j) \<noteq> RUNNING" if "j < NPROC" for j
    using e [OF that] f ptable_invD(2) [OF inv that] c by (cases "j = i") auto
  moreover have "nextpid (proc_upd i f s) = nextpid s" by (simp add: proc_upd_def)
  ultimately show ?thesis
    using l i ptable_invD(4,5) [OF inv] by (intro ptable_invI) (auto simp del: ptable_proc_upd simp: proc_upd_def)
qed

text \<open>
  What the scheduling loop needs of the processes: one that is switched to comes back to the
  scheduler, with \<open>ptable.lock\<close> held and no longer marked as running.
\<close>

locale sched_client =
  fixes run :: "nat \<Rightarrow> 'a ps_scheme \<Rightarrow> 'a ps_scheme outcome"
  assumes run_back: "dispatched i s \<Longrightarrow> \<exists>s'. run i s = Ret s' \<and> switched_back s'"
begin

lemma turn_ok:
  assumes inv: "ptable_inv s" "live s" and c: "curproc s = None" and h: "sched_hw s" and i: "i < NPROC"
  shows "\<exists>s'. sched_turn run i s = Ret s' \<and> ptable_inv s' \<and> live s' \<and> curproc s' = None \<and> sched_hw s'"
proof (cases "state (ptable s ! i) = RUNNABLE")
  case True
  define t where "t = s\<lparr>curproc := Some i, ts_rsp0 := kstack (ptable s ! i) + KSTACKSIZE,
     cr3 := V2P (pgtbl (vspace (ptable s ! i)))\<rparr>"
  have k: "kstack (ptable s ! i) \<noteq> 0 \<and> pgtbl (vspace (ptable s ! i)) \<noteq> 0"
    using liveD [OF inv(2) ptable_invD(1) [OF inv(1)] i] True by simp
  have t: "procinstall i (s\<lparr>curproc := Some i\<rparr>) = Ret t"
    using h k by (subst procinstall_inside) (simp_all add: sched_hw_def t_def)
  let ?u = "proc_upd i (\<lambda>p. p\<lparr>state := RUNNING\<rparr>) t"
  have "ptable_inv ((proc_upd i (\<lambda>p. p\<lparr>state := RUNNING\<rparr>) s)\<lparr>curproc := Some i\<rparr>)"
    using inv(1) c i True by (intro ptable_inv_dispatch) simp_all
  then have "ptable_inv ?u" by (subst ptable_inv_cong) (simp_all add: t_def proc_upd_def)
  moreover have "live ?u"
    using inv(2) k live_cong [of t s] by (intro live_upd) (simp_all add: t_def)
  moreover have "sched_hw ?u" using h by (subst sched_hw_cong [of _ s]) (simp_all add: same_hw_def t_def proc_upd_def)
  ultimately have "dispatched i ?u" by (simp add: dispatched_def t_def proc_upd_def)
  then obtain v where v: "run i ?u = Ret v" "switched_back v" using run_back by blast
  let ?w = "(vspaceinstallkern v)\<lparr>curproc := None\<rparr>"
  have "sched_turn run i s = Ret ?w" using True t v(1) by (simp add: sched_turn_def)
  moreover have "ptable_inv ?w"
    using v(2) by (subst ptable_inv_cong [of _ "v\<lparr>curproc := None\<rparr>"]) (simp_all add: vspaceinstallkern_def switched_back_def)
  moreover have "live ?w" using v(2) by (subst live_cong [of _ v]) (simp_all add: vspaceinstallkern_def switched_back_def)
  moreover have "sched_hw ?w"
    using v(2) by (subst sched_hw_cong [of _ v]) (simp_all add: same_hw_def vspaceinstallkern_def switched_back_def)
  ultimately show ?thesis by auto
qed (use assms in \<open>simp add: sched_turn_def\<close>)

lemma turns_ok:
  assumes "ptable_inv s" "live s" "curproc s = None" "sched_hw s" "\<And>i. i \<in> set is \<Longrightarrow> i < NPROC"
  shows "\<exists>s'. ofold (sched_turn run) is s = Ret s' \<and> ptable_inv s' \<and> live s' \<and> curproc s' = None \<and> sched_hw s'"
  using assms
proof (induction "is" arbitrary: s)
  case (Cons i "is")
  obtain t where "sched_turn run i s = Ret t" "ptable_inv t \<and> live t \<and> curproc t = None \<and> sched_hw t"
    using turn_ok [of s i] Cons.prems by auto
  then show ?case using Cons.IH [of t] Cons.prems(5) by simp
qed simp

lemma round_ok:
  assumes "idle s"
  shows "\<exists>s'. scheduler_round run s = Ret s' \<and> idle s'"
proof -
  let ?s = "s\<lparr>eflags_IF := True\<rparr>"
  let ?e = "enter PtableLock ?s"
  have a: "acquire PtableLock ?s = Ret ?e"
    using assms by (intro acquire_enter) (simp add: idle_def spin_free_def unheld_def)
  have "ptable_inv ?e" "live ?e" "curproc ?e = None" "sched_hw ?e"
    using assms by (simp_all add: idle_def ptable_inv_cong [of ?e s] live_cong [of ?e s])
      (simp_all add: enter_def sched_hw_def holding_def)
  then obtain t where t: "ofold (sched_turn run) [0..<NPROC] ?e = Ret t" "ptable_inv t" "live t" "curproc t = None" "sched_hw t"
    using turns_ok [of ?e "[0..<NPROC]"] by auto
  have "spin_held PtableLock t" using t(5) by (simp add: sched_hw_def spin_held_def cli_ok_def)
  then obtain u where u: "release PtableLock t = Ret u" "spin_free PtableLock u" using release_spin_held by blast
  have "ptable u = ptable t \<and> curproc u = curproc t \<and> nextpid u = nextpid t \<and> ncli u = 0"
    using u(1) t(5) by (auto simp: release_def popcli_def Let_def sched_hw_def split: if_splits)
  then have "idle u" using t u(2) by (simp add: idle_def ptable_inv_cong [of u t] live_cong [of u t])
  then show ?thesis using a t(1) u(1) by (simp add: scheduler_round_def)
qed

end

text \<open>A process that comes out of \<open>yield\<close> and calls it again.\<close>

definition yield_again :: "bool \<Rightarrow> nat \<Rightarrow> 'a ps_scheme \<Rightarrow> 'a ps_scheme outcome" where
  "yield_again ie i s = obind (yield_resume ie s) yield_switch"


lemma sched_ok:
  assumes "sched_hw s" "curproc s = Some i" "state (ptable s ! i) \<noteq> RUNNING"
  shows "sched s = Ret (proc_upd i (\<lambda>p. p\<lparr>pcontext := \<lparr>c_rip = Resumed\<rparr>\<rparr>) s)"
  using assms by (simp add: sched_def sched_hw_def myproc_def)

lemma switch_away:
  assumes "dispatched i s" "state (f (ptable s ! i)) \<in> {RUNNABLE, SLEEPING, ZOMBIE}"
    "pid (f (ptable s ! i)) = pid (ptable s ! i)" "kstack (f (ptable s ! i)) = kstack (ptable s ! i)"
    "vspace (f (ptable s ! i)) = vspace (ptable s ! i)"
  shows "\<exists>s'. sched (proc_upd i f s) = Ret s' \<and> switched_back s' \<and> curproc s' = Some i \<and> same_hw s' s \<and>
     ptable s' = (ptable s)[i := (f (ptable s ! i))\<lparr>pcontext := \<lparr>c_rip = Resumed\<rparr>\<rparr>]"
proof -
  have inv: "ptable_inv s" "live s" and c: "curproc s = Some i" and h: "sched_hw s"
    using assms(1) by (simp_all add: dispatched_def)
  have l: "i < length (ptable s)" using ptable_invD(1,3) [OF inv(1)] c by simp
  define g where "g p = (f p)\<lparr>pcontext := \<lparr>c_rip = Resumed\<rparr>\<rparr>" for p
  have e: "proc_upd i (\<lambda>p. p\<lparr>pcontext := \<lparr>c_rip = Resumed\<rparr>\<rparr>) (proc_upd i f s) = proc_upd i g s"
    using l by (simp add: proc_upd_def g_def)
  have hf: "sched_hw (proc_upd i f s)" using h sched_hw_cong [of "proc_upd i f s" s] by simp
  have "sched (proc_upd i f s) = Ret (proc_upd i g s)"
    unfolding e [symmetric] using hf c l assms(2) by (intro sched_ok) (auto simp: proc_upd_def)
  moreover have "ptable_inv ((proc_upd i g s)\<lparr>curproc := None\<rparr>)"
    using inv(1) c assms(2,3) by (intro ptable_inv_leave) (auto simp: g_def)
  moreover have "state (ptable s ! i) = RUNNING" using ptable_invD(2,3) [OF inv(1)] c by simp
  then have "live (proc_upd i g s)"
    using inv assms(4,5) liveD [OF inv(2) ptable_invD(1) [OF inv(1)]] l ptable_invD(1) [OF inv(1)]
    by (intro live_upd) (auto simp: g_def)
  moreover have "same_hw (proc_upd i g s) s" by simp
  ultimately show ?thesis
    using h c by (simp add: switched_back_def sched_hw_cong [of "proc_upd i g s" s] g_def) (simp add: proc_upd_def)
qed

lemma yield_resume_ok:
  assumes "dispatched i s"
  shows "\<exists>s'. yield_resume ie s = Ret s' \<and> ptable s' = ptable s \<and> curproc s' = curproc s \<and> nextpid s' = nextpid s \<and>
    spin_free PtableLock s' \<and> ncli s' = 0"
proof -
  let ?s = "sched_resume ie s"
  have h: "spin_held PtableLock ?s" "ncli ?s = 1"
    using assms by (simp_all add: dispatched_def sched_hw_def spin_held_def cli_ok_def sched_resume_def holding_def)
  obtain u where u: "release PtableLock ?s = Ret u" "spin_free PtableLock u" using release_spin_held [OF h(1)] by blast
  have "ptable u = ptable s \<and> curproc u = curproc s \<and> nextpid u = nextpid s \<and> ncli u = 0"
    using u(1) h(2) by (auto simp: release_def popcli_def Let_def sched_resume_def split: if_splits)
  then show ?thesis using u by (simp add: yield_resume_def)
qed

lemma yield_switch_ok:
  assumes "ptable_inv s" "live s" "curproc s = Some i" "spin_free PtableLock s" "ncli s = 0"
  shows "\<exists>s'. yield_switch s = Ret s' \<and> switched_back s'"
proof -
  let ?e = "enter PtableLock s"
  have d: "dispatched i ?e"
    using assms by (simp add: dispatched_def ptable_inv_cong [of ?e s] live_cong [of ?e s])
      (simp add: enter_def sched_hw_def holding_def)
  have "\<exists>s'. sched (proc_upd i (\<lambda>p. p\<lparr>state := RUNNABLE\<rparr>) ?e) = Ret s' \<and> switched_back s'"
    using switch_away [OF d, of "\<lambda>p. p\<lparr>state := RUNNABLE\<rparr>"] by auto
  then show ?thesis
    using assms(3,4) by (simp add: yield_switch_def acquire_enter spin_free_def myproc_def)
qed

interpretation yielding: sched_client "yield_again ie" for ie
proof unfold_locales
  fix i and s :: "'b ps_scheme" assume d: "dispatched i s"
  obtain t where t: "yield_resume ie s = Ret t" "ptable t = ptable s" "curproc t = curproc s" "nextpid t = nextpid s"
    "spin_free PtableLock t" "ncli t = 0" using yield_resume_ok [OF d] by blast
  have "ptable_inv t" "live t" "curproc t = Some i"
    using d t by (simp_all add: dispatched_def ptable_inv_cong [of t s] live_cong [of t s])
  then show "\<exists>s'. yield_again ie i s = Ret s' \<and> switched_back s'"
    using yield_switch_ok [of t i] t by (simp add: yield_again_def)
qed

section \<open>Sleeping and waking on two processors\<close>

text \<open>
  The lost wake-up is a matter of interleaving, so here a second processor runs beside the one that executes
  \<open>sleep\<close>.  Each has a list of statements left to execute.  The state is shared but for the interrupt flags and the
  nesting count, which each processor has for itself (\<open>regs\<close>); a step that would spin or panic is not
  possible.  The locks record processor 0 for both, which only decides whether such a step would spin or panic.
\<close>

type_synonym regs = "bool \<times> int \<times> bool"

definition regs :: "'a hw_scheme \<Rightarrow> regs" where
  "regs s = (eflags_IF s, ncli s, intena s)"

definition set_regs :: "regs \<Rightarrow> 'a hw_scheme \<Rightarrow> 'a hw_scheme" where
  "set_regs = (\<lambda>(e, n, i) s. s\<lparr>eflags_IF := e, ncli := n, intena := i\<rparr>)"

type_synonym 's steps = "('s \<Rightarrow> 's outcome) list"

inductive two_cpus ::
  "'a hw_scheme steps \<times> 'a hw_scheme steps \<times> regs \<times> 'a hw_scheme \<Rightarrow> 'a hw_scheme steps \<times> 'a hw_scheme steps \<times> regs \<times> 'a hw_scheme \<Rightarrow> bool" where
  here: "f s = Ret s' \<Longrightarrow> two_cpus (f # fs, gs, r, s) (fs, gs, r, s')"
| there: "g (set_regs r s) = Ret s' \<Longrightarrow> two_cpus (fs, g # gs, r, s) (fs, gs, regs s', set_regs (regs s) s')"

inductive_cases two_cpusE: "two_cpus (fs, gs, r, s) c"

text \<open>
  What a waker does: with the lock that protects the condition held, it calls \<open>wakeup\<close>, as the timer interrupt does with
  \<open>tickslock\<close>.  The process that goes to sleep is followed until the scheduler gives up \<open>ptable.lock\<close>.
\<close>

definition waker_steps :: "chan \<Rightarrow> lock_id \<Rightarrow> 'a ps_scheme steps" where
  "waker_steps c lk = [acquire lk, acquire PtableLock, \<lambda>s. Ret (wakeup1 c s), release PtableLock, release lk]"

definition sleeper_steps :: "chan \<Rightarrow> lock_id \<Rightarrow> nat \<Rightarrow> 'a ps_scheme steps" where
  "sleeper_steps c lk i = sleep_steps c lk i @ [release PtableLock]"

lemma waker_steps_wakeup:
  "ofold id (waker_steps c lk) s = obind (acquire lk s) (\<lambda>s1. obind (wakeup c s1) (release lk))"
  by (cases "acquire lk s") (simp_all add: waker_steps_def wakeup_def with_lock_def omap_eq_obind obind_assoc ofold_fun)

text \<open>After \<open>a\<close> statements of the sleeper and \<open>b\<close> of the waker.\<close>

definition lk_taken :: "nat \<Rightarrow> nat \<Rightarrow> bool" where
  "lk_taken a b \<longleftrightarrow> a \<le> 1 \<or> b \<in> {1, 2, 3, 4}"

definition pt_taken :: "nat \<Rightarrow> nat \<Rightarrow> bool" where
  "pt_taken a b \<longleftrightarrow> a \<in> {1, 2, 3, 4, 5} \<or> b \<in> {2, 3}"

definition lock_is :: "lock_id \<Rightarrow> bool \<Rightarrow> 'a hw_scheme \<Rightarrow> bool" where
  "lock_is l b s \<longleftrightarrow> (if b then holding l s else unheld l s)"

definition sleep_inv :: "chan \<Rightarrow> lock_id \<Rightarrow> nat \<Rightarrow> nat \<Rightarrow> nat \<Rightarrow> regs \<Rightarrow> 'a ps_scheme \<Rightarrow> bool" where
  "sleep_inv c lk i a b r s \<longleftrightarrow>
     a \<le> 6 \<and> b \<le> 5 \<and> (a \<le> 1 \<longrightarrow> b = 0) \<and> (a \<le> 5 \<longrightarrow> b \<le> 1) \<and>
     lock_is lk (lk_taken a b) s \<and> lock_is PtableLock (pt_taken a b) s \<and>
     i < length (ptable s) \<and> curproc s = Some i \<and> (a \<le> 5 \<longrightarrow> \<not> eflags_IF s \<and> ncli s = (if a = 1 then 2 else 1)) \<and>
     (case r of (e, n, _) \<Rightarrow> (if b \<in> {2, 3} then 2 else if b \<in> {1, 4} then 1 else 0) \<le> n \<and> (0 < n \<longrightarrow> \<not> e)) \<and>
     (3 \<le> a \<longrightarrow> b < 3 \<longrightarrow> chan (ptable s ! i) = c) \<and>
     (4 \<le> a \<longrightarrow> state (ptable s ! i) = (if b < 3 then SLEEPING else RUNNABLE))"

lemmas sleep_inv_defs = sleep_inv_def lock_is_def lk_taken_def pt_taken_def holding_def unheld_def

lemma regs_fields [simp]:
  "eflags_IF (set_regs r s) = fst r" "ncli (set_regs r s) = fst (snd r)" "intena (set_regs r s) = snd (snd r)"
  "spin (set_regs r s) = spin s" "regs s = (eflags_IF s, ncli s, intena s)"
  by (simp_all add: set_regs_def regs_def split: prod.split)

lemma regs_ps [simp]: "ptable (set_regs r s) = ptable s" "curproc (set_regs r s) = curproc s"
  by (simp_all add: set_regs_def split: prod.split)

lemma below_6: "a < 6 \<longleftrightarrow> a = 0 \<or> a = 1 \<or> a = 2 \<or> a = 3 \<or> a = 4 \<or> a = (5 :: nat)" by auto

lemma below_5: "b < 5 \<longleftrightarrow> b = 0 \<or> b = 1 \<or> b = 2 \<or> b = 3 \<or> b = (4 :: nat)" by auto

text \<open>The sleeper is never held up, and every step of either processor keeps the invariant.\<close>

lemma sleeper_step:
  assumes "sleep_inv c lk i a b r s" "lk \<noteq> PtableLock" "a < 6"
  shows "\<exists>s'. (sleeper_steps c lk i ! a) s = Ret s' \<and> sleep_inv c lk i (Suc a) b r s'"
proof -
  have S: "sleeper_steps c lk i = [acquire PtableLock, release lk, \<lambda>s. Ret (proc_upd i (\<lambda>p. p\<lparr>chan := c\<rparr>) s),
      \<lambda>s. Ret (proc_upd i (\<lambda>p. p\<lparr>state := SLEEPING\<rparr>) s), sched, release PtableLock]"
    using assms(2) by (simp add: sleeper_steps_def sleep_steps_def)
  have "b = 0 \<or> b = 1" using assms(1,3) by (auto simp: sleep_inv_def)
  with assms(3) show ?thesis
    unfolding below_6 S
    using assms(1,2)
    by (elim disjE; simp add: sleep_inv_defs acquire_def pushcli_def release_def popcli_def sched_def myproc_def Let_def proc_upd_def)
qed

lemma acquire_effect:
  fixes s :: "'a ps_scheme"
  assumes "acquire l s = Ret s'"
  shows "\<not> locked (spin s l)" "spin s' = (spin s)(l := (spin s l)\<lparr>locked := True, lcpu := Some mycpu\<rparr>)" "ncli s' = ncli s + 1"
    "\<not> eflags_IF s'" "ptable s' = ptable s" "curproc s' = curproc s"
  using assms by (simp_all add: acquire_def pushcli_def Let_def split: if_split_asm) auto

lemma release_effect:
  fixes s :: "'a ps_scheme"
  assumes "release l s = Ret s'"
  shows "spin s' = (spin s)(l := (spin s l)\<lparr>locked := False, lcpu := None\<rparr>)" "ncli s' = ncli s - 1" "0 < ncli s' \<longrightarrow> \<not> eflags_IF s'"
    "ptable s' = ptable s" "curproc s' = curproc s"
  using assms by (simp_all add: release_def popcli_def Let_def split: if_split_asm) auto

lemma waker_step:
  assumes "sleep_inv c lk i a b r s" "lk \<noteq> PtableLock" "b < 5" "(waker_steps c lk ! b) (set_regs r s) = Ret s'"
  shows "sleep_inv c lk i a (Suc b) (regs s') (set_regs (regs s) s')"
proof -
  obtain e n ie where r: "r = (e, n, ie)" by (cases r)
  have a: "a \<le> 6" "a \<le> 1 \<longrightarrow> b = 0" "a \<le> 5 \<longrightarrow> b \<le> 1" using assms(1) by (simp_all add: sleep_inv_def)
  have g: "b = 0 \<Longrightarrow> acquire lk (set_regs r s) = Ret s'" "b = 1 \<Longrightarrow> acquire PtableLock (set_regs r s) = Ret s'"
    "b = 3 \<Longrightarrow> release PtableLock (set_regs r s) = Ret s'" "b = 4 \<Longrightarrow> release lk (set_regs r s) = Ret s'"
    "b = 2 \<Longrightarrow> s' = wakeup1 c (set_regs r s)"
    using assms(4) by (simp_all add: waker_steps_def)
  have "b = 0 \<Longrightarrow> 2 \<le> a" using acquire_effect(1) [OF g(1)] assms(1) by (cases "a \<le> 1") (simp_all add: sleep_inv_defs)
  moreover have "b = 1 \<Longrightarrow> a = 6"
    using acquire_effect(1) [OF g(2)] assms(1) a by (cases "a \<in> {1, 2, 3, 4, 5}") (auto simp: sleep_inv_defs)
  ultimately consider "b = 0" "2 \<le> a" | "b = 1" "a = 6" | "b = 2" "a = 6" | "b = 3" "a = 6" | "b = 4" "a = 6"
    using assms(3) a by (auto simp: below_5)
  then show ?thesis
  proof cases
    case 1
    then have t: "lk_taken a 0 = False" "lk_taken a 1 = True" "pt_taken a 1 = pt_taken a 0" by (simp_all add: lk_taken_def pt_taken_def)
    show ?thesis using assms(1,2) acquire_effect [OF g(1) [OF 1(1)]] 1 t unfolding r
      by (cases "pt_taken a 0") (simp_all add: sleep_inv_def lock_is_def holding_def unheld_def)
  next
    case 2
    show ?thesis using assms(1,2) acquire_effect [OF g(2) [OF 2(1)]] 2 unfolding r by (simp add: sleep_inv_defs)
  next
    case 3
    show ?thesis using assms(1,2) g(5) [OF 3(1)] 3 unfolding r by (simp add: sleep_inv_defs wakeup1_def wake_proc_def)
  next
    case 4
    show ?thesis using assms(1,2) release_effect [OF g(3) [OF 4(1)]] 4 unfolding r by (simp add: sleep_inv_defs)
  next
    case 5
    show ?thesis using assms(1,2) release_effect [OF g(4) [OF 5(1)]] 5 unfolding r by (simp add: sleep_inv_defs)
  qed
qed

lemma waker_ready:
  assumes "sleep_inv c lk i 6 b r s" "lk \<noteq> PtableLock" "b < 5"
  shows "\<exists>s'. (waker_steps c lk ! b) (set_regs r s) = Ret s'"
proof -
  obtain e n ie where r: "r = (e, n, ie)" by (cases r)
  from assms(3) show ?thesis
    unfolding below_5 r using assms(1,2)
    by (elim disjE; simp add: r waker_steps_def sleep_inv_defs acquire_def pushcli_def release_def popcli_def Let_def)
qed

lemma sleeper_Cons: "lk \<noteq> PtableLock \<Longrightarrow> a < 6 \<Longrightarrow>
    drop a (sleeper_steps c lk i) = (sleeper_steps c lk i ! a) # drop (Suc a) (sleeper_steps c lk i)"
  by (rule Cons_nth_drop_Suc [symmetric]) (simp add: sleeper_steps_def sleep_steps_def)

lemma waker_Cons: "b < 5 \<Longrightarrow> drop b (waker_steps c lk) = (waker_steps c lk ! b) # drop (Suc b) (waker_steps c lk)"
  by (rule Cons_nth_drop_Suc [symmetric]) (simp add: waker_steps_def)

lemma two_cpus_here:
  assumes "lk \<noteq> PtableLock" "a < 6" "(sleeper_steps c lk i ! a) s = Ret s'"
  shows "two_cpus (drop a (sleeper_steps c lk i), gs, r, s) (drop (Suc a) (sleeper_steps c lk i), gs, r, s')"
  unfolding sleeper_Cons [OF assms(1,2)] using assms(3) by (rule two_cpus.here)

lemma two_cpus_there:
  assumes "b < 5" "(waker_steps c lk ! b) (set_regs r s) = Ret s'"
  shows "two_cpus (fs, drop b (waker_steps c lk), r, s) (fs, drop (Suc b) (waker_steps c lk), regs s', set_regs (regs s) s')"
  unfolding waker_Cons [OF assms(1)] using assms(2) by (rule two_cpus.there)

lemma sleep_reach:
  assumes "two_cpus\<^sup>*\<^sup>* (sleeper_steps c lk i, waker_steps c lk, r, s) d" "sleep_inv c lk i 0 0 r s" "lk \<noteq> PtableLock"
  shows "\<exists>a b r' s'. d = (drop a (sleeper_steps c lk i), drop b (waker_steps c lk), r', s') \<and> sleep_inv c lk i a b r' s'"
  using assms(1)
proof (induction rule: rtranclp_induct)
  case base
  then show ?case using assms(2) by (metis drop0)
next
  case (step d d')
  obtain a b r1 s1 where d: "d = (drop a (sleeper_steps c lk i), drop b (waker_steps c lk), r1, s1)" and I: "sleep_inv c lk i a b r1 s1"
    using step.IH by blast
  have l: "length (sleeper_steps c lk i :: 'a ps_scheme steps) = 6" "length (waker_steps c lk :: 'a ps_scheme steps) = 5"
    using assms(3) by (simp_all add: sleeper_steps_def sleep_steps_def waker_steps_def)
  from step.hyps(2) show ?case unfolding d
  proof (rule two_cpusE, goal_cases)
    case (1 f s2 fs)
    have a: "a < 6" using 1(1) l(1) by (cases "a < 6") simp_all
    have "f = sleeper_steps c lk i ! a" "fs = drop (Suc a) (sleeper_steps c lk i)"
      using 1(1) unfolding sleeper_Cons [OF assms(3) a] by simp_all
    moreover obtain s3 where "(sleeper_steps c lk i ! a) s1 = Ret s3" "sleep_inv c lk i (Suc a) b r1 s3"
      using sleeper_step [OF I assms(3) a] by blast
    ultimately show ?case using 1(2,3) by (intro exI [of _ "Suc a"] exI [of _ b]) simp
  next
    case (2 g s2 gs)
    have b: "b < 5" using 2(1) l(2) by (cases "b < 5") simp_all
    have "g = waker_steps c lk ! b" "gs = drop (Suc b) (waker_steps c lk)"
      using 2(1) unfolding waker_Cons [OF b] by simp_all
    then show ?case using 2(2,3) waker_step [OF I assms(3) b, of s2] by (intro exI [of _ a] exI [of _ "Suc b"]) simp
  qed
qed

lemma two_cpus_go:
  assumes "sleep_inv c lk i a b r s" "lk \<noteq> PtableLock" "a < 6 \<or> b < 5"
  shows "\<exists>d. two_cpus (drop a (sleeper_steps c lk i), drop b (waker_steps c lk), r, s) d"
proof -
  have l: "length (sleeper_steps c lk i :: 'a ps_scheme steps) = 6" "length (waker_steps c lk :: 'a ps_scheme steps) = 5"
    using assms(2) by (simp_all add: sleeper_steps_def sleep_steps_def waker_steps_def)
  show ?thesis
  proof (cases "a < 6")
    case True
    obtain s' where "(sleeper_steps c lk i ! a) s = Ret s'" using sleeper_step [OF assms(1,2) True] by blast
    then show ?thesis using two_cpus_here [OF assms(2) True] by blast
  next
    case False
    then have ab: "a = 6" "b < 5" using assms(1,3) by (simp_all add: sleep_inv_def)
    then obtain s' where "(waker_steps c lk ! b) (set_regs r s) = Ret s'" using waker_ready [of c lk i b r s] assms(1,2) by blast
    then show ?thesis using two_cpus_there [OF ab(2)] by blast
  qed
qed

lemma sleeper_runs:
  "sleep_inv c lk i a b r s \<Longrightarrow> lk \<noteq> PtableLock \<Longrightarrow>
    \<exists>s'. two_cpus\<^sup>*\<^sup>* (drop a (sleeper_steps c lk i), gs, r, s) ([], gs, r, s') \<and> sleep_inv c lk i 6 b r s'"
proof (induction "6 - a" arbitrary: a s)
  case 0
  then have "a = 6" by (simp add: sleep_inv_def)
  then show ?case using 0 by (auto simp: sleeper_steps_def sleep_steps_def)
next
  case (Suc k)
  then have a: "a < 6" by simp
  obtain t where t: "(sleeper_steps c lk i ! a) s = Ret t" "sleep_inv c lk i (Suc a) b r t" using sleeper_step [OF Suc.prems a] by blast
  have "two_cpus (drop a (sleeper_steps c lk i), gs, r, s) (drop (Suc a) (sleeper_steps c lk i), gs, r, t)"
    using Suc.prems(2) a t(1) by (rule two_cpus_here)
  moreover have "k = 6 - Suc a" using Suc.hyps(2) by simp
  ultimately show ?case using Suc.hyps(1) [OF _ t(2) Suc.prems(2)] by (meson converse_rtranclp_into_rtranclp)
qed

lemma waker_runs:
  "sleep_inv c lk i 6 b r s \<Longrightarrow> lk \<noteq> PtableLock \<Longrightarrow>
    \<exists>r' s'. two_cpus\<^sup>*\<^sup>* ([], drop b (waker_steps c lk), r, s) ([], [], r', s')"
proof (induction "5 - b" arbitrary: b r s)
  case 0
  then have "b = 5" by (simp add: sleep_inv_def)
  then have "drop b (waker_steps c lk) = []" by (simp add: waker_steps_def)
  then show ?case by (metis rtranclp.rtrancl_refl)
next
  case (Suc k)
  then have b: "b < 5" by simp
  obtain t where t: "(waker_steps c lk ! b) (set_regs r s) = Ret t" using waker_ready [OF Suc.prems b] by blast
  have "two_cpus ([], drop b (waker_steps c lk), r, s) ([], drop (Suc b) (waker_steps c lk), regs t, set_regs (regs s) t)"
    using b t by (rule two_cpus_there)
  moreover have "k = 5 - Suc b" using Suc.hyps(2) by simp
  ultimately show ?case
    using Suc.hyps(1) [OF _ waker_step [OF Suc.prems b t] Suc.prems(2)] by (meson converse_rtranclp_into_rtranclp)
qed

section \<open>Properties\<close>


text \<open>
  C17.  While the counter of the pids has not reached the largest \<open>int\<close>, \<open>allocproc\<close> always returns.  It hands
  out an unused slot exactly when there is one and a page for the kernel stack is left; the slot becomes an embryo with a pid
  that no slot has, the counter moves on by one, the stack page is one that nobody held, the other slots do not change,
  and the invariants of the page allocator and of the process table hold again.
\<close>

theorem allocproc_functional:
  assumes "kmem_ready s" "spin_free PtableLock s" "ptable_inv s" "pids_left s"
  shows "\<exists>r s'. allocproc s = Ret (r, s') \<and> kmem_ready s' \<and> spin_free PtableLock s' \<and> ptable_inv s' \<and>
     (case r of
        None \<Rightarrow> (\<not> unused_slot s \<or> free_count s = 0) \<and> rc s' = rc s \<and> map state (ptable s') = map state (ptable s)
      | Some i \<Rightarrow> 0 < free_count s \<and> i < NPROC \<and> state (ptable s ! i) = UNUSED \<and> state (ptable s' ! i) = EMBRYO \<and>
          pid (ptable s' ! i) = nextpid s \<and> nextpid s' = nextpid s + 1 \<and> (\<forall>j<NPROC. pid (ptable s ! j) \<noteq> nextpid s) \<and>
          kstack (ptable s' ! i) \<noteq> 0 \<and> rc s (kstack (ptable s' ! i)) = 0 \<and> rc s' = (rc s)(kstack (ptable s' ! i) := 1) \<and>
          (\<forall>j. j \<noteq> i \<longrightarrow> ptable s' ! j = ptable s ! j))"
proof (cases "unused_slot s")
  case True
  show ?thesis
  proof (rule allocproc_some [OF assms True], goal_cases)
    case (1 i k s')
    note p = 1(11)
    have l: "length (ptable s) = NPROC" using assms(3) by (rule ptable_invD)
    have u: "state (ptable s ! i) = UNUSED" using find_idx_SomeD [OF 1(1)] by simp
    have fresh: "\<forall>j<NPROC. pid (ptable s ! j) \<noteq> nextpid s" using ptable_invD(4) [OF assms(3)] by fastforce
    have m: "map state ((ptable s)[i := x]) = map state (ptable s)" if "state x = UNUSED" for x
      using u that 1(8) l by (simp add: map_update list_update_same_conv)
    show ?case
    proof (cases "k = 0")
      case True
      then show ?thesis using 1(2-5,9) m by (simp add: p)
    next
      case False
      then show ?thesis using 1(2-6,8,10) u fresh l by (simp add: p)
    qed
  qed
next
  case False
  then show ?thesis using assms allocproc_none [OF assms(2)] by (simp add: kmem_ready_def)
qed


text \<open>
  At the largest \<open>int\<close> the counter wraps around: the next pids are negative, so that \<open>fork\<close> looks like a failure to its
  caller, and they are no longer increasing.
\<close>

lemma pids_wrap: "allocproc_section s = Ret (Some i, s') \<Longrightarrow> nextpid s = 2 ^ 31 - 1 \<Longrightarrow> nextpid s' = - (2 ^ 31)"
  by (auto simp: allocproc_section_def int_inc_def split: option.splits)

text \<open>
  C34.  \<open>kill\<close> looks for the first slot with the given pid.  It sets the mark of that process and, if it sleeps, makes it
  runnable, whatever it waits for, so that it will see the mark; no other field of the slot, no other slot and nothing else
  in the state changes, but for the recorded interrupt flag, and \<open>ptable.lock\<close> is free again.  The
  result is 0, or -1 with nothing changed exactly when no slot has the pid.
\<close>

theorem kill_functional:
  assumes "spin_free PtableLock s" "ptable_inv s"
  shows "\<exists>r t. kill pd s = Ret (r, put_hw (settle s) t) \<and> ptable_inv t \<and> spin_free PtableLock (put_hw (settle s) t) \<and>
     (if \<exists>j<NPROC. pid (ptable s ! j) = pd
      then \<exists>i<NPROC. pid (ptable s ! i) = pd \<and> (\<forall>j<i. pid (ptable s ! j) \<noteq> pd) \<and> r = 0 \<and>
        t = s\<lparr>ptable := (ptable s)[i := (ptable s ! i)\<lparr>killed := True,
               state := (if state (ptable s ! i) = SLEEPING then RUNNABLE else state (ptable s ! i))\<rparr>]\<rparr>
      else r = - 1 \<and> t = s)"
proof -
  obtain r t where k: "kill_section pd s = Ret (r, t)" by (cases "kill_section pd s") (auto simp: kill_section_def split: option.splits)
  have l: "length (ptable s) = NPROC" using assms(2) by (rule ptable_invD)
  have "kill pd s = Ret (r, put_hw (settle s) t)" using assms(1) k by (simp add: kill_def with_lock_param spin_free_def)
  moreover have "ptable_inv t" using assms(2) k by (rule ptable_inv_kill)
  moreover have "spin_free PtableLock (put_hw (settle s) t)" using assms(1) by simp
  moreover have "if \<exists>j<NPROC. pid (ptable s ! j) = pd
      then \<exists>i<NPROC. pid (ptable s ! i) = pd \<and> (\<forall>j<i. pid (ptable s ! j) \<noteq> pd) \<and> r = 0 \<and>
        t = s\<lparr>ptable := (ptable s)[i := (ptable s ! i)\<lparr>killed := True,
               state := (if state (ptable s ! i) = SLEEPING then RUNNABLE else state (ptable s ! i))\<rparr>]\<rparr>
      else r = - 1 \<and> t = s"
  proof (cases "find_idx (\<lambda>p. pid p = pd) (ptable s)")
    case None
    then have "\<not> (\<exists>j<NPROC. pid (ptable s ! j) = pd)" using l by (auto simp: find_idx_None dest: nth_mem)
    then show ?thesis using None k by (simp add: kill_section_def)
  next
    case (Some i)
    note f = find_idx_SomeD [OF Some]
    have "\<exists>j<NPROC. pid (ptable s ! j) = pd" using f l by auto
    then show ?thesis using Some k f l by (auto simp: kill_section_def proc_upd_def intro!: exI [of _ i])
  qed
  ultimately show ?thesis by blast
qed

text \<open>
  C18.  A round of the scheduling loop over processes that yield comes to its end: it returns with
  \<open>ptable.lock\<close> free, no process marked as running and the table invariant intact, whatever
  the interrupt state the processes resume with.
\<close>

theorem scheduler_round_idle:
  "idle s \<Longrightarrow> \<exists>s'. scheduler_round (yield_again ie) s = Ret s' \<and> idle s'"
  by (rule yielding.round_ok)

subsection \<open>Concrete states\<close>

definition demo_proc :: proc where
  "demo_proc = \<lparr>vspace = \<lparr>regions = [], pgtbl = kva 3\<rparr>, kstack = kva 2, state = UNUSED, pid = 0, tf_ptr = 0, tf = zero_tf,
     context_ptr = 0, pcontext = \<lparr>c_rip = Forkret\<rparr>, chan = NoChan, killed = False, pname = [], fds = replicate NOFILE None, parent = 0\<rparr>"



text \<open>One ready process in slot 0 of the table; with \<open>demo_run\<close> it is running and holds \<open>tickslock\<close>.\<close>

definition demo_vm :: vm where
  "demo_vm = km.extend demo_km (vm.fields (kva 3) 0 0 0)"

definition demo_ps :: ps where
  "demo_ps = vm.extend demo_vm
     (ps.fields (demo_proc\<lparr>state := RUNNABLE, pid := 1\<rparr> # replicate 63 demo_proc) (Some 0) 2 None 0 0)"

definition demo_run :: ps where
  "demo_run = (proc_upd 0 (\<lambda>p. p\<lparr>state := RUNNING\<rparr>) demo_ps)\<lparr>curproc := Some 0\<rparr>"

lemmas demo_ps_simps = demo_ps_def demo_vm_def vm.defs ps.defs demo_km_simps demo_proc_def

lemma demo_ps_fields:
  "ptable demo_ps = demo_proc\<lparr>state := RUNNABLE, pid := 1\<rparr> # replicate 63 demo_proc" "curproc demo_ps = None"
  "nextpid demo_ps = 2" "ncli demo_ps = 0"
  by (simp_all add: demo_ps_def demo_vm_def vm.defs ps.defs demo_km_simps)

lemma demo_ps_km: "kmem_ready demo_ps" "spin_free PtableLock demo_ps"
proof -
  have "kmem_inv demo_ps = kmem_inv demo_km" by (rule kmem_inv_cong) (simp_all add: demo_ps_simps)
  then show "kmem_ready demo_ps"
    using demo_km_ready by (simp add: kmem_ready_def) (simp add: demo_ps_simps spin_free_def cli_ok_def unheld_def)
  show "spin_free PtableLock demo_ps" by (simp add: demo_ps_simps spin_free_def cli_ok_def unheld_def)
qed

lemma nth_demo: "i < NPROC \<Longrightarrow> (x # replicate 63 y) ! i = (if i = 0 then x else y)"
  by (auto simp: NPROC_def nth_Cons split: nat.splits)

lemma demo_ps_inv: "ptable_inv demo_ps" "live demo_ps"
  by (simp_all add: ptable_inv_def live_def demo_ps_fields nth_demo)
    (auto simp: NPROC_def demo_proc_def kva_nonzero)


theorem allocproc_functional_witness:
  "kmem_ready demo_ps \<and> spin_free PtableLock demo_ps \<and> ptable_inv demo_ps \<and> pids_left demo_ps \<and>
   (\<exists>i s'. allocproc demo_ps = Ret (Some i, s') \<and> state (ptable s' ! i) = EMBRYO \<and> pid (ptable s' ! i) = 2 \<and> ptable_inv s')"
proof -
  have l: "pids_left demo_ps" by (simp add: pids_left_def demo_ps_fields)
  have "unused_slot demo_ps" by (simp add: unused_slot_def demo_ps_fields demo_proc_def)
  moreover have "free_count demo_ps = 1" by (simp add: free_count_def demo_ps_simps)
  ultimately show ?thesis
    using allocproc_functional [OF demo_ps_km demo_ps_inv(1) l] demo_ps_km demo_ps_inv(1) l
    by (auto simp: demo_ps_fields(3) split: option.splits)
qed

text \<open>The process sleeps.\<close>

definition demo_asleep :: ps where
  "demo_asleep = proc_upd 0 (\<lambda>p. p\<lparr>state := SLEEPING, chan := TicksChan\<rparr>) demo_ps"

lemma demo_asleep_ok: "spin_free PtableLock demo_asleep" "ptable_inv demo_asleep" "ptable demo_asleep ! 0 = demo_proc\<lparr>state := SLEEPING, pid := 1, chan := TicksChan\<rparr>"
  using demo_ps_km(2) demo_ps_inv(1) unfolding demo_asleep_def
  by (simp, intro ptable_inv_upd, simp_all add: demo_ps_fields)

theorem kill_functional_witness:
  "\<exists>s'. kill 1 demo_asleep = Ret (0, s') \<and> ptable s' ! 0 = demo_proc\<lparr>state := RUNNABLE, pid := 1, chan := TicksChan, killed := True\<rparr>"
proof -
  let ?s = demo_asleep
  have e: "\<exists>j<NPROC. pid (ptable ?s ! j) = 1" by (intro exI [of _ 0]) (simp add: demo_asleep_ok NPROC_def)
  obtain r t where t: "kill 1 ?s = Ret (r, put_hw (settle ?s) t)" "if \<exists>j<NPROC. pid (ptable ?s ! j) = 1
      then \<exists>i<NPROC. pid (ptable ?s ! i) = 1 \<and> (\<forall>j<i. pid (ptable ?s ! j) \<noteq> 1) \<and> r = 0 \<and>
        t = ?s\<lparr>ptable := (ptable ?s)[i := (ptable ?s ! i)\<lparr>killed := True,
               state := (if state (ptable ?s ! i) = SLEEPING then RUNNABLE else state (ptable ?s ! i))\<rparr>]\<rparr>
      else r = - 1 \<and> t = ?s"
    using kill_functional [OF demo_asleep_ok(1,2), of 1] by blast
  then obtain i where i: "\<forall>j<i. pid (ptable ?s ! j) \<noteq> 1" "r = 0" "t = ?s\<lparr>ptable := (ptable ?s)[i := (ptable ?s ! i)\<lparr>killed := True,
               state := (if state (ptable ?s ! i) = SLEEPING then RUNNABLE else state (ptable ?s ! i))\<rparr>]\<rparr>"
    using e by (simp only: if_True) blast
  have "i = 0" using i(1) demo_asleep_ok(3) by (cases i) auto
  moreover have "0 < length (ptable ?s)" using ptable_invD(1) [OF demo_asleep_ok(2)] by (simp add: NPROC_def)
  ultimately show ?thesis using t(1) i(2,3) demo_asleep_ok(3) by simp
qed

lemma demo_ps_idle: "idle demo_ps"
  using demo_ps_km demo_ps_inv by (simp add: idle_def demo_ps_fields)

theorem scheduler_round_idle_witness:
  "idle demo_ps \<and> (\<exists>s'. scheduler_round (yield_again True) demo_ps = Ret s' \<and> idle s')"
  using scheduler_round_idle [OF demo_ps_idle] demo_ps_idle by blast

definition demo_sleeper :: ps where
  "demo_sleeper = enter TicksLock demo_run"

lemma demo_sleeper_ok:
  "ptable_inv demo_sleeper" "live demo_sleeper" "curproc demo_sleeper = Some 0" "spin_held TicksLock demo_sleeper"
  "ncli demo_sleeper = 1" "spin_free PtableLock demo_sleeper"
proof -
  have "ptable_inv demo_run"
    unfolding demo_run_def using demo_ps_inv(1) by (rule ptable_inv_dispatch) (simp_all add: demo_ps_fields NPROC_def)
  then show "ptable_inv demo_sleeper" by (subst ptable_inv_cong [of _ demo_run]) (simp_all add: demo_sleeper_def)
  have "live (proc_upd 0 (\<lambda>p. p\<lparr>state := RUNNING\<rparr>) demo_ps)"
    using demo_ps_inv(2) by (rule live_upd) (simp add: demo_ps_fields demo_proc_def kva_nonzero)
  then show "live demo_sleeper" by (subst (asm) live_cong [of _ demo_sleeper]) (simp_all add: demo_sleeper_def demo_run_def)
  show "curproc demo_sleeper = Some 0" by (simp add: demo_sleeper_def demo_run_def)
  show "spin_held TicksLock demo_sleeper" "ncli demo_sleeper = 1" "spin_free PtableLock demo_sleeper"
    by (simp_all add: demo_sleeper_def demo_run_def enter_def spin_held_def holding_def spin_free_def unheld_def cli_ok_def
        proc_upd_def) (simp_all add: demo_ps_simps)
qed


end
