(* ===== verification/Sleeplock.thy ===== *)
theory Sleeplock
  imports Sched
begin

text \<open>
  \<open>kernel/sleeplock.c\<close>: locks whose holder may sleep.  A lock is named by its
  \<open>sleep_id\<close>; its protecting spin lock is \<open>SleepLk id\<close> and its sleep channel
  \<open>SleepLkChan id\<close>.  A caller that finds the lock taken by another process goes through
  the checks of \<open>sleep\<close> and is then blocked until that process runs.

  The lock contract of the spin locks holds for sleeping locks too.
\<close>

record sleeplock =
  slocked :: bool
  sname :: string
  spid :: int

record sl = ps +
  slk :: "sleep_id \<Rightarrow> sleeplock"

definition slk_upd :: "sleep_id \<Rightarrow> (sleeplock \<Rightarrow> sleeplock) \<Rightarrow> 'a sl_scheme \<Rightarrow> 'a sl_scheme" where
  "slk_upd l f s = s\<lparr>slk := (slk s)(l := f (slk s l))\<rparr>"

definition initsleeplock :: "sleep_id \<Rightarrow> string \<Rightarrow> 'a sl_scheme \<Rightarrow> 'a sl_scheme" where
  "initsleeplock l nm s =
     slk_upd l (\<lambda>_. \<lparr>slocked = False, sname = nm, spid = 0\<rparr>) (initlock (SleepLk l) ''sleep lock'' s)"

text \<open>The pid of the running process, \<open>myproc()->pid\<close>.\<close>

definition mypid :: "'a ps_scheme \<Rightarrow> int outcome" where
  "mypid s = obind (myproc s) (\<lambda>i. Ret (pid (ptable s ! i)))"

text \<open>
  The loop of \<open>acquiresleep\<close>, entered with the protecting spin lock held; a thread that is
  switched back to in \<open>sleep\<close> goes on with \<open>acquiresleep_resume\<close>.
\<close>

definition acquiresleep_loop :: "sleep_id \<Rightarrow> 'a sl_scheme \<Rightarrow> 'a sl_scheme outcome" where
  "acquiresleep_loop l s =
     (if slocked (slk s l) then sleep (SleepLkChan l) (SleepLk l) s
      else obind (mypid s) (\<lambda>me. release (SleepLk l) (slk_upd l (\<lambda>k. k\<lparr>slocked := True, spid := me\<rparr>) s)))"

definition acquiresleep_resume :: "bool \<Rightarrow> sleep_id \<Rightarrow> 'a sl_scheme \<Rightarrow> 'a sl_scheme outcome" where
  "acquiresleep_resume ie l s = obind (sleep_resume ie (SleepLk l) s) (acquiresleep_loop l)"

definition acquiresleep :: "sleep_id \<Rightarrow> 'a sl_scheme \<Rightarrow> 'a sl_scheme outcome" where
  "acquiresleep l s =
     obind (acquire (SleepLk l) s) (\<lambda>s1.
       obind (if slocked (slk s1 l) then omap (\<lambda>me. spid (slk s1 l) = me) (mypid s1) else Ret False) (\<lambda>mine.
         if mine then Fail (Panic ''Already holding sleeplock!'') else acquiresleep_loop l s1))"

definition releasesleep :: "sleep_id \<Rightarrow> 'a sl_scheme \<Rightarrow> 'a sl_scheme outcome" where
  "releasesleep l s =
     obind (acquire (SleepLk l) s) (\<lambda>s1.
       if \<not> slocked (slk s1 l) then Fail (Panic ''releasesleep: sleeplock is not locked!'')
       else obind (mypid s1) (\<lambda>me.
         if spid (slk s1 l) \<noteq> me then Fail (Panic ''releasesleep: sleeplock is not held by current proc!'')
         else obind (wakeup (SleepLkChan l) (slk_upd l (\<lambda>k. k\<lparr>slocked := False, spid := 0\<rparr>) s1))
                (release (SleepLk l))))"

definition holdingsleep :: "sleep_id \<Rightarrow> 'a sl_scheme \<Rightarrow> (bool \<times> 'a sl_scheme) outcome" where
  "holdingsleep l s =
     with_lock (SleepLk l) (\<lambda>s.
       if slocked (slk s l) then obind (mypid s) (\<lambda>me. Ret (spid (slk s l) = me, s)) else Ret (False, s)) s"

section \<open>The lock contract\<close>

lemma sl_put_hw [simp]:
  "slk (put_hw h s) = slk s" "slk (settle s) = slk s" "slk (enter k s) = slk s"
  "slk_upd l f (put_hw h s) = put_hw h (slk_upd l f s)"
  by (simp_all add: put_hw_def settle_def enter_def slk_upd_def)

lemma slk_upd_simps [simp]:
  "ptable (slk_upd l f s) = ptable s" "curproc (slk_upd l f s) = curproc s"
  "slk (slk_upd l f s) = (slk s)(l := f (slk s l))" "slk (wakeup1 c s) = slk s"
  "same_hw (slk_upd l f s) t = same_hw s t"
  by (simp_all add: slk_upd_def wakeup1_def same_hw_def)

lemma slk_upd_hw [simp]:
  "cli_ok (slk_upd l f s) = cli_ok s" "unheld k (slk_upd l f s) = unheld k s" "ncli (slk_upd l f s) = ncli s"
  by (simp_all add: slk_upd_def cli_ok_def unheld_def)

lemma mypid_simps [simp]:
  "mypid (put_hw h s) = mypid s" "mypid (settle s) = mypid s" "mypid (enter k s) = mypid s"
  "mypid (slk_upd l f s) = mypid s"
  by (simp_all add: mypid_def myproc_def split: option.splits)

text \<open>The processor is not in the middle of a critical section of the lock or of the process table.\<close>

definition calm :: "sleep_id \<Rightarrow> 'a sl_scheme \<Rightarrow> bool" where
  "calm l s \<longleftrightarrow> cli_ok s \<and> unheld (SleepLk l) s \<and> unheld PtableLock s"

lemma acquiresleep_eq:
  assumes "calm l s" "mypid s = Ret me" "\<not> slocked (slk s l)"
  shows "acquiresleep l s = Ret (put_hw (settle s) (slk_upd l (\<lambda>k. k\<lparr>slocked := True, spid := me\<rparr>) s))"
proof -
  let ?t = "slk_upd l (\<lambda>k. k\<lparr>slocked := True, spid := me\<rparr>) (enter (SleepLk l) s)"
  have "release (SleepLk l) ?t = Ret (put_hw (settle s) ?t)"
    using assms(1) by (intro release_put_hw) (simp_all add: calm_def)
  moreover have "put_hw h ?t = put_hw h (slk_upd l (\<lambda>k. k\<lparr>slocked := True, spid := me\<rparr>) s)" for h
    by (subst enter_put_hw) simp
  ultimately show ?thesis
    using assms by (simp add: acquiresleep_def acquiresleep_loop_def acquire_enter calm_def)
qed

lemma releasesleep_eq:
  assumes "calm l s" "mypid s = Ret me" "slocked (slk s l)" "spid (slk s l) = me"
  shows "releasesleep l s = Ret (put_hw (settle s)
     (wakeup1 (SleepLkChan l) (slk_upd l (\<lambda>k. k\<lparr>slocked := False, spid := 0\<rparr>) s)))"
proof -
  let ?e = "enter (SleepLk l) s"
  let ?u = "slk_upd l (\<lambda>k. k\<lparr>slocked := False, spid := 0\<rparr>) s"
  have u: "slk_upd l (\<lambda>k. k\<lparr>slocked := False, spid := 0\<rparr>) ?e = put_hw ?e ?u"
    by (subst enter_put_hw) simp
  have c: "cli_ok ?e" "unheld PtableLock ?e" "ncli ?e \<noteq> 0"
    using assms(1) by (simp_all add: calm_def cli_ok_enter unheld_enter_other) (simp add: enter_def cli_ok_def)
  have s: "settle (put_hw ?e ?u) = put_hw ?e ?u" using c(3) by (intro settle_inside) simp
  have "wakeup (SleepLkChan l) (put_hw ?e ?u) = Ret (put_hw ?e (wakeup1 (SleepLkChan l) ?u))"
    using c wakeup_eq [of "put_hw ?e ?u"] s by simp
  moreover have "release (SleepLk l) (put_hw ?e (wakeup1 (SleepLkChan l) ?u)) =
      Ret (put_hw (settle s) (put_hw ?e (wakeup1 (SleepLkChan l) ?u)))"
    using assms(1) by (intro release_put_hw) (simp_all add: calm_def)
  ultimately show ?thesis
    using assms u by (simp add: releasesleep_def acquire_enter calm_def)
qed

lemma holdingsleep_eq:
  assumes "calm l s" "mypid s = Ret me"
  shows "holdingsleep l s = Ret (slocked (slk s l) \<and> spid (slk s l) = me, settle s)"
proof -
  have "holdingsleep l s = omap (\<lambda>(r, s'). (r, put_hw (settle s) s'))
     (if slocked (slk s l) then obind (mypid s) (\<lambda>me. Ret (spid (slk s l) = me, s)) else Ret (False, s))"
    unfolding holdingsleep_def using assms(1)
    by (intro with_lock_param) (auto simp: calm_def hw_param_def mypid_def myproc_def split: option.splits)
  then show ?thesis using assms(2) by (simp add: settle_put_hw [symmetric])
qed

text \<open>A sleeping lock is free, or held by the running process.\<close>

definition sleep_free :: "sleep_id \<Rightarrow> 'a sl_scheme \<Rightarrow> bool" where
  "sleep_free l s \<longleftrightarrow> calm l s \<and> returns (mypid s) \<and> \<not> slocked (slk s l)"

definition sleep_held :: "sleep_id \<Rightarrow> 'a sl_scheme \<Rightarrow> bool" where
  "sleep_held l s \<longleftrightarrow> calm l s \<and> slocked (slk s l) \<and> mypid s = Ret (spid (slk s l))"

lemma calm_simps [simp]:
  "calm l (put_hw h s) \<longleftrightarrow> cli_ok h \<and> unheld (SleepLk l) h \<and> unheld PtableLock h"
  by (simp add: calm_def)

lemma returns_mypid: "returns (mypid s) \<longleftrightarrow> curproc s \<noteq> None"
  by (simp add: mypid_def myproc_def split: option.splits)

lemma curproc_wakeup1 [simp]: "curproc (wakeup1 c s) = curproc s"
  by (simp add: wakeup1_def)

lemma acquiresleep_held: "sleep_held l s \<Longrightarrow> acquiresleep l s = Fail (Panic ''Already holding sleeplock!'')"
  by (simp add: sleep_held_def acquiresleep_def calm_def acquire_enter)

lemma releasesleep_free:
  "sleep_free l s \<Longrightarrow> releasesleep l s = Fail (Panic ''releasesleep: sleeplock is not locked!'')"
  by (simp add: sleep_free_def releasesleep_def calm_def acquire_enter)

interpretation sleepl: lock_contract "acquiresleep l" "releasesleep l" "sleep_free l" "sleep_held l" for l
proof unfold_locales
  fix s :: "'b sl_scheme"
  show "\<exists>s'. acquiresleep l s = Ret s' \<and> sleep_held l s'" if free: "sleep_free l s"
  proof -
    obtain me where "mypid s = Ret me" "calm l s" "\<not> slocked (slk s l)"
      using free by (auto simp: sleep_free_def returns_iff)
    then show ?thesis using acquiresleep_eq [of l s me] by (simp add: sleep_held_def calm_def)
  qed
  show "\<exists>s'. releasesleep l s = Ret s' \<and> sleep_free l s'" if "sleep_held l s"
  proof -
    have "calm l s" "mypid s = Ret (spid (slk s l))" "slocked (slk s l)" using that by (simp_all add: sleep_held_def)
    moreover then have "curproc s \<noteq> None" using returns_mypid [of s] by simp
    ultimately show ?thesis
      using releasesleep_eq [of l s "spid (slk s l)"] by (simp add: sleep_free_def returns_mypid calm_def)
  qed
  show "\<not> returns (acquiresleep l s)" if "sleep_held l s" using that by (simp add: acquiresleep_held)
  show "\<not> returns (releasesleep l s)" if "sleep_free l s" using that by (simp add: releasesleep_free)
qed

end
