(* ===== verification/Io.thy ===== *)
theory Io
  imports Sleeplock
begin

text \<open>
  Port and memory mapped devices: \<open>kernel/picirq.c\<close>, \<open>kernel/ioapic.c\<close>,
  \<open>kernel/lapic.c\<close>, \<open>kernel/mp.c\<close> and \<open>kernel/e820.c\<close>.

  The devices themselves are fields of the state: \<open>outs\<close> is the sequence of port writes, the
  latest one first; \<open>port_in\<close> is what a read of a port delivers; \<open>lapic_reg\<close> and
  \<open>ioapic_reg\<close> are the registers of the two interrupt controllers; \<open>cmos t r\<close> is the
  value of clock register \<open>r\<close> at the \<open>t\<close>-th access.  Console output is kept elsewhere and
  the messages of these files are left out.
\<close>

record rtcdate =
  second :: u32
  minute :: u32
  hour :: u32
  day :: u32
  month :: u32
  year :: u32

record e820_entry =
  e_addr :: u64
  e_len :: u64
  e_type :: u32

record io = sl +
  outs :: "(u16 \<times> u8) list"
  port_in :: "u16 \<Rightarrow> u8"
  irqmask :: u16
  ismp :: bool
  ncpu :: nat
  apicids :: "u8 list"
  ioapicid :: u8
  lapic :: u64
  lapic_reg :: "nat \<Rightarrow> u32"
  ioapic_reg :: "nat \<Rightarrow> u32"
  cmos :: "nat \<Rightarrow> u8 \<Rightarrow> u8"
  cmos_clock :: nat
  e820_map :: "e820_entry list"
  mmap_addr :: u32
  mmap_length :: u32

definition outb :: "u16 \<Rightarrow> u8 \<Rightarrow> 'a io_scheme \<Rightarrow> 'a io_scheme" where
  "outb p v s = s\<lparr>outs := (p, v) # outs s\<rparr>"

definition inb :: "u16 \<Rightarrow> 'a io_scheme \<Rightarrow> u8" where
  "inb p s = port_in s p"

text \<open>The value a device has latched at a port: the last one written there.\<close>

definition latch :: "u16 \<Rightarrow> 'a io_scheme \<Rightarrow> u8" where
  "latch p s = (case find (\<lambda>(q, v). q = p) (outs s) of None \<Rightarrow> 0 | Some (q, v) \<Rightarrow> v)"

definition outbs :: "(u16 \<times> u8) list \<Rightarrow> 'a io_scheme \<Rightarrow> 'a io_scheme" where
  "outbs ws s = fold (\<lambda>(p, v). outb p v) ws s"

section \<open>picirq.c\<close>

definition IO_PIC1 :: u16 where "IO_PIC1 = 0x20"
definition IO_PIC2 :: u16 where "IO_PIC2 = 0xA0"
definition IRQ_SLAVE :: nat where "IRQ_SLAVE = 2"
definition TRAP_IRQ0 :: nat where "TRAP_IRQ0 = 32"

definition picsetmask :: "u16 \<Rightarrow> 'a io_scheme \<Rightarrow> 'a io_scheme" where
  "picsetmask m s = outb (IO_PIC2 + 1) (ucast (drop_bit 8 m)) (outb (IO_PIC1 + 1) (ucast m) (s\<lparr>irqmask := m\<rparr>))"

definition picenable :: "nat \<Rightarrow> 'a io_scheme \<Rightarrow> 'a io_scheme" where
  "picenable irq s = picsetmask (irqmask s AND NOT (push_bit irq 1)) s"

definition picinit :: "'a io_scheme \<Rightarrow> 'a io_scheme" where
  "picinit s =
     (let s1 = outbs
        [(IO_PIC1 + 1, 0xFF), (IO_PIC2 + 1, 0xFF),
         (IO_PIC1, 0x11), (IO_PIC1 + 1, of_nat TRAP_IRQ0), (IO_PIC1 + 1, push_bit IRQ_SLAVE 1), (IO_PIC1 + 1, 0x3),
         (IO_PIC2, 0x11), (IO_PIC2 + 1, of_nat (TRAP_IRQ0 + 8)), (IO_PIC2 + 1, of_nat IRQ_SLAVE), (IO_PIC2 + 1, 0x3),
         (IO_PIC1, 0x68), (IO_PIC1, 0x0a), (IO_PIC2, 0x68), (IO_PIC2, 0x0a)] s
      in if irqmask s1 \<noteq> 0xFFFF then picsetmask (irqmask s1) s1 else s1)"

section \<open>ioapic.c\<close>

definition REG_ID :: nat where "REG_ID = 0"
definition REG_VER :: nat where "REG_VER = 1"
definition REG_TABLE :: nat where "REG_TABLE = 16"
definition INT_DISABLED :: u32 where "INT_DISABLED = 0x00010000"

definition ioapicread :: "nat \<Rightarrow> 'a io_scheme \<Rightarrow> u32" where
  "ioapicread r s = ioapic_reg s r"

definition ioapicwrite :: "nat \<Rightarrow> u32 \<Rightarrow> 'a io_scheme \<Rightarrow> 'a io_scheme" where
  "ioapicwrite r d s = s\<lparr>ioapic_reg := (ioapic_reg s)(r := d)\<rparr>"

definition ioapicinit :: "'a io_scheme \<Rightarrow> 'a io_scheme" where
  "ioapicinit s =
     (if \<not> ismp s then s
      else
        let maxintr = unat (drop_bit 16 (ioapicread REG_VER s) AND 0xFF)
        in fold (\<lambda>i s. ioapicwrite (REG_TABLE + 2 * i + 1) 0
                        (ioapicwrite (REG_TABLE + 2 * i) (INT_DISABLED OR of_nat (TRAP_IRQ0 + i)) s)) [0..<Suc maxintr] s)"

definition ioapicenable :: "nat \<Rightarrow> nat \<Rightarrow> 'a io_scheme \<Rightarrow> 'a io_scheme" where
  "ioapicenable irq cpu s =
     (if \<not> ismp s then s
      else ioapicwrite (REG_TABLE + 2 * irq + 1) (push_bit 24 (of_nat cpu))
             (ioapicwrite (REG_TABLE + 2 * irq) (of_nat (TRAP_IRQ0 + irq)) s))"

section \<open>lapic.c\<close>

definition L_ID :: nat where "L_ID = 0x20 div 4"
definition L_VER :: nat where "L_VER = 0x30 div 4"
definition L_TPR :: nat where "L_TPR = 0x80 div 4"
definition L_EOI :: nat where "L_EOI = 0xB0 div 4"
definition L_SVR :: nat where "L_SVR = 0xF0 div 4"
definition L_ESR :: nat where "L_ESR = 0x280 div 4"
definition L_ICRLO :: nat where "L_ICRLO = 0x300 div 4"
definition L_ICRHI :: nat where "L_ICRHI = 0x310 div 4"
definition L_TIMER :: nat where "L_TIMER = 0x320 div 4"
definition L_PCINT :: nat where "L_PCINT = 0x340 div 4"
definition L_LINT0 :: nat where "L_LINT0 = 0x350 div 4"
definition L_LINT1 :: nat where "L_LINT1 = 0x360 div 4"
definition L_ERROR :: nat where "L_ERROR = 0x370 div 4"
definition L_TICR :: nat where "L_TICR = 0x380 div 4"
definition L_TDCR :: nat where "L_TDCR = 0x3E0 div 4"
definition IRQ_TIMER :: nat where "IRQ_TIMER = 0"
definition IRQ_KBD :: nat where "IRQ_KBD = 1"
definition IRQ_COM1 :: nat where "IRQ_COM1 = 4"
definition IRQ_IDE :: nat where "IRQ_IDE = 14"
definition IRQ_ERROR :: nat where "IRQ_ERROR = 19"
definition IRQ_SPURIOUS :: nat where "IRQ_SPURIOUS = 31"

definition lapicw :: "nat \<Rightarrow> u32 \<Rightarrow> 'a io_scheme \<Rightarrow> 'a io_scheme" where
  "lapicw i v s = s\<lparr>lapic_reg := (lapic_reg s)(i := v)\<rparr>"

definition lapicws :: "(nat \<times> u32) list \<Rightarrow> 'a io_scheme \<Rightarrow> 'a io_scheme" where
  "lapicws ws s = fold (\<lambda>(i, v). lapicw i v) ws s"

text \<open>
  The wait for \<open>DELIVS\<close> to clear spins forever when the register, as it reads after the
  write, still has the bit set; \<open>delivered\<close> is that reading.
\<close>

definition lapicinit :: "(u32 \<Rightarrow> u32) \<Rightarrow> 'a io_scheme \<Rightarrow> 'a io_scheme outcome" where
  "lapicinit delivered s =
     (if lapic s = 0 then Ret s
      else
        let s1 = lapicws [(L_SVR, 0x100 OR of_nat (TRAP_IRQ0 + IRQ_SPURIOUS)), (L_TDCR, 0xB),
                          (L_TIMER, 0x20000 OR of_nat (TRAP_IRQ0 + IRQ_TIMER)), (L_TICR, 10000000),
                          (L_LINT0, 0x10000), (L_LINT1, 0x10000)] s;
            s2 = (if 4 \<le> drop_bit 16 (lapic_reg s1 L_VER) AND 0xFF then lapicw L_PCINT 0x10000 s1 else s1);
            s3 = lapicws [(L_ERROR, of_nat (TRAP_IRQ0 + IRQ_ERROR)), (L_ESR, 0), (L_ESR, 0), (L_EOI, 0),
                          (L_ICRHI, 0), (L_ICRLO, 0x80000 OR 0x500 OR 0x8000)] s2
        in if delivered (lapic_reg s3 L_ICRLO) AND 0x1000 \<noteq> 0 then Fail Spin
           else Ret (lapicw L_TPR 0 s3))"

definition cpunum :: "'a io_scheme \<Rightarrow> nat outcome" where
  "cpunum s =
     (if lapic s = 0 then Ret 0
      else case find_idx (\<lambda>a. (ucast a :: u32) = drop_bit 24 (lapic_reg s L_ID)) (take (ncpu s) (apicids s)) of
             None \<Rightarrow> Fail (Panic ''unknown apicid'')
           | Some i \<Rightarrow> Ret i)"

definition lapiceoi :: "'a io_scheme \<Rightarrow> 'a io_scheme" where
  "lapiceoi s = (if lapic s \<noteq> 0 then lapicw L_EOI 0 s else s)"

definition phys_write16 :: "nat \<Rightarrow> u16 \<Rightarrow> 'a km_scheme \<Rightarrow> 'a km_scheme" where
  "phys_write16 a v s = put_bytes (a div 4096) (a mod 4096) [ucast v, ucast (drop_bit 8 v)] s"

definition lapicstartap :: "u8 \<Rightarrow> u32 \<Rightarrow> 'a io_scheme \<Rightarrow> 'a io_scheme" where
  "lapicstartap apicid addr s =
     (let s1 = outbs [(0x70, 0xF), (0x71, 0x0A)] s;
          s2 = phys_write16 0x469 (ucast (drop_bit 4 addr)) (phys_write16 0x467 0 s1);
          hi = push_bit 24 (ucast apicid)
      in lapicws [(L_ICRHI, hi), (L_ICRLO, 0x500 OR 0x8000 OR 0x4000), (L_ICRLO, 0x500 OR 0x8000),
                  (L_ICRHI, hi), (L_ICRLO, 0x600 OR drop_bit 12 addr),
                  (L_ICRHI, hi), (L_ICRLO, 0x600 OR drop_bit 12 addr)] s2)"

definition cmos_read :: "u8 \<Rightarrow> 'a io_scheme \<Rightarrow> u32 \<times> 'a io_scheme" where
  "cmos_read r s = (ucast (cmos s (cmos_clock s) r), (outb 0x70 r s)\<lparr>cmos_clock := Suc (cmos_clock s)\<rparr>)"

definition fill_rtcdate :: "'a io_scheme \<Rightarrow> rtcdate \<times> 'a io_scheme" where
  "fill_rtcdate s =
     (let (sec, s1) = cmos_read 0x00 s;
          (mins, s2) = cmos_read 0x02 s1;
          (hrs, s3) = cmos_read 0x04 s2;
          (d, s4) = cmos_read 0x07 s3;
          (mo, s5) = cmos_read 0x08 s4;
          (y, s6) = cmos_read 0x09 s5
      in (\<lparr>second = sec, minute = mins, hour = hrs, day = d, month = mo, year = y\<rparr>, s6))"

text \<open>The read-until-stable loop of \<open>cmostime\<close>; nothing bounds it.\<close>

partial_function (option) cmos_stable :: "'a io_scheme \<Rightarrow> (rtcdate \<times> 'a io_scheme) option" where
  "cmos_stable s =
     (let (t1, s1) = fill_rtcdate s;
          (a, s2) = cmos_read 0x0a s1
      in if a AND 0x80 \<noteq> 0 then cmos_stable s2
         else let (t2, s3) = fill_rtcdate s2
           in if t1 = t2 then Some (t1, s3) else cmos_stable s3)"

definition CONV :: "u32 \<Rightarrow> u32" where
  "CONV x = drop_bit 4 x * 10 + (x AND 0xf)"

definition cmostime :: "'a io_scheme \<Rightarrow> (rtcdate \<times> 'a io_scheme) option" where
  "cmostime s =
     (let (sb, s1) = cmos_read 0x0b s;
          bcd = (sb AND 4 = 0)
      in case cmos_stable s1 of
           None \<Rightarrow> None
         | Some (t1, s2) \<Rightarrow>
             let r = (if bcd then \<lparr>second = CONV (second t1), minute = CONV (minute t1), hour = CONV (hour t1),
                                   day = CONV (day t1), month = CONV (month t1), year = CONV (year t1)\<rparr> else t1)
             in Some (r\<lparr>year := year r + 2000\<rparr>, s2))"

end
