(* ===== verification/Ide.thy ===== *)
theory Ide
  imports Io
begin

text \<open>
  \<open>kernel/ide.c\<close>: the disk driver.  The disk is \<open>disk d b\<close>, the contents of sector
  \<open>b\<close> of drive \<open>d\<close>; the drive acts on the sector that its registers (the last bytes written
  to ports 0x1f3 to 0x1f6) select.  Buffers are named by their index in \<open>bcache.buf\<close>.

  A process that waits for the disk sleeps until the driver's interrupt handler wakes it.
  \<open>sleep_until\<close> is that part of its life when no other process runs in between: the switch to
  the scheduler, the interrupt taken while the scheduler has interrupts enabled, and the switch
  back.
\<close>

record buf =
  B_VALID :: bool
  B_DIRTY :: bool
  dev :: u32
  blockno :: u32
  refcnt :: u32
  bdata :: "u8 list"

record bc = io +
  disk :: "nat \<Rightarrow> nat \<Rightarrow> u8 list"
  bufs :: "buf list"
  idequeue :: "nat list"
  havedisk1 :: bool
  bmru :: "nat list"
  num_disk_reads :: int
  crashn_enable :: bool
  crashn :: int

definition BSIZE :: nat where "BSIZE = 512"

definition buf_upd :: "nat \<Rightarrow> (buf \<Rightarrow> buf) \<Rightarrow> 'a bc_scheme \<Rightarrow> 'a bc_scheme" where
  "buf_upd b f s = s\<lparr>bufs := (bufs s)[b := f (bufs s ! b)]\<rparr>"

section \<open>Waiting for an interrupt\<close>

definition sleep_until ::
  "('a ps_scheme \<Rightarrow> 'a ps_scheme outcome) \<Rightarrow> chan \<Rightarrow> lock_id \<Rightarrow> 'a ps_scheme \<Rightarrow> 'a ps_scheme outcome" where
  "sleep_until intr c lk s =
     obind (sleep_switch c lk s) (\<lambda>s1.
       obind (myproc s1) (\<lambda>i.
         obind (release PtableLock ((vspaceinstallkern s1)\<lparr>curproc := None\<rparr>)) (\<lambda>s2.
           obind (intr (s2\<lparr>eflags_IF := False\<rparr>)) (\<lambda>s3.
             obind (acquire PtableLock (s3\<lparr>eflags_IF := True\<rparr>)) (\<lambda>s4.
               if state (ptable s4 ! i) \<noteq> RUNNABLE then Fail Blocked
               else obind (procinstall i (s4\<lparr>curproc := Some i\<rparr>)) (\<lambda>s5.
                 sleep_resume (intena s1) lk (proc_upd i (\<lambda>p. p\<lparr>state := RUNNING\<rparr>) s5)))))))"

section \<open>The drive\<close>

text \<open>The sector and the drive that the registers select.\<close>

definition sel_sector :: "'a io_scheme \<Rightarrow> nat" where
  "sel_sector s = unat (latch 0x1f3 s) + 2 ^ 8 * unat (latch 0x1f4 s) + 2 ^ 16 * unat (latch 0x1f5 s)
     + 2 ^ 24 * unat (latch 0x1f6 s AND 0x0f)"

definition sel_drive :: "'a io_scheme \<Rightarrow> nat" where
  "sel_drive s = (if bit (latch 0x1f6 s) 4 then 1 else 0)"

text \<open>The data port: words written go to the selected sector, words read come from it.\<close>

definition outsl :: "u8 list \<Rightarrow> 'a bc_scheme \<Rightarrow> 'a bc_scheme" where
  "outsl bs s = s\<lparr>disk := (disk s)(sel_drive s := (disk s (sel_drive s))(sel_sector s := bs))\<rparr>"

definition insl :: "'a bc_scheme \<Rightarrow> u8 list" where
  "insl s = disk s (sel_drive s) (sel_sector s)"

section \<open>The driver\<close>

text \<open>
  The status register keeps its value while the loop of \<open>idewait\<close> reads it: a drive that is
  not ready is waited for without end.
\<close>

definition idewait :: "bool \<Rightarrow> 'a io_scheme \<Rightarrow> int outcome" where
  "idewait checkerr s =
     (let r = inb 0x1f7 s
      in if r AND (0x80 OR 0x40) \<noteq> 0x40 then Fail Spin
         else if checkerr \<and> r AND (0x20 OR 0x01) \<noteq> 0 then Ret (- 1)
         else Ret 0)"

definition ideinit :: "'a bc_scheme \<Rightarrow> 'a bc_scheme outcome" where
  "ideinit s =
     (let s1 = ioapicenable IRQ_IDE (ncpu s - 1) (picenable IRQ_IDE (initlock IdeLock ''ide'' s))
      in obind (idewait False s1) (\<lambda>_.
           let s2 = outb 0x1f6 (0xe0 OR push_bit 4 1) s1;
               s3 = (if inb 0x1f7 s2 \<noteq> 0 then s2\<lparr>havedisk1 := True\<rparr> else s2)
           in Ret (outb 0x1f6 (0xe0 OR push_bit 4 0) s3)))"

definition idestart :: "nat \<Rightarrow> 'a bc_scheme \<Rightarrow> 'a bc_scheme outcome" where
  "idestart b s =
     (let bf = bufs s ! b;
          sector = blockno bf
      in if of_nat FSSIZE \<le> blockno bf then Fail (Panic ''incorrect blockno'')
         else obind (idewait False s) (\<lambda>_.
           let s1 = outbs
                 [(0x3f6, 0), (0x1f2, 1),
                  (0x1f3, ucast (sector AND 0xff)),
                  (0x1f4, ucast (drop_bit 8 sector AND 0xff)),
                  (0x1f5, ucast (drop_bit 16 sector AND 0xff)),
                  (0x1f6, 0xe0 OR push_bit 4 (ucast (dev bf AND 1)) OR ucast (drop_bit 24 sector AND 0x0f))] s
           in if B_DIRTY bf then Ret (outsl (bdata bf) (outb 0x1f7 0x30 s1))
              else Ret (outb 0x1f7 0x20 s1)))"

definition ideintr :: "'a bc_scheme \<Rightarrow> 'a bc_scheme outcome" where
  "ideintr s =
     obind (acquire IdeLock s) (\<lambda>s1. case idequeue s1 of
       [] \<Rightarrow> release IdeLock s1
     | b # q \<Rightarrow>
         let s2 = s1\<lparr>idequeue := q\<rparr>
         in obind (if \<not> B_DIRTY (bufs s2 ! b)
                   then omap (\<lambda>r. if 0 \<le> r then buf_upd b (\<lambda>bf. bf\<lparr>bdata := insl s2\<rparr>) s2 else s2) (idewait True s2)
                   else Ret s2) (\<lambda>s3.
              obind (wakeup (BufChan b) (buf_upd b (\<lambda>bf. bf\<lparr>B_VALID := True, B_DIRTY := False\<rparr>) s3)) (\<lambda>s4.
                obind (if idequeue s4 \<noteq> [] then idestart (hd (idequeue s4)) s4 else Ret s4)
                  (release IdeLock))))"

text \<open>
  The wait in \<open>iderw\<close>: one interrupt finishes one request, so a request is done after as many
  interrupts as there are requests up to it in the queue.
\<close>

primrec iderw_wait :: "nat \<Rightarrow> nat \<Rightarrow> 'a bc_scheme \<Rightarrow> 'a bc_scheme outcome" where
  "iderw_wait 0 b s = (if B_VALID (bufs s ! b) \<and> \<not> B_DIRTY (bufs s ! b) then Ret s else Fail Blocked)"
| "iderw_wait (Suc n) b s =
     (if B_VALID (bufs s ! b) \<and> \<not> B_DIRTY (bufs s ! b) then Ret s
      else obind (sleep_until ideintr (BufChan b) IdeLock s) (iderw_wait n b))"

definition iderw :: "nat \<Rightarrow> 'a bc_scheme \<Rightarrow> 'a bc_scheme outcome" where
  "iderw b s =
     obind (holdingsleep (BufSL b) s) (\<lambda>(h, s0).
       if \<not> h then Fail (Panic ''iderw: buf not locked'')
       else if B_VALID (bufs s0 ! b) \<and> \<not> B_DIRTY (bufs s0 ! b) then Fail (Panic ''iderw: nothing to do'')
       else if dev (bufs s0 ! b) \<noteq> 0 \<and> \<not> havedisk1 s0 then Fail (Panic ''iderw: ide disk 1 not present'')
       else obind (acquire IdeLock s0) (\<lambda>s1.
         if b \<in> set (idequeue s1) then Fail (BadAccess ''buffer queued twice'')
         else
           let s2 = s1\<lparr>idequeue := idequeue s1 @ [b]\<rparr>
           in obind (if idequeue s1 = [] then idestart b s2 else Ret s2) (\<lambda>s3.
                obind (iderw_wait (length (idequeue s3)) b s3) (release IdeLock))))"

section \<open>Sleeping and waking\<close>

lemma proc_upd_simps [simp]:
  "curproc (proc_upd i f s) = curproc s" "nextpid (proc_upd i f s) = nextpid s" "initproc (proc_upd i f s) = initproc s"
  by (simp_all add: proc_upd_def)

text \<open>The processor after \<open>lk\<close>, held as the only lock by \<open>s\<close>, is released.\<close>

definition let_go :: "lock_id \<Rightarrow> 'a hw_scheme \<Rightarrow> 'a hw_scheme" where
  "let_go lk s = s\<lparr>spin := (spin s)(lk := (spin s lk)\<lparr>locked := False, lcpu := None\<rparr>)\<rparr>"

definition sole_lock :: "lock_id \<Rightarrow> 'a hw_scheme \<Rightarrow> bool" where
  "sole_lock lk s \<longleftrightarrow> holding lk s \<and> ncli s = 1 \<and> \<not> eflags_IF s"

lemma release_sole:
  "sole_lock lk s \<Longrightarrow> release lk s = Ret (put_hw ((let_go lk s)\<lparr>ncli := 0, eflags_IF := intena s\<rparr>) s)"
  by (auto simp: sole_lock_def release_def popcli_def let_go_def put_hw_def Let_def intro!: hw.equality)

definition slept :: "nat \<Rightarrow> chan \<Rightarrow> 'a ps_scheme \<Rightarrow> 'a ps_scheme" where
  "slept i c s = proc_upd i (\<lambda>p. p\<lparr>chan := c, state := SLEEPING, pcontext := \<lparr>c_rip = Resumed\<rparr>\<rparr>) s"

lemma sleep_switch_eq:
  assumes "sole_lock lk s" "unheld PtableLock s" "lk \<noteq> PtableLock" "curproc s = Some i" "i < length (ptable s)"
  shows "sleep_switch c lk s = Ret (put_hw (let_go lk (enter PtableLock s)\<lparr>ncli := 1\<rparr>) (slept i c s))"
proof -
  let ?e = "enter PtableLock s"
  let ?h = "(let_go lk ?e)\<lparr>ncli := 1\<rparr>"
  have "holding lk ?e" "ncli ?e = 2" "\<not> eflags_IF ?e"
    using assms(1,3) by (simp_all add: enter_def holding_def sole_lock_def)
  then have r: "release lk ?e = Ret ?h" by (simp add: release_def popcli_def let_go_def)
  have h: "?h = put_hw ?h s" by (simp add: enter_def let_go_def put_hw_def)
  have "sched_hw ?h" using assms(3) by (simp add: sched_hw_def let_go_def holding_def enter_def)
  then have sh: "sched_hw (put_hw ?h u)" for u by (simp add: sched_hw_def holding_def)
  have "sched (proc_upd i (\<lambda>p. p\<lparr>chan := c, state := SLEEPING\<rparr>) (put_hw ?h s)) = Ret (put_hw ?h (slept i c s))"
    using assms(4,5) sh by (subst sched_ok [of _ i]) (simp_all add: slept_def proc_upd_twice)
  then show ?thesis
    using assms r h by (simp add: sleep_switch_unfold acquire_enter)
qed


text \<open>Switching back to process \<open>i\<close>, which finds itself running again.\<close>

definition woken :: "nat \<Rightarrow> 'a ps_scheme \<Rightarrow> 'a ps_scheme" where
  "woken i s = (proc_upd i (\<lambda>p. p\<lparr>state := RUNNING, chan := NoChan\<rparr>) s)\<lparr>curproc := Some i,
     ts_rsp0 := kstack (ptable s ! i) + KSTACKSIZE, cr3 := V2P (pgtbl (vspace (ptable s ! i)))\<rparr>"

text \<open>The state in which the interrupt arrives.\<close>

definition asleep :: "nat \<Rightarrow> chan \<Rightarrow> lock_id \<Rightarrow> 'a ps_scheme \<Rightarrow> 'a ps_scheme" where
  "asleep i c lk s = put_hw ((let_go lk s)\<lparr>ncli := 0, eflags_IF := False\<rparr>) ((vspaceinstallkern (slept i c s))\<lparr>curproc := None\<rparr>)"

lemma sleep_until_eq:
  assumes "sole_lock lk s" "unheld PtableLock s" "lk \<noteq> PtableLock" "curproc s = Some i" "i < length (ptable s)"
    and v: "intr (asleep i c lk s) = Ret v" "same_hw v (settle (asleep i c lk s))"
    and p: "i < length (ptable v)" "state (ptable v ! i) = RUNNABLE" "kstack (ptable v ! i) \<noteq> 0" "pgtbl (vspace (ptable v ! i)) \<noteq> 0"
  shows "sleep_until intr c lk s = Ret (put_hw s (woken i v))"
proof -
  let ?h1 = "(let_go lk (enter PtableLock s))\<lparr>ncli := 1\<rparr>"
  let ?u = "(vspaceinstallkern (slept i c s))\<lparr>curproc := None\<rparr>"
  have s1: "sleep_switch c lk s = Ret (put_hw ?h1 (slept i c s))" using assms(1-5) by (rule sleep_switch_eq)
  have u: "(vspaceinstallkern (put_hw ?h1 (slept i c s)))\<lparr>curproc := None\<rparr> = put_hw ?h1 ?u"
    by (simp add: vspaceinstallkern_def put_hw_def)
  have sl: "sole_lock PtableLock (put_hw ?h1 ?u)"
    using assms(3) by (simp add: sole_lock_def let_go_def holding_def enter_def)
  have gone: "let_go PtableLock (put_hw ?h1 ?u) = put_hw ((let_go lk s)\<lparr>eflags_IF := False, ncli := 1\<rparr>) ?u"
    using assms(1-3) by (auto simp: let_go_def put_hw_def enter_def sole_lock_def unheld_def intro!: hw.equality)
  have r2: "release PtableLock (put_hw ?h1 ?u) = Ret (put_hw ((let_go lk s)\<lparr>ncli := 0, eflags_IF := intena s\<rparr>) ?u)"
    using release_sole [OF sl] assms(1) unfolding gone
    by (simp add: put_hw_def let_go_def enter_def sole_lock_def)
  have a: "(put_hw ((let_go lk s)\<lparr>ncli := 0, eflags_IF := intena s\<rparr>) ?u)\<lparr>eflags_IF := False\<rparr> = asleep i c lk s"
    by (simp add: asleep_def put_hw_def)
  have hv: "ncli v = 0" "spin v = spin (let_go lk s)"
    using v(2) by (simp_all add: same_hw_def asleep_def)
  let ?v4 = "enter PtableLock (v\<lparr>eflags_IF := True\<rparr>)"
  have acq: "acquire PtableLock (v\<lparr>eflags_IF := True\<rparr>) = Ret ?v4"
    using assms(2,3) hv by (intro acquire_enter) (simp add: unheld_def let_go_def)
  let ?w = "?v4\<lparr>curproc := Some i, ts_rsp0 := kstack (ptable v ! i) + KSTACKSIZE, cr3 := V2P (pgtbl (vspace (ptable v ! i)))\<rparr>"
  have inst: "procinstall i (?v4\<lparr>curproc := Some i\<rparr>) = Ret ?w"
    using p hv by (subst procinstall_inside) (simp_all add: enter_def)
  let ?x = "proc_upd i (\<lambda>q. q\<lparr>chan := NoChan\<rparr>) (sched_resume (intena s) (proc_upd i (\<lambda>p. p\<lparr>state := RUNNING\<rparr>) ?w))"
  let ?hx = "(let_go lk s)\<lparr>ncli := 1, eflags_IF := False, spin := (spin (let_go lk s))(PtableLock := (spin s PtableLock)\<lparr>locked := True, lcpu := Some mycpu\<rparr>)\<rparr>"
  have x: "?x = put_hw ?hx (woken i v)"
    using p(1) hv assms(3)
    by (auto simp: woken_def sched_resume_def proc_upd_def enter_def put_hw_def let_go_def intro!: hw.equality)
  have "sole_lock PtableLock ?hx" by (simp add: sole_lock_def holding_def)
  then have slx: "sole_lock PtableLock (put_hw ?hx t)" for t by (simp add: sole_lock_def holding_def)
  have rx: "release PtableLock ?x = Ret (put_hw ((let_go lk s)\<lparr>ncli := 0, eflags_IF := intena s\<rparr>) (woken i v))"
    unfolding x using release_sole [OF slx] assms(2)
    by (auto simp: put_hw_def let_go_def unheld_def intro!: hw.equality)
  have "acquire lk (put_hw ((let_go lk s)\<lparr>ncli := 0, eflags_IF := intena s\<rparr>) (woken i v)) = Ret (put_hw s (woken i v))"
    using assms(1) by (subst acquire_enter)
      (auto simp: unheld_def let_go_def sole_lock_def holding_def enter_def put_hw_def intro!: hw.equality)
  moreover have "myproc (put_hw ?h1 (slept i c s)) = Ret i" using assms(4) by (simp add: myproc_def slept_def)
  moreover have "intena (put_hw ?h1 (slept i c s)) = intena s" using assms(1) by (simp add: let_go_def enter_def sole_lock_def)
  ultimately show ?thesis
    using s1 u r2 a v(1) acq inst rx p assms(3)
    by (simp add: sleep_until_def sleep_resume_def Let_def) (simp add: myproc_def proc_upd_def sched_resume_def)
qed


section \<open>Addressing the drive\<close>

lemma latch_outb: "latch p (outb q v s) = (if p = q then v else latch p s)"
  by (simp add: latch_def outb_def)

lemma outbs_Cons [simp]: "outbs [] s = s" "outbs ((p, v) # ws) s = outbs ws (outb p v s)"
  by (simp_all add: outbs_def)

definition ide_regs :: "buf \<Rightarrow> (u16 \<times> u8) list" where
  "ide_regs bf =
     [(0x3f6, 0), (0x1f2, 1),
      (0x1f3, ucast (blockno bf AND 0xff)),
      (0x1f4, ucast (drop_bit 8 (blockno bf) AND 0xff)),
      (0x1f5, ucast (drop_bit 16 (blockno bf) AND 0xff)),
      (0x1f6, 0xe0 OR push_bit 4 (ucast (dev bf AND 1)) OR ucast (drop_bit 24 (blockno bf) AND 0x0f))]"

lemma nat_bytes: "(n :: nat) < 2 ^ 28 \<Longrightarrow>
    n mod 256 + 256 * (n div 256 mod 256) + 65536 * (n div 65536 mod 256) + 16777216 * (n div 16777216 mod 16) = n"
proof -
  assume n: "n < 2 ^ 28"
  have d: "n div 65536 = n div 256 div 256" "n div 16777216 = n div 256 div 256 div 256"
    by (simp_all flip: div_mult2_eq)
  have "n = n mod (256 * (256 * (256 * 16)))" using n by simp
  also have "\<dots> = 256 * (256 * (256 * (n div 256 div 256 div 256 mod 16) + n div 256 div 256 mod 256)
      + n div 256 mod 256) + n mod 256"
    by (simp only: mod_mult2_eq)
  finally have e: "\<dots> = n" by (rule sym)
  have "256 * (256 * (256 * a + b) + c) + e = e + 256 * c + 65536 * b + 16777216 * a" for a b c e :: nat by simp
  with e show ?thesis unfolding d by (simp only:)
qed

lemma unat_drop: "unat (drop_bit k (x :: u32)) = unat x div 2 ^ k"
proof -
  have "unat (drop_bit k x) = drop_bit k (unat x)" by (rule bit_eqI) (auto simp: bit_simps dest: bit_imp_le_length)
  then show ?thesis by (simp add: drop_bit_eq_div)
qed

lemma unat_byte: "unat (ucast (drop_bit k (x :: u32) AND 0xff) :: u8) = unat x div 2 ^ k mod 256"
proof -
  have "(0xff :: u32) = mask 8" by (simp add: mask_eq_exp_minus_1)
  then have "drop_bit k x AND 0xff = take_bit 8 (drop_bit k x)" by (simp add: take_bit_eq_mask)
  then have "unat (ucast (drop_bit k x AND 0xff) :: u8) = unat (drop_bit k x) mod 256"
    by (simp only: unsigned_ucast_eq) (simp add: take_bit_eq_mod unat_mod)
  then show ?thesis by (simp only: unat_drop)
qed

lemma unat_nibble: "unat (ucast (drop_bit k (x :: u32) AND 0x0f) :: u8) = unat x div 2 ^ k mod 16"
proof -
  have "(0x0f :: u32) = mask 4" by (simp add: mask_eq_exp_minus_1)
  then have "drop_bit k x AND 0x0f = take_bit 4 (drop_bit k x)" by (simp add: take_bit_eq_mask)
  then have "unat (ucast (drop_bit k x AND 0x0f) :: u8) = unat (drop_bit k x) mod 16"
    by (simp only: unsigned_ucast_eq) (simp add: take_bit_eq_mod unat_mod)
  then show ?thesis by (simp only: unat_drop)
qed

lemma drive_byte_bit:
  fixes d n :: u32
  shows "bit (0xe0 OR push_bit 4 (ucast (d AND 1)) OR ucast (drop_bit 24 n AND 0x0f) :: u8) k \<longleftrightarrow>
    5 \<le> k \<and> k < 8 \<or> k = 4 \<and> bit d 0 \<or> k < 4 \<and> bit n (24 + k)"
proof -
  have m: "(0xe0 :: u8) = push_bit 5 (mask 3)" "(0x0f :: u32) = mask 4" "(1 :: u32) = mask 1"
    by (simp_all add: mask_eq_exp_minus_1 push_bit_eq_mult)
  have "bit (0xe0 :: u8) k \<longleftrightarrow> 5 \<le> k \<and> k < 8"
    unfolding m(1) by (simp only: bit_push_bit_iff bit_mask_iff) (auto dest: bit_imp_le_length)
  moreover have "bit (push_bit 4 (ucast (d AND 1)) :: u8) k \<longleftrightarrow> k = 4 \<and> bit d 0"
    unfolding m(3) by (simp only: bit_push_bit_iff bit_and_iff bit_mask_iff bit_unsigned_iff) auto
  moreover have "bit (ucast (drop_bit 24 n AND 0x0f) :: u8) k \<longleftrightarrow> k < 4 \<and> bit n (24 + k)"
    unfolding m(2) by (simp only: bit_and_iff bit_mask_iff bit_unsigned_iff bit_drop_bit_eq) auto
  ultimately show ?thesis by (simp only: bit_or_iff disj_assoc)
qed

lemma drive_byte:
  fixes d n :: u32
  defines "r \<equiv> 0xe0 OR push_bit 4 (ucast (d AND 1)) OR ucast (drop_bit 24 n AND 0x0f) :: u8"
  shows "r AND 0x0f = ucast (drop_bit 24 n AND 0x0f)" "bit r 4 = bit d 0"
proof -
  have m: "(0x0f :: u8) = mask 4" "(0x0f :: u32) = mask 4" by (simp_all add: mask_eq_exp_minus_1)
  have "bit (r AND 0x0f) k = bit (ucast (drop_bit 24 n AND 0x0f) :: u8) k" for k
    unfolding bit_and_iff r_def drive_byte_bit unfolding m
    by (simp only: bit_and_iff bit_mask_iff bit_unsigned_iff bit_drop_bit_eq) auto
  then show "r AND 0x0f = ucast (drop_bit 24 n AND 0x0f)" by (intro bit_word_eqI) simp
  show "bit r 4 = bit d 0" unfolding r_def drive_byte_bit by simp
qed

lemma sel_regs:
  assumes "blockno bf < of_nat FSSIZE"
  shows "sel_sector (outb 0x1f7 c (outbs (ide_regs bf) s)) = unat (blockno bf)"
    "sel_drive (outb 0x1f7 c (outbs (ide_regs bf) s)) = unat (dev bf AND 1)"
proof -
  have "unat (blockno bf) < 2 ^ 28" using assms by (simp add: word_less_nat_alt FSSIZE_def)
  moreover from this have "unat (blockno bf) div 16777216 mod 16 = unat (blockno bf) div 16777216"
    by (intro mod_less) (simp add: less_mult_imp_div_less)
  ultimately show "sel_sector (outb 0x1f7 c (outbs (ide_regs bf) s)) = unat (blockno bf)"
    using unat_byte [of 0 "blockno bf"] nat_bytes [of "unat (blockno bf)"]
    by (simp add: sel_sector_def ide_regs_def latch_outb drive_byte(1) unat_byte unat_nibble)
  have "unat (dev bf AND 1) = (if bit (dev bf) 0 then 1 else 0)"
    by (simp add: and_one_eq odd_iff_mod_2_eq_one bit_0)
  then show "sel_drive (outb 0x1f7 c (outbs (ide_regs bf) s)) = unat (dev bf AND 1)"
    by (simp add: sel_drive_def ide_regs_def latch_outb drive_byte(2))
qed



section \<open>One request\<close>

definition drive_ready :: "'a io_scheme \<Rightarrow> bool" where
  "drive_ready s \<longleftrightarrow> inb 0x1f7 s AND 0xC0 = 0x40 \<and> inb 0x1f7 s AND 0x21 = 0"

lemma idewait_ready: "drive_ready s \<Longrightarrow> idewait c s = Ret 0"
  by (simp add: drive_ready_def idewait_def Let_def)

lemma bc_put_hw [simp]:
  "bufs (put_hw h s) = bufs s" "idequeue (put_hw h s) = idequeue s" "disk (put_hw h s) = disk s"
  "havedisk1 (put_hw h s) = havedisk1 s" "outs (put_hw h s) = outs s" "port_in (put_hw h s) = port_in s"
  "bmru (put_hw h s) = bmru s"
  by (simp_all add: put_hw_def)

lemma bc_settle [simp]:
  "bufs (settle s) = bufs s" "idequeue (settle s) = idequeue s" "disk (settle s) = disk s" "outs (settle s) = outs s"
  "havedisk1 (settle s) = havedisk1 s" "port_in (settle s) = port_in s" "bmru (settle s) = bmru s"
  by (simp_all add: settle_def)

lemma bc_enter [simp]:
  "bufs (enter l s) = bufs s" "idequeue (enter l s) = idequeue s" "disk (enter l s) = disk s" "outs (enter l s) = outs s"
  "havedisk1 (enter l s) = havedisk1 s" "port_in (enter l s) = port_in s" "bmru (enter l s) = bmru s"
  by (simp_all add: enter_def)

lemma bc_upd_put_hw [simp]:
  "buf_upd b f (put_hw h s) = put_hw h (buf_upd b f s)"
  "(put_hw h s)\<lparr>idequeue := q\<rparr> = put_hw h (s\<lparr>idequeue := q\<rparr>)"
  "insl (put_hw h s) = insl s"
  "outsl bs (put_hw h s) = put_hw h (outsl bs s)"
  by (simp_all add: buf_upd_def put_hw_def insl_def outsl_def sel_drive_def sel_sector_def latch_def)

lemma io_put_hw [simp]: "outb p v (put_hw h s) = put_hw h (outb p v s)" "inb p (put_hw h s) = inb p s"
  by (simp_all add: put_hw_def outb_def inb_def)

lemma outbs_put_hw [simp]: "outbs ws (put_hw h s) = put_hw h (outbs ws s)"
  by (induction ws arbitrary: s) auto

text \<open>The drive after a request for buffer \<open>b\<close> was issued, and the buffer when it is done.\<close>

definition issued :: "nat \<Rightarrow> 'a bc_scheme \<Rightarrow> 'a bc_scheme" where
  "issued b s =
     (let bf = bufs s ! b; s1 = outbs (ide_regs bf) s
      in if B_DIRTY bf then outsl (bdata bf) (outb 0x1f7 0x30 s1) else outb 0x1f7 0x20 s1)"

definition finished :: "u8 list \<Rightarrow> buf \<Rightarrow> buf" where
  "finished d bf = (if B_DIRTY bf then bf else bf\<lparr>bdata := d\<rparr>)\<lparr>B_VALID := True, B_DIRTY := False\<rparr>"

lemma idestart_eq:
  assumes "drive_ready s" "blockno (bufs s ! b) < of_nat FSSIZE"
  shows "idestart b s = Ret (issued b s)"
  using assms by (simp add: idestart_def issued_def ide_regs_def idewait_ready Let_def not_le)

lemma issued_put_hw [simp]: "issued b (put_hw h s) = put_hw h (issued b s)"
  by (simp add: issued_def Let_def)

lemma idestart_enter_ready [simp]:
  "drive_ready (put_hw h s) = drive_ready s" "drive_ready (t\<lparr>idequeue := q\<rparr>) = drive_ready t"
  "drive_ready (enter l u) = drive_ready u"
  by (simp_all add: drive_ready_def inb_def put_hw_def enter_def)

lemma ideintr_eq:
  assumes "cli_ok t" "unheld IdeLock t" "unheld PtableLock t" "idequeue t = [b]" "drive_ready t"
  shows "ideintr t = Ret (put_hw (settle t) (wakeup1 (BufChan b)
           (buf_upd b (finished (insl t)) (t\<lparr>idequeue := []\<rparr>))))"
proof -
  let ?e = "enter IdeLock t"
  let ?t = "t\<lparr>idequeue := []\<rparr>"
  have e: "?e\<lparr>idequeue := []\<rparr> = put_hw ?e ?t" by (subst enter_put_hw) simp
  have i: "insl ?t = insl t" by (simp add: insl_def sel_drive_def sel_sector_def latch_def)
  have b: "bufs ?t = bufs t" by simp
  have c: "cli_ok ?e" "unheld PtableLock ?e" "ncli ?e \<noteq> 0"
    using assms(1,3) by (simp_all add: cli_ok_enter unheld_enter_other) (simp add: enter_def cli_ok_def)
  let ?f = "buf_upd b (finished (insl t)) ?t"
  have w: "wakeup (BufChan b) (put_hw ?e ?f) = Ret (put_hw ?e (wakeup1 (BufChan b) ?f))"
    using c settle_inside [of "put_hw ?e ?f"] wakeup_eq [of "put_hw ?e ?f"] by simp
  have fin: "buf_upd b (\<lambda>bf. bf\<lparr>B_VALID := True, B_DIRTY := False\<rparr>)
      (if \<not> B_DIRTY (bufs t ! b) then buf_upd b (\<lambda>bf. bf\<lparr>bdata := insl t\<rparr>) ?t else ?t) = ?f"
    by (cases "b < length (bufs t)") (simp_all add: buf_upd_def finished_def list_update_beyond)
  have q: "idequeue (wakeup1 (BufChan b) ?f) = []" by (simp add: wakeup1_def buf_upd_def)
  have r: "release IdeLock (put_hw ?e (wakeup1 (BufChan b) ?f)) = Ret (put_hw (settle t) (put_hw ?e (wakeup1 (BufChan b) ?f)))"
    using assms(1,2) by (intro release_put_hw) simp_all
  have "ideintr t = obind (wakeup (BufChan b) (put_hw ?e ?f)) (\<lambda>s4.
          obind (if idequeue s4 \<noteq> [] then idestart (hd (idequeue s4)) s4 else Ret s4) (release IdeLock))"
    using assms(2,4,5) fin [symmetric]
    by (auto simp: ideintr_def acquire_enter e i idewait_ready)
  then show ?thesis using w r q by simp
qed


text \<open>What a process sees of its request for buffer \<open>b\<close>: the state after \<open>iderw\<close>.\<close>

definition transferred :: "nat \<Rightarrow> nat \<Rightarrow> 'a bc_scheme \<Rightarrow> 'a bc_scheme" where
  "transferred b i s =
     woken i (wakeup1 (BufChan b) (buf_upd b (finished (insl (issued b s)))
       ((vspaceinstallkern (slept i (BufChan b) (issued b s)))\<lparr>curproc := None, idequeue := []\<rparr>)))"

definition at_rest :: "'a ps_scheme \<Rightarrow> bool" where
  "at_rest s \<longleftrightarrow> ncli s = 0 \<and> (\<forall>l. unheld l s) \<and> curproc s \<noteq> None \<and> ptable_inv s \<and> live s"

lemma issued_ps [simp]:
  "ptable (issued b s) = ptable s" "curproc (issued b s) = curproc s" "bufs (issued b s) = bufs s"
  "idequeue (issued b s) = idequeue s" "port_in (issued b s) = port_in s" "same_hw (issued b s) t = same_hw s t"
  "slk (issued b s) = slk s" "havedisk1 (issued b s) = havedisk1 s"
  by (simp_all add: issued_def outsl_def outb_def outbs_def ide_regs_def Let_def same_hw_def)

lemma issued_idequeue [simp]: "issued b (s\<lparr>idequeue := q\<rparr>) = (issued b s)\<lparr>idequeue := q\<rparr>"
  by (simp add: issued_def outsl_def outb_def outbs_def ide_regs_def Let_def sel_drive_def sel_sector_def latch_def)

lemma iderw_eq:
  assumes rest: "at_rest s" and i: "curproc s = Some i" and drv: "drive_ready s" "idequeue s = []"
    and b: "b < length (bufs s)" "blockno (bufs s ! b) < of_nat FSSIZE" "dev (bufs s ! b) = 0 \<or> havedisk1 s"
      "\<not> (B_VALID (bufs s ! b) \<and> \<not> B_DIRTY (bufs s ! b))"
    and lk: "slocked (slk s (BufSL b))" "mypid s = Ret (spid (slk s (BufSL b)))"
  shows "iderw b s = Ret (put_hw (settle s) (transferred b i s))"
proof -
  have cli: "cli_ok s" and free: "unheld l s" for l using rest by (simp_all add: at_rest_def cli_ok_def)
  have inv: "ptable_inv s" "live s" and n: "ncli s = 0" using rest by (simp_all add: at_rest_def)
  have li: "i < length (ptable s)" using ptable_invD(1,3) [OF inv(1)] i by simp
  have run: "state (ptable s ! i) = RUNNING" using ptable_invD(2,3) [OF inv(1)] i by simp
  have kp: "kstack (ptable s ! i) \<noteq> 0" "pgtbl (vspace (ptable s ! i)) \<noteq> 0"
    using liveD [OF inv(2) ptable_invD(1) [OF inv(1)] ptable_invD(3) [OF inv(1) i]] run by simp_all
  have h: "holdingsleep (BufSL b) s = Ret (True, settle s)"
    using holdingsleep_eq [of "BufSL b" s "spid (slk s (BufSL b))"] lk cli free by (simp add: calm_def)
  let ?e = "enter IdeLock (settle s)"
  let ?s3 = "put_hw ?e ((issued b s)\<lparr>idequeue := [b]\<rparr>)"
  have pe: "?e = put_hw ?e s" by (simp add: enter_def settle_def put_hw_def)
  have e2: "?e\<lparr>idequeue := [b]\<rparr> = put_hw ?e (s\<lparr>idequeue := [b]\<rparr>)" by (subst pe) simp
  have s3: "idestart b (?e\<lparr>idequeue := [b]\<rparr>) = Ret ?s3"
    unfolding e2 using drv(1) b(2) by (subst idestart_eq) simp_all
  have sole: "sole_lock IdeLock ?s3" using n by (simp add: sole_lock_def holding_def) (simp add: enter_def)
  have up: "unheld PtableLock ?s3" using free by (simp add: unheld_enter_other)
  let ?a = "asleep i (BufChan b) IdeLock ?s3"
  let ?u = "((vspaceinstallkern (slept i (BufChan b) (issued b s)))\<lparr>curproc := None, idequeue := [b]\<rparr>)"
  have a: "?a = put_hw ?a ?u"
    by (simp add: asleep_def slept_def vspaceinstallkern_def proc_upd_def put_hw_def)
  have ha: "cli_ok ?a" "unheld IdeLock ?a" "unheld PtableLock ?a"
    using free by (simp_all add: asleep_def cli_ok_def let_go_def unheld_def enter_def put_hw_def)
  let ?v = "wakeup1 (BufChan b) (buf_upd b (finished (insl (issued b s))) (?u\<lparr>idequeue := []\<rparr>))"
  have ins: "insl ?a = insl (issued b s)"
    by (subst a) (simp add: insl_def sel_drive_def sel_sector_def latch_def vspaceinstallkern_def slept_def proc_upd_def)
  have aq: "?a\<lparr>idequeue := []\<rparr> = put_hw ?a (?u\<lparr>idequeue := []\<rparr>)"
    by (subst a) (rule bc_upd_put_hw)
  have "ideintr ?a = Ret (put_hw (settle ?a) (wakeup1 (BufChan b) (buf_upd b (finished (insl ?a)) (?a\<lparr>idequeue := []\<rparr>))))"
    using ha drv(1) by (intro ideintr_eq) (simp_all add: asleep_def vspaceinstallkern_def slept_def proc_upd_def drive_ready_def inb_def)
  then have v: "ideintr ?a = Ret (put_hw (settle ?a) ?v)"
    unfolding ins aq by simp
  have pv: "ptable ?v = (map (wake_proc (BufChan b)) (ptable s))[i := (ptable s ! i)\<lparr>chan := BufChan b, pcontext := \<lparr>c_rip = Resumed\<rparr>, state := RUNNABLE\<rparr>]"
    using li by (simp add: wakeup1_def buf_upd_def vspaceinstallkern_def slept_def proc_upd_def map_update wake_proc_def)
  have "sleep_until ideintr (BufChan b) IdeLock ?s3 = Ret (put_hw ?s3 (woken i (put_hw (settle ?a) ?v)))"
    using sole up i li v kp pv by (intro sleep_until_eq) simp_all
  moreover have "woken i (put_hw h t) = put_hw h (woken i t)" for h and t :: "'a bc_scheme"
    by (simp add: woken_def put_hw_def proc_upd_def)
  moreover have "?u\<lparr>idequeue := []\<rparr> = (vspaceinstallkern (slept i (BufChan b) (issued b s)))\<lparr>curproc := None, idequeue := []\<rparr>" by simp
  ultimately have w: "sleep_until ideintr (BufChan b) IdeLock ?s3 = Ret (put_hw ?e (transferred b i s))"
    by (simp add: transferred_def)
  have bt: "bufs (transferred b i s) ! b = finished (insl (issued b s)) (bufs s ! b)"
    using b(1) by (simp add: transferred_def woken_def wakeup1_def buf_upd_def vspaceinstallkern_def slept_def proc_upd_def)
  have "iderw_wait (Suc 0) b ?s3 = Ret (put_hw ?e (transferred b i s))"
    using w b(4) bt by (auto simp: finished_def)
  moreover have "release IdeLock (put_hw ?e (transferred b i s)) = Ret (put_hw (settle s) (put_hw ?e (transferred b i s)))"
    using cli free by (subst release_put_hw [of "settle s"]) simp_all
  ultimately show ?thesis
    using h b(3,4) drv(2) s3 free by (simp add: iderw_def acquire_enter del: iderw_wait.simps)
qed


section \<open>The effect of a request\<close>

text \<open>A process without what scheduling changes about it.\<close>

definition strip :: "proc \<Rightarrow> proc" where
  "strip p = p\<lparr>state := UNUSED, chan := NoChan, pcontext := \<lparr>c_rip = Resumed\<rparr>\<rparr>"

definition kmv where
  "kmv s = (npages s, pages_in_use s, pages_in_swap s, free_pages s, core_map s, use_lock s, kend s, rand_next s, mem s)"

text \<open>
  Two states that a block operation can connect: everything outside the disk, the buffer cache
  and the scheduling of processes is the same.
\<close>

definition bframe :: "'a bc_scheme \<Rightarrow> 'a bc_scheme \<Rightarrow> bool" where
  "bframe s s' \<longleftrightarrow>
     kmv s' = kmv s \<and> kpml4 s' = kpml4 s \<and> kdata s' = kdata s \<and>
     map strip (ptable s') = map strip (ptable s) \<and> curproc s' = curproc s \<and> nextpid s' = nextpid s \<and>
     initproc s' = initproc s \<and> ticks s' = ticks s \<and> port_in s' = port_in s \<and> havedisk1 s' = havedisk1 s \<and>
     crashn_enable s' = crashn_enable s \<and> crashn s' = crashn s \<and>
     (\<forall>l. (\<forall>b. l \<noteq> BufSL b) \<longrightarrow> slk s' l = slk s l) \<and> bc.more s' = bc.more s"

lemma bframe_refl [simp]: "bframe s s"
  by (simp add: bframe_def)

lemma bframe_trans: "bframe s t \<Longrightarrow> bframe t u \<Longrightarrow> bframe s u"
  by (simp add: bframe_def)

lemma strip_pid: "map strip ps = map strip qs \<Longrightarrow> i < length ps \<Longrightarrow>
    pid (ps ! i) = pid (qs ! i) \<and> fds (ps ! i) = fds (qs ! i) \<and> vspace (ps ! i) = vspace (qs ! i) \<and>
    tf (ps ! i) = tf (qs ! i) \<and> parent (ps ! i) = parent (qs ! i) \<and> killed (ps ! i) = killed (qs ! i)"
proof -
  assume m: "map strip ps = map strip qs" and i: "i < length ps"
  then have "length ps = length qs" by (metis length_map)
  then have "strip (ps ! i) = strip (qs ! i)" using m i by (metis nth_map)
  then show ?thesis by (cases "ps ! i"; cases "qs ! i") (simp add: strip_def)
qed

definition drive :: "buf \<Rightarrow> nat" where "drive bf = unat (dev bf AND 1)"
definition sector :: "buf \<Rightarrow> nat" where "sector bf = unat (blockno bf)"

definition disk_idle :: "'a bc_scheme \<Rightarrow> bool" where
  "disk_idle s \<longleftrightarrow> at_rest s \<and> drive_ready s \<and> idequeue s = [] \<and> havedisk1 s"

lemma disk_outbs [simp]: "disk (outb q v s) = disk s" "disk (outbs ws s) = disk s"
proof -
  show "disk (outb q v s) = disk s" for q v and s :: "'a bc_scheme" by (simp add: outb_def)
  then show "disk (outbs ws s) = disk s" by (induction ws arbitrary: s) auto
qed

lemma issued_disk:
  assumes "blockno (bufs s ! b) < of_nat FSSIZE"
  shows "disk (issued b s) = (if B_DIRTY (bufs s ! b)
      then (disk s)(drive (bufs s ! b) := (disk s (drive (bufs s ! b)))(sector (bufs s ! b) := bdata (bufs s ! b))) else disk s)"
    "\<not> B_DIRTY (bufs s ! b) \<Longrightarrow> insl (issued b s) = disk s (drive (bufs s ! b)) (sector (bufs s ! b))"
  by (simp_all add: issued_def Let_def outsl_def insl_def drive_def sector_def sel_regs [OF assms])

lemma at_rest_woken:
  assumes rest: "at_rest s" and i: "curproc s = Some i"
    and t: "ptable t = (map (wake_proc c) (ptable s))[i := (ptable s ! i)\<lparr>state := RUNNING, chan := NoChan, pcontext := k\<rparr>]"
      "curproc t = Some i" "nextpid t = nextpid s"
  shows "at_rest (put_hw (settle s) t)"
proof -
  have inv: "ptable_inv s" "live s" using rest by (simp_all add: at_rest_def)
  have li: "i < length (ptable s)" "length (ptable s) = NPROC" using ptable_invD(1,3) [OF inv(1)] i by simp_all
  have run: "state (ptable s ! i) = RUNNING" using ptable_invD(2,3) [OF inv(1)] i by simp
  have e: "ptable t ! j = (if j = i then (ptable s ! i)\<lparr>state := RUNNING, chan := NoChan, pcontext := k\<rparr> else wake_proc c (ptable s ! j))"
    if "j < NPROC" for j using that li by (simp add: t nth_list_update)
  have "ptable_inv t"
  proof (rule ptable_inv_ids [OF inv(1)])
    fix j assume j: "j < NPROC"
    show "pid (ptable t ! j) = pid (ptable s ! j)"
      "(state (ptable t ! j) = RUNNING) = (state (ptable s ! j) = RUNNING)"
      "state (ptable s ! j) = UNUSED \<Longrightarrow> state (ptable t ! j) = UNUSED"
      unfolding e [OF j] using run by (auto simp: wake_proc_def)
  qed (use i li t in simp_all)
  moreover have "live t"
  proof -
    have "kstack (ptable t ! j) \<noteq> 0 \<and> pgtbl (vspace (ptable t ! j)) \<noteq> 0"
      if "j < NPROC" "state (ptable t ! j) \<in> {RUNNABLE, RUNNING, SLEEPING}" for j
      using liveD [OF inv(2) li(2) that(1)] that(2) run unfolding e [OF that(1)]
      by (auto simp: wake_proc_def split: if_splits)
    moreover have "length (ptable t) = NPROC" using li by (simp add: t)
    ultimately show ?thesis unfolding live_def by (metis in_set_conv_nth)
  qed
  ultimately show ?thesis using rest t(2) by (simp add: at_rest_def live_def)
qed


lemma issued_frame [simp]:
  "kmv (issued b s) = kmv s" "kpml4 (issued b s) = kpml4 s" "kdata (issued b s) = kdata s" "nextpid (issued b s) = nextpid s"
  "initproc (issued b s) = initproc s" "ticks (issued b s) = ticks s" "crashn_enable (issued b s) = crashn_enable s"
  "crashn (issued b s) = crashn s" "bc.more (issued b s) = bc.more s" "bmru (issued b s) = bmru s"
  "num_disk_reads (issued b s) = num_disk_reads s"
  by (simp_all add: issued_def outsl_def outb_def outbs_def ide_regs_def Let_def kmv_def)

lemmas transferred_defs =
  transferred_def woken_def wakeup1_def buf_upd_def vspaceinstallkern_def slept_def proc_upd_def

lemma kmv_put_hw [simp]: "kmv (put_hw h s) = kmv s"
  by (simp add: kmv_def put_hw_def)

lemma kmv_transferred [simp]: "kmv (transferred b i s) = kmv s"
proof -
  have "kmv (transferred b i s) = kmv (issued b s)" by (simp add: transferred_defs kmv_def)
  then show ?thesis by simp
qed

lemma transferred_simps [simp]:
  "kpml4 (transferred b i s) = kpml4 s" "kdata (transferred b i s) = kdata s"
  "nextpid (transferred b i s) = nextpid s" "initproc (transferred b i s) = initproc s" "ticks (transferred b i s) = ticks s"
  "crashn_enable (transferred b i s) = crashn_enable s" "crashn (transferred b i s) = crashn s"
  "bc.more (transferred b i s) = bc.more s" "bmru (transferred b i s) = bmru s"
  "num_disk_reads (transferred b i s) = num_disk_reads s" "curproc (transferred b i s) = Some i"
  "slk (transferred b i s) = slk s" "port_in (transferred b i s) = port_in s" "havedisk1 (transferred b i s) = havedisk1 s"
  "idequeue (transferred b i s) = []" "disk (transferred b i s) = disk (issued b s)"
  "bufs (transferred b i s) = (bufs s)[b := finished (insl (issued b s)) (bufs s ! b)]"
  by (simp_all add: transferred_defs)

lemma transferred_ptable:
  "i < length (ptable s) \<Longrightarrow> ptable (transferred b i s) =
     (map (wake_proc (BufChan b)) (ptable s))[i := (ptable s ! i)\<lparr>state := RUNNING, chan := NoChan, pcontext := \<lparr>c_rip = Resumed\<rparr>\<rparr>]"
  by (cases "ptable s ! i") (simp add: transferred_defs map_update wake_proc_def)

lemma strip_simps [simp]:
  "strip (wake_proc c p) = strip p" "strip (p\<lparr>state := a, chan := d, pcontext := k\<rparr>) = strip p"
  by (cases p; simp add: strip_def wake_proc_def)+

lemma mypid_strip:
  assumes "map strip (ptable s') = map strip (ptable s)" "curproc s' = curproc s" "ptable_inv s"
  shows "mypid s' = mypid s"
proof (cases "curproc s")
  case (Some i)
  have "length (ptable s') = length (ptable s)" using assms(1) by (metis length_map)
  then have "i < length (ptable s')" using ptable_invD(1,3) [OF assms(3)] Some by simp
  then show ?thesis using strip_pid [OF assms(1)] Some assms(2) by (simp add: mypid_def myproc_def)
qed (use assms in \<open>simp add: mypid_def myproc_def\<close>)

lemma iderw_ok:
  assumes idle: "disk_idle s" and b: "b < length (bufs s)" "blockno (bufs s ! b) < of_nat FSSIZE"
      "\<not> (B_VALID (bufs s ! b) \<and> \<not> B_DIRTY (bufs s ! b))"
    and lk: "slocked (slk s (BufSL b))" "mypid s = Ret (spid (slk s (BufSL b)))"
  shows "\<exists>s'. iderw b s = Ret s' \<and> disk_idle s' \<and> bframe s s' \<and> slk s' = slk s \<and> bmru s' = bmru s \<and>
    num_disk_reads s' = num_disk_reads s \<and>
    bufs s' = (bufs s)[b := finished (disk s (drive (bufs s ! b)) (sector (bufs s ! b))) (bufs s ! b)] \<and>
    disk s' = (if B_DIRTY (bufs s ! b)
      then (disk s)(drive (bufs s ! b) := (disk s (drive (bufs s ! b)))(sector (bufs s ! b) := bdata (bufs s ! b))) else disk s)"
proof -
  have rest: "at_rest s" "drive_ready s" "idequeue s = []" "havedisk1 s" using idle by (simp_all add: disk_idle_def)
  obtain i where i: "curproc s = Some i" using rest(1) by (auto simp: at_rest_def)
  have li: "i < length (ptable s)" using rest(1) i ptable_invD(1,3) [of s] by (simp add: at_rest_def)
  let ?s' = "put_hw (settle s) (transferred b i s)"
  have eq: "iderw b s = Ret ?s'" using rest i b lk by (intro iderw_eq) simp_all
  have "at_rest ?s'"
    using rest(1) i by (rule at_rest_woken) (simp_all add: transferred_ptable [OF li])
  then have "disk_idle ?s'" using rest by (simp add: disk_idle_def drive_ready_def inb_def)
  moreover have "map strip (ptable ?s') = map strip (ptable s)"
    using li by (simp add: transferred_ptable map_update list_update_same_conv o_def)
  then have "bframe s ?s'" using i by (simp add: bframe_def) (simp add: put_hw_def)
  moreover have "finished (insl (issued b s)) (bufs s ! b) =
      finished (disk s (drive (bufs s ! b)) (sector (bufs s ! b))) (bufs s ! b)"
    using issued_disk(2) [OF b(2)] by (simp add: finished_def)
  ultimately show ?thesis using eq issued_disk(1) [OF b(2)] by (simp add: put_hw_def)
qed


end
