(* ===== verification/Bio.thy ===== *)
theory Bio
  imports Ide
begin

text \<open>
  \<open>kernel/bio.c\<close>: the buffer cache.  The doubly linked list through \<open>bcache.head\<close> is the
  list \<open>bmru\<close> of buffer numbers, the most recently used first.

  The cache refines a plain store of blocks: \<open>blk s d n\<close> is the contents of block \<open>n\<close> of
  device \<open>d\<close> that a reader gets, from a valid buffer or else from the disk.
\<close>

section \<open>Operations\<close>

definition binit :: "'a bc_scheme \<Rightarrow> 'a bc_scheme" where
  "binit s =
     fold (\<lambda>b s. (initsleeplock (BufSL b) ''buffer'' s)\<lparr>bmru := b # bmru s\<rparr>) [0..<NBUF]
       ((initlock BcacheLock ''bcache'' s)\<lparr>bmru := []\<rparr>)"

definition bcached :: "u32 \<Rightarrow> u32 \<Rightarrow> 'a bc_scheme \<Rightarrow> nat option" where
  "bcached d n s = find (\<lambda>i. dev (bufs s ! i) = d \<and> blockno (bufs s ! i) = n) (bmru s)"

definition brecycle :: "'a bc_scheme \<Rightarrow> nat option" where
  "brecycle s = find (\<lambda>i. refcnt (bufs s ! i) = 0 \<and> \<not> B_DIRTY (bufs s ! i)) (rev (bmru s))"

definition bget_section :: "u32 \<Rightarrow> u32 \<Rightarrow> 'a bc_scheme \<Rightarrow> (nat \<times> 'a bc_scheme) outcome" where
  "bget_section d n s =
     (case bcached d n s of
        Some i \<Rightarrow> Ret (i, buf_upd i (\<lambda>bf. bf\<lparr>refcnt := refcnt bf + 1\<rparr>) s)
      | None \<Rightarrow> (case brecycle s of
          None \<Rightarrow> Fail (Panic ''bget: no buffers'')
        | Some i \<Rightarrow> Ret (i, buf_upd i (\<lambda>bf. bf\<lparr>dev := d, blockno := n, B_VALID := False, B_DIRTY := False, refcnt := 1\<rparr>) s)))"

definition bget :: "u32 \<Rightarrow> u32 \<Rightarrow> 'a bc_scheme \<Rightarrow> (nat \<times> 'a bc_scheme) outcome" where
  "bget d n s =
     obind (with_lock BcacheLock (bget_section d n) s) (\<lambda>(i, s1).
       obind (acquiresleep (BufSL i) s1) (\<lambda>s2. Ret (i, s2)))"

definition bread :: "u32 \<Rightarrow> u32 \<Rightarrow> 'a bc_scheme \<Rightarrow> (nat \<times> 'a bc_scheme) outcome" where
  "bread d n s =
     obind (bget d n (s\<lparr>num_disk_reads := num_disk_reads s + 1\<rparr>)) (\<lambda>(b, s1).
       if \<not> B_VALID (bufs s1 ! b) then omap (\<lambda>s2. (b, s2)) (iderw b s1) else Ret (b, s1))"

definition bwrite :: "nat \<Rightarrow> 'a bc_scheme \<Rightarrow> 'a bc_scheme outcome" where
  "bwrite b s =
     (let s0 = (if crashn_enable s then s\<lparr>crashn := crashn s - 1\<rparr> else s)
      in if crashn_enable s \<and> crashn s0 < 0 then Fail Reboot
         else obind (holdingsleep (BufSL b) s0) (\<lambda>(h, s1).
           if \<not> h then Fail (Panic ''bwrite'')
           else iderw b (buf_upd b (\<lambda>bf. bf\<lparr>B_DIRTY := True\<rparr>) s1)))"

definition brelse_section :: "nat \<Rightarrow> 'a bc_scheme \<Rightarrow> (unit \<times> 'a bc_scheme) outcome" where
  "brelse_section b s =
     (let s1 = buf_upd b (\<lambda>bf. bf\<lparr>refcnt := refcnt bf - 1\<rparr>) s
      in Ret ((), if refcnt (bufs s1 ! b) = 0 then s1\<lparr>bmru := b # remove1 b (bmru s1)\<rparr> else s1))"

definition brelse :: "nat \<Rightarrow> 'a bc_scheme \<Rightarrow> 'a bc_scheme outcome" where
  "brelse b s =
     obind (holdingsleep (BufSL b) s) (\<lambda>(h, s1).
       if \<not> h then Fail (Panic ''brelse'')
       else obind (releasesleep (BufSL b) s1) (\<lambda>s2. omap snd (with_lock BcacheLock (brelse_section b) s2)))"

definition enable_crashn :: "int \<Rightarrow> 'a bc_scheme \<Rightarrow> 'a bc_scheme" where
  "enable_crashn n s = s\<lparr>crashn_enable := True, crashn := n\<rparr>"

section \<open>The cache as a block store\<close>

definition blk :: "'a bc_scheme \<Rightarrow> u32 \<Rightarrow> u32 \<Rightarrow> u8 list" where
  "blk s d n =
     (case bcached d n s of
        Some i \<Rightarrow> if B_VALID (bufs s ! i) then bdata (bufs s ! i) else disk s (unat d) (unat n)
      | None \<Rightarrow> disk s (unat d) (unat n))"

text \<open>
  The list is a permutation of the buffers; a buffer in use is the one that a lookup finds; an
  unused buffer is not locked; a dirty buffer is valid; a clean valid buffer that nobody works on
  agrees with the disk.
\<close>

definition live_buf :: "buf \<Rightarrow> bool" where
  "live_buf bf \<longleftrightarrow> B_VALID bf \<or> B_DIRTY bf \<or> refcnt bf \<noteq> 0"

definition buf_ok :: "'a bc_scheme \<Rightarrow> nat \<Rightarrow> bool" where
  "buf_ok s i \<longleftrightarrow>
     (let bf = bufs s ! i in
      (live_buf bf \<longrightarrow> bcached (dev bf) (blockno bf) s = Some i \<and> dev bf < 2 \<and> blockno bf < of_nat FSSIZE) \<and>
      (slocked (slk s (BufSL i)) \<longrightarrow> refcnt bf \<noteq> 0) \<and>
      (B_DIRTY bf \<longrightarrow> B_VALID bf) \<and>
      (B_VALID bf \<and> \<not> B_DIRTY bf \<and> \<not> slocked (slk s (BufSL i)) \<longrightarrow> bdata bf = disk s (unat (dev bf)) (unat (blockno bf))))"

definition cache_ok :: "'a bc_scheme \<Rightarrow> bool" where
  "cache_ok s \<longleftrightarrow>
     length (bufs s) = NBUF \<and> distinct (bmru s) \<and> set (bmru s) = {..<NBUF} \<and> (\<forall>i<NBUF. buf_ok s i)"


section \<open>Searching the list\<close>

lemma find_SomeD: "find P xs = Some x \<Longrightarrow> x \<in> set xs \<and> P x"
  by (induction xs) (auto split: if_splits)

lemma find_NoneD: "find P xs = None \<Longrightarrow> x \<in> set xs \<Longrightarrow> \<not> P x"
  by (simp add: find_None_iff)

lemma find_keep: "find P xs = Some j \<Longrightarrow> j \<noteq> i \<Longrightarrow> \<not> Q i \<Longrightarrow> (\<And>k. k \<noteq> i \<Longrightarrow> Q k = P k) \<Longrightarrow> find Q xs = Some j"
proof (induction xs)
  case (Cons a xs)
  then show ?case by (cases "a = i") (auto split: if_splits)
qed simp

lemma find_drop: "find Q xs = r \<Longrightarrow> \<not> Q i \<Longrightarrow> (\<And>k. k \<noteq> i \<Longrightarrow> Q k = P k) \<Longrightarrow> find P xs = r \<or> find P xs = Some i"
proof (induction xs)
  case (Cons a xs)
  then show ?case by (cases "a = i") (auto split: if_splits)
qed simp

lemma find_new: "find P xs = None \<Longrightarrow> i \<in> set xs \<Longrightarrow> Q i \<Longrightarrow> (\<And>k. k \<noteq> i \<Longrightarrow> Q k = P k) \<Longrightarrow> find Q xs = Some i"
proof (induction xs)
  case (Cons a xs)
  then show ?case by (cases "a = i") (auto split: if_splits)
qed simp

lemma bcachedD:
  assumes "cache_ok s" "bcached d n s = Some i"
  shows "i < NBUF" "dev (bufs s ! i) = d" "blockno (bufs s ! i) = n"
  using assms find_SomeD unfolding bcached_def cache_ok_def by fastforce+

lemma bcached_cong:
  assumes "bmru t = bmru s" "\<And>i. dev (bufs t ! i) = dev (bufs s ! i)" "\<And>i. blockno (bufs t ! i) = blockno (bufs s ! i)"
  shows "bcached d n t = bcached d n s"
  using assms by (simp add: bcached_def)

section \<open>Frames\<close>

lemma settle_put [simp]: "settle (put_hw h t) = put_hw (settle h) t"
  by (simp add: settle_def put_hw_def)

lemma at_rest_cong:
  assumes "at_rest s" "ptable t = ptable s" "curproc t = curproc s" "nextpid t = nextpid s"
  shows "at_rest (put_hw (settle s) t)"
  using assms ptable_inv_cong [of t s] live_cong [of t s] live_cong [of "put_hw (settle s) t" t]
  by (simp add: at_rest_def)

lemma at_rest_calm: "at_rest s \<Longrightarrow> cli_ok s" "at_rest s \<Longrightarrow> unheld l s" "at_rest s \<Longrightarrow> calm k s"
  by (simp_all add: at_rest_def cli_ok_def calm_def)

lemma buf_upd_simps [simp]:
  "bufs (buf_upd b f s) = (bufs s)[b := f (bufs s ! b)]" "ptable (buf_upd b f s) = ptable s" "curproc (buf_upd b f s) = curproc s"
  "slk (buf_upd b f s) = slk s" "bmru (buf_upd b f s) = bmru s" "disk (buf_upd b f s) = disk s"
  "nextpid (buf_upd b f s) = nextpid s" "idequeue (buf_upd b f s) = idequeue s" "havedisk1 (buf_upd b f s) = havedisk1 s"
  "port_in (buf_upd b f s) = port_in s" "num_disk_reads (buf_upd b f s) = num_disk_reads s" "mypid (buf_upd b f s) = mypid s"
  by (simp_all add: buf_upd_def mypid_def myproc_def)

lemma bframe_buf_upd [simp]: "bframe s (buf_upd b f s)"
  by (simp add: bframe_def buf_upd_def kmv_def)

lemma bframe_put_hw [simp]: "bframe s (put_hw h t) = bframe s t"
  by (simp add: bframe_def) (simp add: put_hw_def)

lemma bframe_slk_upd [simp]: "bframe s (slk_upd (BufSL b) f t) = bframe s t"
  by (simp add: bframe_def slk_upd_def kmv_def)

lemma bc_slk_upd [simp]:
  "bufs (slk_upd l f s) = bufs s" "bmru (slk_upd l f s) = bmru s" "disk (slk_upd l f s) = disk s"
  "nextpid (slk_upd l f s) = nextpid s" "idequeue (slk_upd l f s) = idequeue s" "havedisk1 (slk_upd l f s) = havedisk1 s"
  "port_in (slk_upd l f s) = port_in s" "num_disk_reads (slk_upd l f s) = num_disk_reads s"
  by (simp_all add: slk_upd_def)

lemma hw_param_bget [simp]: "hw_param (bget_section d n)"
proof -
  have "bcached d n (put_hw h s) = bcached d n s" "brecycle (put_hw h s) = brecycle s" for h and s :: "'a bc_scheme"
    by (simp_all add: bcached_def brecycle_def)
  then show ?thesis by (auto simp: hw_param_def bget_section_def split: option.splits)
qed

lemma hw_param_brelse [simp]: "hw_param (brelse_section b)"
proof -
  have "(put_hw h s)\<lparr>bmru := m\<rparr> = put_hw h (s\<lparr>bmru := m\<rparr>)" for h m and s :: "'a bc_scheme" by (simp add: put_hw_def)
  then show ?thesis by (simp add: hw_param_def brelse_section_def Let_def)
qed

text \<open>The state after \<open>bget\<close>: buffer \<open>i\<close>, changed by \<open>f\<close>, is locked by the caller.\<close>

definition grabbed :: "nat \<Rightarrow> (buf \<Rightarrow> buf) \<Rightarrow> int \<Rightarrow> 'a bc_scheme \<Rightarrow> 'a bc_scheme" where
  "grabbed i f me s = put_hw (settle s) (slk_upd (BufSL i) (\<lambda>k. k\<lparr>slocked := True, spid := me\<rparr>) (buf_upd i f s))"

lemma grabbed_nth:
  "i < length (bufs s) \<Longrightarrow> bufs (grabbed i f me s) ! j = (if j = i then f (bufs s ! i) else bufs s ! j)"
  by (simp add: grabbed_def nth_list_update)

lemma grabbed_simps [simp]:
  "length (bufs (grabbed i f me s)) = length (bufs s)" "bmru (grabbed i f me s) = bmru s" "disk (grabbed i f me s) = disk s"
  "slk (grabbed i f me s) = (slk s)(BufSL i := (slk s (BufSL i))\<lparr>slocked := True, spid := me\<rparr>)"
  "num_disk_reads (grabbed i f me s) = num_disk_reads s" "bframe s (grabbed i f me s)"
  by (simp_all add: grabbed_def) (simp_all add: put_hw_def)

lemma grabbed_idle: "disk_idle s \<Longrightarrow> disk_idle (grabbed i f me s)"
  using at_rest_cong [of s "slk_upd (BufSL i) (\<lambda>k. k\<lparr>slocked := True, spid := me\<rparr>) (buf_upd i f s)"]
  by (simp add: disk_idle_def grabbed_def drive_ready_def inb_def)

lemma bget_grabbed:
  assumes rest: "at_rest s" "mypid s = Ret me" and sec: "bget_section d n s = Ret (i, buf_upd i f s)" and "\<not> slocked (slk s (BufSL i))"
  shows "bget d n s = Ret (i, grabbed i f me s)"
proof -
  have "with_lock BcacheLock (bget_section d n) s = Ret (i, put_hw (settle s) (buf_upd i f s))"
    using rest(1) sec by (simp add: with_lock_param at_rest_calm)
  moreover have "acquiresleep (BufSL i) (put_hw (settle s) (buf_upd i f s)) = Ret (grabbed i f me s)"
    using acquiresleep_eq [of "BufSL i" "put_hw (settle s) (buf_upd i f s)" me] rest assms(4)
    by (simp add: at_rest_calm grabbed_def)
  ultimately show ?thesis by (simp add: bget_def)
qed


section \<open>Getting a buffer\<close>

abbreviation one_more :: "buf \<Rightarrow> buf" where
  "one_more bf \<equiv> bf\<lparr>refcnt := refcnt bf + 1\<rparr>"

abbreviation reborn :: "u32 \<Rightarrow> u32 \<Rightarrow> buf \<Rightarrow> buf" where
  "reborn d n bf \<equiv> bf\<lparr>dev := d, blockno := n, B_VALID := False, B_DIRTY := False, refcnt := 1\<rparr>"

lemma cache_okD:
  assumes "cache_ok s"
  shows "length (bufs s) = NBUF" "distinct (bmru s)" "set (bmru s) = {..<NBUF}" "i < NBUF \<Longrightarrow> buf_ok s i"
  using assms by (simp_all add: cache_ok_def)

lemma buf_okD:
  assumes "buf_ok s i"
  shows "live_buf (bufs s ! i) \<Longrightarrow> bcached (dev (bufs s ! i)) (blockno (bufs s ! i)) s = Some i"
    "live_buf (bufs s ! i) \<Longrightarrow> dev (bufs s ! i) < 2 \<and> blockno (bufs s ! i) < of_nat FSSIZE"
    "slocked (slk s (BufSL i)) \<Longrightarrow> refcnt (bufs s ! i) \<noteq> 0"
    "B_DIRTY (bufs s ! i) \<Longrightarrow> B_VALID (bufs s ! i)"
    "B_VALID (bufs s ! i) \<Longrightarrow> \<not> B_DIRTY (bufs s ! i) \<Longrightarrow> \<not> slocked (slk s (BufSL i)) \<Longrightarrow>
       bdata (bufs s ! i) = disk s (unat (dev (bufs s ! i))) (unat (blockno (bufs s ! i)))"
  using assms by (simp_all add: buf_ok_def Let_def)

lemma buf_okI:
  assumes "live_buf (bufs s ! i) \<Longrightarrow> bcached (dev (bufs s ! i)) (blockno (bufs s ! i)) s = Some i"
    "live_buf (bufs s ! i) \<Longrightarrow> dev (bufs s ! i) < 2 \<and> blockno (bufs s ! i) < of_nat FSSIZE"
    "slocked (slk s (BufSL i)) \<Longrightarrow> refcnt (bufs s ! i) \<noteq> 0"
    "B_DIRTY (bufs s ! i) \<Longrightarrow> B_VALID (bufs s ! i)"
    "B_VALID (bufs s ! i) \<Longrightarrow> \<not> B_DIRTY (bufs s ! i) \<Longrightarrow> \<not> slocked (slk s (BufSL i)) \<Longrightarrow>
       bdata (bufs s ! i) = disk s (unat (dev (bufs s ! i))) (unat (blockno (bufs s ! i)))"
  shows "buf_ok s i"
  using assms by (simp add: buf_ok_def Let_def)

text \<open>A change of one buffer that leaves the lookups alone, with the other locks and the disk unchanged.\<close>

lemma buf_ok_other:
  assumes "buf_ok s j" "bufs t ! j = bufs s ! j" "slk t (BufSL j) = slk s (BufSL j)"
    "bcached (dev (bufs s ! j)) (blockno (bufs s ! j)) s = Some j \<Longrightarrow> live_buf (bufs s ! j) \<Longrightarrow>
       bcached (dev (bufs s ! j)) (blockno (bufs s ! j)) t = Some j"
    "live_buf (bufs s ! j) \<Longrightarrow> disk t (unat (dev (bufs s ! j))) (unat (blockno (bufs s ! j))) = disk s (unat (dev (bufs s ! j))) (unat (blockno (bufs s ! j)))"
  shows "buf_ok t j"
  using buf_okD [OF assms(1)] assms(2-5) by (intro buf_okI) (simp_all add: live_buf_def)

lemma grabbed_hit:
  assumes ok: "cache_ok s" and hit: "bcached d n s = Some i" and r: "refcnt (bufs s ! i) + 1 \<noteq> 0"
    and range: "d < 2" "n < of_nat FSSIZE"
  shows "cache_ok (grabbed i one_more me s)" "blk (grabbed i one_more me s) = blk s" "bcached d n (grabbed i one_more me s) = Some i"
proof -
  let ?t = "grabbed i one_more me s"
  note i = bcachedD [OF ok hit]
  have l: "length (bufs s) = NBUF" using ok by (simp add: cache_ok_def)
  have e: "bufs ?t ! j = (if j = i then one_more (bufs s ! i) else bufs s ! j)" for j
    using i l by (intro grabbed_nth) simp
  have c: "bcached d' n' ?t = bcached d' n' s" for d' n'
    by (rule bcached_cong) (simp_all add: e)
  show "bcached d n ?t = Some i" using c hit by simp
  have "buf_ok ?t j" if "j < NBUF" for j
  proof (cases "j = i")
    case True
    have ei: "bufs ?t ! i = one_more (bufs s ! i)" by (simp add: e)
    have li: "slocked (slk ?t (BufSL i))" by simp
    have dv: "B_DIRTY (bufs s ! i) \<Longrightarrow> B_VALID (bufs s ! i)" using buf_okD(4) [OF cache_okD(4) [OF ok i(1)]] .
    show ?thesis unfolding True
      by (rule buf_okI; unfold ei c; use hit range r i dv li in simp)
  next
    case False
    then show ?thesis using c by (intro buf_ok_other [OF cache_okD(4) [OF ok that]]) (simp_all add: e)
  qed
  then show "cache_ok ?t" using ok by (simp add: cache_ok_def)
  show "blk ?t = blk s" unfolding blk_def fun_eq_iff c by (auto simp: e split: option.splits)
qed

lemma grabbed_miss:
  assumes ok: "cache_ok s" and miss: "bcached d n s = None" and rec: "brecycle s = Some i" and range: "d < 2" "n < of_nat FSSIZE"
  shows "cache_ok (grabbed i (reborn d n) me s)" "blk (grabbed i (reborn d n) me s) = blk s"
    "bcached d n (grabbed i (reborn d n) me s) = Some i"
proof -
  let ?t = "grabbed i (reborn d n) me s"
  have l: "length (bufs s) = NBUF" and st: "set (bmru s) = {..<NBUF}" using ok by (simp_all add: cache_ok_def)
  have i: "i \<in> set (bmru s)" "i < NBUF" "refcnt (bufs s ! i) = 0" "\<not> B_DIRTY (bufs s ! i)"
    using find_SomeD [OF rec [unfolded brecycle_def]] st by auto
  have free: "\<not> slocked (slk s (BufSL i))" using buf_okD(3) [OF cache_okD(4) [OF ok i(2)]] i(3) by auto
  have e: "bufs ?t ! j = (if j = i then reborn d n (bufs s ! i) else bufs s ! j)" for j
    using i(2) l by (intro grabbed_nth) simp
  have key: "(dev (bufs ?t ! j) = d' \<and> blockno (bufs ?t ! j) = n') =
      (if j = i then d = d' \<and> n = n' else dev (bufs s ! j) = d' \<and> blockno (bufs s ! j) = n')" for j d' n'
    unfolding e by simp
  show hit: "bcached d n ?t = Some i"
    unfolding bcached_def key grabbed_simps(2) using miss i(1) by (intro find_new) (simp_all add: bcached_def)
  have keep: "bcached d' n' ?t = Some j" if h: "bcached d' n' s = Some j" "j \<noteq> i" for d' n' j
  proof -
    have ne: "\<not> (d = d' \<and> n = n')" using h(1) miss by auto
    show ?thesis
      unfolding bcached_def key grabbed_simps(2)
      by (rule find_keep [OF h(1) [unfolded bcached_def] h(2)]) (use ne in simp_all)
  qed
  have lose: "bcached d' n' s = bcached d' n' ?t \<or> bcached d' n' s = Some i" if ne: "\<not> (d = d' \<and> n = n')" for d' n'
    unfolding bcached_def key grabbed_simps(2) by (rule find_drop [OF refl]) (use ne in simp_all)
  have "buf_ok ?t j" if "j < NBUF" for j
  proof (cases "j = i")
    case True
    show ?thesis unfolding True using hit range by (intro buf_okI) (simp_all add: e)
  next
    case False
    then show ?thesis using keep by (intro buf_ok_other [OF cache_okD(4) [OF ok that]]) (simp_all add: e)
  qed
  then show ok': "cache_ok ?t" using ok by (simp add: cache_ok_def)
  have "blk ?t d' n' = blk s d' n'" for d' n'
  proof (cases "d = d' \<and> n = n'")
    case True
    have "blk ?t d n = blk s d n" using hit miss e [of i] by (simp add: blk_def)
    with True show ?thesis by simp
  next
    case False
    have "blk s d' n' = disk s (unat d') (unat n')" if "bcached d' n' s = Some i"
      using buf_okD(5) [OF cache_okD(4) [OF ok i(2)]] bcachedD [OF ok that] i free that by (simp add: blk_def)
    moreover have "blk ?t d' n' = disk s (unat d') (unat n')" if h: "bcached d' n' s = Some i"
    proof (cases "bcached d' n' ?t")
      case (Some j)
      have "j \<noteq> i" "j < NBUF" "dev (bufs s ! j) = d'" "blockno (bufs s ! j) = n'"
        using bcachedD [OF ok' Some] False e [of j] by (auto split: if_splits)
      moreover then have "\<not> B_VALID (bufs s ! j)"
        using buf_okD(1) [OF cache_okD(4) [OF ok]] h by (auto simp: live_buf_def)
      ultimately show ?thesis using Some e [of j] by (simp add: blk_def)
    qed (simp add: blk_def)
    ultimately show ?thesis using lose [OF False]
      by (cases "bcached d' n' s = Some i") (auto simp: blk_def e split: option.splits)
  qed
  then show "blk ?t = blk s" by (simp add: fun_eq_iff)
qed


section \<open>Reading, writing and releasing a block\<close>

text \<open>Block \<open>n\<close> of device \<open>d\<close> can be had: its buffer is free to lock, or some buffer can be recycled.\<close>

definition bavail :: "u32 \<Rightarrow> u32 \<Rightarrow> 'a bc_scheme \<Rightarrow> bool" where
  "bavail d n s \<longleftrightarrow>
     (case bcached d n s of
        Some i \<Rightarrow> \<not> slocked (slk s (BufSL i)) \<and> refcnt (bufs s ! i) + 1 \<noteq> 0
      | None \<Rightarrow> brecycle s \<noteq> None)"

text \<open>The running process works on buffer \<open>i\<close>, which holds block \<open>n\<close> of device \<open>d\<close>.\<close>

definition bheld :: "nat \<Rightarrow> u32 \<Rightarrow> u32 \<Rightarrow> 'a bc_scheme \<Rightarrow> bool" where
  "bheld i d n s \<longleftrightarrow> i < NBUF \<and> bcached d n s = Some i \<and> B_VALID (bufs s ! i) \<and> refcnt (bufs s ! i) \<noteq> 0 \<and>
     slocked (slk s (BufSL i)) \<and> mypid s = Ret (spid (slk s (BufSL i)))"

lemma bget_ok:
  assumes idle: "disk_idle s" and ok: "cache_ok s" and av: "bavail d n s" and range: "d < 2" "n < of_nat FSSIZE"
  obtains i f me where "bget d n s = Ret (i, grabbed i f me s)" "mypid s = Ret me" "i < NBUF" "cache_ok (grabbed i f me s)"
    "blk (grabbed i f me s) = blk s" "bcached d n (grabbed i f me s) = Some i" "\<not> slocked (slk s (BufSL i))"
    "refcnt (f (bufs s ! i)) \<noteq> 0" "dev (f (bufs s ! i)) = d" "blockno (f (bufs s ! i)) = n"
    "refcnt (f (bufs s ! i)) = (case bcached d n s of Some _ \<Rightarrow> refcnt (bufs s ! i) + 1 | None \<Rightarrow> 1)"
    "bcached d n s = None \<Longrightarrow> refcnt (bufs s ! i) = 0"
    "bcached d n s = None \<Longrightarrow> \<not> B_DIRTY (bufs s ! i)"
    "B_DIRTY (f (bufs s ! i)) = B_DIRTY (bufs s ! i)"
    "case bcached d n s of Some j \<Rightarrow> j = i | None \<Rightarrow> brecycle s = Some i"
proof -
  have rest: "at_rest s" using idle by (simp add: disk_idle_def)
  then obtain me where me: "mypid s = Ret me" by (auto simp: at_rest_def mypid_def myproc_def)
  have l: "length (bufs s) = NBUF" using ok by (simp add: cache_ok_def)
  show thesis
  proof (cases "bcached d n s")
    case (Some i)
    note g = grabbed_hit [OF ok Some _ range, of me] and i = bcachedD [OF ok Some]
    have a: "\<not> slocked (slk s (BufSL i))" "refcnt (bufs s ! i) + 1 \<noteq> 0" using av Some by (simp_all add: bavail_def)
    have "bget d n s = Ret (i, grabbed i one_more me s)"
      using rest me a by (intro bget_grabbed) (simp_all add: bget_section_def Some)
    from that [OF this me i(1) g(1-3)] show thesis using a i Some by simp
  next
    case None
    then obtain i where r: "brecycle s = Some i" using av by (auto simp: bavail_def)
    note g = grabbed_miss [OF ok None r range, of me]
    have i: "i < NBUF" "refcnt (bufs s ! i) = 0" "\<not> B_DIRTY (bufs s ! i)"
      using find_SomeD [OF r [unfolded brecycle_def]] ok by (auto simp: cache_ok_def)
    have a: "\<not> slocked (slk s (BufSL i))" using buf_okD(3) [OF cache_okD(4) [OF ok i(1)]] i(2) by auto
    have "bget d n s = Ret (i, grabbed i (reborn d n) me s)"
      using rest me a by (intro bget_grabbed) (simp_all add: bget_section_def None r)
    from that [OF this me i(1) g] show thesis using a i None r by simp
  qed
qed


lemma reads_cong [simp]:
  "disk_idle (s\<lparr>num_disk_reads := k\<rparr>) = disk_idle s" "cache_ok (s\<lparr>num_disk_reads := k\<rparr>) = cache_ok s"
  "bavail d n (s\<lparr>num_disk_reads := k\<rparr>) = bavail d n s" "blk (s\<lparr>num_disk_reads := k\<rparr>) = blk s"
  "bframe s (s\<lparr>num_disk_reads := k\<rparr>)" "bcached d n (s\<lparr>num_disk_reads := k\<rparr>) = bcached d n s" "brecycle (s\<lparr>num_disk_reads := k\<rparr>) = brecycle s"
proof -
  let ?t = "s\<lparr>num_disk_reads := k\<rparr>"
  have c: "bcached d n ?t = bcached d n s" for d n by (simp add: bcached_def)
  show "bcached d n ?t = bcached d n s" by (rule c)
  show r: "brecycle ?t = brecycle s" by (simp add: brecycle_def)
  show "disk_idle ?t = disk_idle s"
    using ptable_inv_cong [of ?t s] live_cong [of ?t s] by (simp add: disk_idle_def at_rest_def drive_ready_def inb_def unheld_def)
  show "cache_ok ?t = cache_ok s" by (simp add: cache_ok_def buf_ok_def c)
  show "bavail d n ?t = bavail d n s" by (simp add: bavail_def c r split: option.splits)
  show "blk ?t = blk s" by (simp add: blk_def c fun_eq_iff split: option.splits)
  show "bframe s ?t" by (simp add: bframe_def kmv_def)
qed

lemma bframe_mypid: "bframe s t \<Longrightarrow> disk_idle s \<Longrightarrow> mypid t = mypid s"
  using mypid_strip [of t s] by (simp add: bframe_def disk_idle_def at_rest_def)

lemma drive_eq: "dev bf < 2 \<Longrightarrow> drive bf = unat (dev bf)"
proof -
  assume "dev bf < 2"
  then have "unat (dev bf) < 2" by (simp add: word_less_nat_alt)
  then show ?thesis by (simp add: drive_def and_one_eq unat_mod)
qed

text \<open>A locked buffer gets new contents or flags, and perhaps the disk with it, without being renamed.\<close>

lemma cache_ok_locked:
  assumes ok: "cache_ok s" and i: "i < NBUF" "slocked (slk t (BufSL i))" and keep: "bmru t = bmru s" "slk t = slk s"
    and u: "bufs t = (bufs s)[i := bf]" "dev bf = dev (bufs s ! i)" "blockno bf = blockno (bufs s ! i)" "refcnt bf = refcnt (bufs s ! i)"
      "B_DIRTY bf \<Longrightarrow> B_VALID bf"
    and d: "\<And>d n. \<not> (d = unat (dev bf) \<and> n = unat (blockno bf)) \<Longrightarrow> disk t d n = disk s d n"
  shows "cache_ok t" "bcached d' n' t = bcached d' n' s"
proof -
  have l: "length (bufs s) = NBUF" using ok by (simp add: cache_ok_def)
  have e: "bufs t ! j = (if j = i then bf else bufs s ! j)" for j using i l by (simp add: u nth_list_update)
  have c: "bcached d n t = bcached d n s" for d n using u(2,3) by (intro bcached_cong) (simp_all add: keep e)
  show "bcached d' n' t = bcached d' n' s" by (rule c)
  have oi: "buf_ok s i" using ok i by (simp add: cache_ok_def)
  have ri: "refcnt (bufs s ! i) \<noteq> 0" using buf_okD(3) [OF oi] i keep by simp
  have "buf_ok t j" if j: "j < NBUF" for j
  proof (cases "j = i")
    case True
    have ei: "bufs t ! i = bf" by (simp add: e)
    show ?thesis unfolding True
      by (rule buf_okI; unfold ei c; use buf_okD(1-3) [OF oi] ri u(2-5) i in \<open>simp add: live_buf_def\<close>)
  next
    case False
    show ?thesis
    proof (rule buf_ok_other [OF cache_okD(4) [OF ok j]])
      assume lv: "live_buf (bufs s ! j)"
      have "bcached (dev (bufs s ! j)) (blockno (bufs s ! j)) s = Some j"
        using buf_okD(1) [OF cache_okD(4) [OF ok j] lv] .
      moreover have "bcached (dev (bufs s ! i)) (blockno (bufs s ! i)) s = Some i"
        using buf_okD(1) [OF oi] ri by (simp add: live_buf_def)
      ultimately have "\<not> (dev (bufs s ! j) = dev bf \<and> blockno (bufs s ! j) = blockno bf)"
        using False u by auto
      then show "disk t (unat (dev (bufs s ! j))) (unat (blockno (bufs s ! j))) = disk s (unat (dev (bufs s ! j))) (unat (blockno (bufs s ! j)))"
        by (intro d) (simp add: word_unat_eq_iff)
    qed (use False c keep in \<open>simp_all add: e\<close>)
  qed
  then show "cache_ok t" using ok by (simp add: cache_ok_def keep u)
qed

lemma bread_ok:
  assumes idle: "disk_idle s" and ok: "cache_ok s" and av: "bavail d n s" and range: "d < 2" "n < of_nat FSSIZE"
  obtains i s' where "bread d n s = Ret (i, s')" "disk_idle s'" "cache_ok s'" "bframe s s'" "blk s' = blk s" "disk s' = disk s"
    "bheld i d n s'" "bdata (bufs s' ! i) = blk s d n" "bmru s' = bmru s" "\<not> slocked (slk s (BufSL i))"
    "\<And>j. j \<noteq> i \<Longrightarrow> bufs s' ! j = bufs s ! j \<and> slk s' (BufSL j) = slk s (BufSL j)"
    "refcnt (bufs s' ! i) = refcnt (bufs s ! i) + 1" "B_DIRTY (bufs s' ! i) = B_DIRTY (bufs s ! i)"
    "\<not> B_DIRTY (bufs s' ! i) \<Longrightarrow> bdata (bufs s' ! i) = disk s' (unat d) (unat n)"
proof -
  let ?s = "s\<lparr>num_disk_reads := num_disk_reads s + 1\<rparr>"
  have l: "length (bufs s) = NBUF" using ok by (simp add: cache_ok_def)
  show thesis
  proof (rule bget_ok [of ?s d n], goal_cases)
    case (6 i f me)
    let ?t = "grabbed i f me ?s"
    have e: "bufs ?t ! j = (if j = i then f (bufs s ! i) else bufs s ! j)" for j
      using 6(3) l grabbed_nth [of i ?s f me j] by simp
    have idle': "disk_idle ?t" using idle by (intro grabbed_idle) simp
    have fr: "bframe s ?t" using bframe_trans [of s ?s ?t] by simp
    have me: "mypid ?t = Ret me" using bframe_mypid [OF fr idle] 6(2) by (simp add: mypid_def myproc_def)
    have r: "refcnt (f (bufs s ! i)) = refcnt (bufs s ! i) + 1" using 6(11,12) by (simp split: option.splits)
    have dirty: "B_DIRTY (f (bufs s ! i)) = B_DIRTY (bufs s ! i)" using 6(14) by simp
    have free: "\<not> slocked (slk s (BufSL i))" using 6(7) by simp
    have cl: "\<not> B_DIRTY (bufs s ! i) \<Longrightarrow> blk s d n = disk s (unat d) (unat n)"
      using 6(15) buf_okD(5) [OF cache_okD(4) [OF ok 6(3)]] free bcachedD(2,3) [OF ok, of d n]
      by (auto simp: blk_def split: option.splits)
    show thesis
    proof (cases "B_VALID (bufs ?t ! i)")
      case True
      have "bread d n s = Ret (i, ?t)" using 6(1) True by (simp add: bread_def)
      moreover have "bheld i d n ?t" using 6(3,6,8) True me e [of i] by (simp add: bheld_def)
      moreover have "blk ?t d n = bdata (bufs ?t ! i)" using 6(6) True by (simp add: blk_def)
      then have "bdata (bufs ?t ! i) = blk s d n" using 6(5) by simp
      ultimately show thesis using that [of i ?t] idle' 6(4,5) fr free r dirty e cl by simp
    next
      case False
      have ci: "\<not> B_DIRTY (bufs ?t ! i)" using False buf_okD(4) [OF cache_okD(4) [OF 6(4) 6(3)]] by auto
      have key: "dev (bufs ?t ! i) = d" "blockno (bufs ?t ! i) = n" using 6(9,10) e [of i] by simp_all
      obtain s' where s': "iderw i ?t = Ret s'" "disk_idle s'" "bframe ?t s'" "slk s' = slk ?t" "bmru s' = bmru ?t"
        "bufs s' = (bufs ?t)[i := finished (disk ?t (drive (bufs ?t ! i)) (sector (bufs ?t ! i))) (bufs ?t ! i)]" "disk s' = disk ?t"
        using iderw_ok [OF idle', of i] 6(3) l me range(2) key ci False by auto
      define bf where "bf = finished (disk s (unat d) (unat n)) (bufs ?t ! i)"
      have bf: "bufs s' = (bufs ?t)[i := bf]"
        using s'(6) key drive_eq [of "bufs ?t ! i"] range(1) by (simp add: bf_def sector_def)
      have fb: "dev bf = d" "blockno bf = n" "refcnt bf = refcnt (bufs ?t ! i)" "B_VALID bf" "\<not> B_DIRTY bf" "bdata bf = disk s (unat d) (unat n)"
        using key ci by (simp_all add: bf_def finished_def)
      have e': "bufs s' ! j = (if j = i then bf else bufs s ! j)" for j
        using 6(3) l e [of j] by (simp add: bf nth_list_update)
      have co: "cache_ok s'" and c: "bcached d' n' s' = bcached d' n' ?t" for d' n'
        using cache_ok_locked [OF 6(4) 6(3), of s' bf] s'(4,5,7) bf fb key by simp_all
      have hit: "bcached d n s' = Some i" using c 6(6) by simp
      have "blk s' d' n' = blk ?t d' n'" for d' n'
        using c [of d' n'] 6(6) False fb bcachedD [OF 6(4), of d' n'] key s'(7)
        by (auto simp: blk_def e' e split: option.splits)
      then have bs: "blk s' = blk s" using 6(5) by (simp add: fun_eq_iff)
      have "bread d n s = Ret (i, s')" using 6(1) False s'(1) by (simp add: bread_def)
      moreover have "bheld i d n s'"
        using 6(3,8) hit fb me bframe_mypid [OF s'(3) idle'] s'(4) by (simp add: bheld_def e' e)
      moreover have "blk s' d n = bdata (bufs s' ! i)" using hit fb by (simp add: blk_def e')
      then have "bdata (bufs s' ! i) = blk s d n" using bs by simp
      moreover have "bframe s s'" using bframe_trans [OF fr s'(3)] .
      ultimately show thesis using that [of i s'] s' co bs free r dirty ci fb e' e cl by simp
    qed
  qed (use assms in simp_all)
qed


lemma bheldD:
  assumes "cache_ok s" "bheld i d n s"
  shows "i < NBUF" "dev (bufs s ! i) = d" "blockno (bufs s ! i) = n" "d < 2" "n < of_nat FSSIZE" "B_VALID (bufs s ! i)"
    "blk s d n = bdata (bufs s ! i)" "slocked (slk s (BufSL i))" "mypid s = Ret (spid (slk s (BufSL i)))" "refcnt (bufs s ! i) \<noteq> 0"
proof -
  have h: "i < NBUF" "bcached d n s = Some i" "B_VALID (bufs s ! i)" using assms(2) by (simp_all add: bheld_def)
  note k = bcachedD [OF assms(1) h(2)]
  show "i < NBUF" "dev (bufs s ! i) = d" "blockno (bufs s ! i) = n" "B_VALID (bufs s ! i)" using h k by simp_all
  show "d < 2" "n < of_nat FSSIZE" using buf_okD(2) [OF cache_okD(4) [OF assms(1) h(1)]] h(3) k by (simp_all add: live_buf_def)
  show "blk s d n = bdata (bufs s ! i)" using h by (simp add: blk_def)
  show "slocked (slk s (BufSL i))" "mypid s = Ret (spid (slk s (BufSL i)))" "refcnt (bufs s ! i) \<noteq> 0"
    using assms(2) by (simp_all add: bheld_def)
qed

lemma bwrite_ok:
  assumes idle: "disk_idle s" and ok: "cache_ok s" and held: "bheld i d n s" and nc: "\<not> crashn_enable s"
  obtains s' where "bwrite i s = Ret s'" "disk_idle s'" "cache_ok s'" "bframe s s'" "bheld i d n s'" "slk s' = slk s" "bmru s' = bmru s"
    "bufs s' = (bufs s)[i := (bufs s ! i)\<lparr>B_DIRTY := False\<rparr>]" "blk s' = blk s"
    "disk s' = (disk s)(unat d := (disk s (unat d))(unat n := bdata (bufs s ! i)))"
proof -
  note h = bheldD [OF ok held]
  have rest: "at_rest s" using idle by (simp add: disk_idle_def)
  have l: "length (bufs s) = NBUF" using ok by (simp add: cache_ok_def)
  have hs: "holdingsleep (BufSL i) s = Ret (True, settle s)"
    using holdingsleep_eq [OF at_rest_calm(3) [OF rest] h(9)] h(8) by simp
  define u where "u = buf_upd i (\<lambda>bf. bf\<lparr>B_DIRTY := True\<rparr>) (settle s)"
  have up: "u = put_hw (settle s) (buf_upd i (\<lambda>bf. bf\<lparr>B_DIRTY := True\<rparr>) s)"
    unfolding u_def by (subst settle_put_hw) simp
  have uf: "bufs u ! i = (bufs s ! i)\<lparr>B_DIRTY := True\<rparr>" "slk u = slk s" "mypid u = mypid s" "length (bufs u) = NBUF" "bmru u = bmru s" "disk u = disk s"
    using h(1) l by (simp_all add: up)
  have ui: "disk_idle u"
    using idle at_rest_cong [OF rest, of "buf_upd i (\<lambda>bf. bf\<lparr>B_DIRTY := True\<rparr>) s"]
    by (simp add: disk_idle_def up drive_ready_def inb_def)
  have ub: "bframe s u" by (simp add: up)
  obtain s' where s': "iderw i u = Ret s'" "disk_idle s'" "bframe u s'" "slk s' = slk u" "bmru s' = bmru u"
    "bufs s' = (bufs u)[i := finished (disk u (drive (bufs u ! i)) (sector (bufs u ! i))) (bufs u ! i)]"
    "disk s' = (disk u)(drive (bufs u ! i) := (disk u (drive (bufs u ! i)))(sector (bufs u ! i) := bdata (bufs u ! i)))"
    using iderw_ok [OF ui, of i] h uf by auto
  define bf where "bf = (bufs s ! i)\<lparr>B_DIRTY := False\<rparr>"
  have "finished x (bufs u ! i) = bf" for x
    using h(6) uf(1) by (cases "bufs s ! i") (simp add: finished_def bf_def)
  then have b: "bufs s' = (bufs s)[i := bf]" using s'(6) by (simp add: up)
  have dk: "disk s' = (disk s)(unat d := (disk s (unat d))(unat n := bdata (bufs s ! i)))"
    using s'(7) uf h(2-4) drive_eq [of "bufs u ! i"] by (simp add: sector_def)
  have fb: "dev bf = d" "blockno bf = n" "B_VALID bf" "\<not> B_DIRTY bf" "bdata bf = bdata (bufs s ! i)" "refcnt bf = refcnt (bufs s ! i)"
    using h by (simp_all add: bf_def)
  have co: "cache_ok s'" and c: "bcached d' n' s' = bcached d' n' s" for d' n'
    using cache_ok_locked [OF ok h(1), of s' bf] h(2,3,8) uf s'(4,5) b fb dk by auto
  have e: "bufs s' ! j = (if j = i then bf else bufs s ! j)" for j using h(1) l by (simp add: b nth_list_update)
  have "blk s' d' n' = blk s d' n'" for d' n'
  proof (cases "d' = d \<and> n' = n")
    case True
    then show ?thesis using c [of d n] h(6) held fb by (simp add: blk_def e bheld_def)
  next
    case False
    then have "disk s' (unat d') (unat n') = disk s (unat d') (unat n')" by (auto simp: dk word_unat_eq_iff)
    moreover have "bcached d' n' s \<noteq> Some i" using bcachedD [OF ok, of d' n' i] False h(2,3) by auto
    ultimately show ?thesis using c [of d' n'] by (auto simp: blk_def e split: option.splits)
  qed
  then have "blk s' = blk s" by (simp add: fun_eq_iff)
  moreover have fr: "bframe s s'" using bframe_trans [OF ub s'(3)] .
  moreover have "bheld i d n s'"
    using held c fb h bframe_mypid [OF fr idle] s'(4) uf by (simp add: bheld_def e)
  moreover have "bwrite i s = Ret s'" using nc hs s'(1) by (simp add: bwrite_def u_def)
  ultimately show thesis using that [of s'] s' uf co b bf_def dk by simp
qed

lemma find_remove1: "\<not> P i \<Longrightarrow> find P (remove1 i xs) = find P xs"
  by (induction xs) auto

lemma at_rest_wakeup1:
  assumes "at_rest s" "ptable t = map (wake_proc c) (ptable s)" "curproc t = curproc s" "nextpid t = nextpid s"
  shows "at_rest (put_hw (settle s) t)"
proof -
  have inv: "ptable_inv s" "live s" using assms(1) by (simp_all add: at_rest_def)
  have "ptable_inv (wakeup1 c s)" using inv(1) by (rule ptable_inv_wakeup1)
  then have "ptable_inv t"
    using ptable_inv_cong [of t "wakeup1 c s"] assms(2-4) by (simp add: wakeup1_def)
  moreover have "live t" using inv(2) by (auto simp: live_def assms(2) wake_proc_def split: if_splits)
  ultimately show ?thesis using assms(1,3) by (simp add: at_rest_def live_def)
qed



text \<open>The buffers and the list after a release.\<close>

definition rested :: "nat \<Rightarrow> 'a bc_scheme \<Rightarrow> 'a bc_scheme" where
  "rested i s =
     (let s1 = buf_upd i (\<lambda>bf. bf\<lparr>refcnt := refcnt bf - 1\<rparr>)
                 (wakeup1 (SleepLkChan (BufSL i)) (slk_upd (BufSL i) (\<lambda>k. k\<lparr>slocked := False, spid := 0\<rparr>) s))
      in if refcnt (bufs s1 ! i) = 0 then s1\<lparr>bmru := i # remove1 i (bmru s1)\<rparr> else s1)"

lemma rested_simps [simp]:
  "bufs (rested i s) = (bufs s)[i := (bufs s ! i)\<lparr>refcnt := refcnt (bufs s ! i) - 1\<rparr>]"
  "ptable (rested i s) = map (wake_proc (SleepLkChan (BufSL i))) (ptable s)" "curproc (rested i s) = curproc s"
  "nextpid (rested i s) = nextpid s" "disk (rested i s) = disk s" "idequeue (rested i s) = idequeue s"
  "port_in (rested i s) = port_in s" "havedisk1 (rested i s) = havedisk1 s" "num_disk_reads (rested i s) = num_disk_reads s"
  "slk (rested i s) = (slk s)(BufSL i := (slk s (BufSL i))\<lparr>slocked := False, spid := 0\<rparr>)"
  by (simp_all add: rested_def Let_def buf_upd_def wakeup1_def slk_upd_def)

lemma rested_frame [simp]: "bframe s (rested i s)"
  by (simp add: bframe_def rested_def Let_def buf_upd_def wakeup1_def slk_upd_def kmv_def o_def)

lemma rested_bmru:
  "i < length (bufs s) \<Longrightarrow> bmru (rested i s) = (if refcnt (bufs s ! i) - 1 = 0 then i # remove1 i (bmru s) else bmru s)"
  by (simp add: rested_def Let_def buf_upd_def wakeup1_def slk_upd_def)

lemma brelse_eq:
  assumes rest: "at_rest s" and lk: "slocked (slk s (BufSL i))" "mypid s = Ret (spid (slk s (BufSL i)))"
  shows "brelse i s = Ret (put_hw (settle s) (rested i s))"
proof -
  have hs: "holdingsleep (BufSL i) s = Ret (True, settle s)"
    using holdingsleep_eq [OF at_rest_calm(3) [OF rest] lk(2)] lk(1) by simp
  let ?w = "wakeup1 (SleepLkChan (BufSL i)) (slk_upd (BufSL i) (\<lambda>k. k\<lparr>slocked := False, spid := 0\<rparr>) s)"
  have "calm (BufSL i) (settle s)" using rest by (simp add: calm_def at_rest_calm)
  then have "releasesleep (BufSL i) (settle s) = Ret (put_hw (settle s)
      (wakeup1 (SleepLkChan (BufSL i)) (slk_upd (BufSL i) (\<lambda>k. k\<lparr>slocked := False, spid := 0\<rparr>) (settle s))))"
    using lk by (subst releasesleep_eq) simp_all
  also have "\<dots> = Ret (put_hw (settle s) ?w)" by (subst (2) settle_put_hw) simp
  finally have rs: "releasesleep (BufSL i) (settle s) = Ret (put_hw (settle s) ?w)" .
  have "with_lock BcacheLock (brelse_section i) (put_hw (settle s) ?w) =
      omap (\<lambda>(r, s'). (r, put_hw (settle s) s')) (brelse_section i (put_hw (settle s) ?w))"
    using rest by (subst with_lock_param) (simp_all add: at_rest_calm)
  also have "brelse_section i (put_hw (settle s) ?w) = omap (\<lambda>(r, s'). (r, put_hw (settle s) s')) (brelse_section i ?w)"
    by (rule hw_param_brelse [unfolded hw_param_def, rule_format])
  also have "brelse_section i ?w = Ret ((), rested i s)" by (simp add: brelse_section_def rested_def Let_def)
  finally show ?thesis using hs rs by (simp add: brelse_def)
qed

lemma brelse_ok:
  assumes idle: "disk_idle s" and ok: "cache_ok s" and held: "bheld i d n s"
    and clean: "\<not> B_DIRTY (bufs s ! i) \<Longrightarrow> bdata (bufs s ! i) = disk s (unat d) (unat n)"
  obtains s' where "brelse i s = Ret s'" "disk_idle s'" "cache_ok s'" "bframe s s'" "blk s' = blk s" "disk s' = disk s"
    "bufs s' = (bufs s)[i := (bufs s ! i)\<lparr>refcnt := refcnt (bufs s ! i) - 1\<rparr>]"
    "slk s' = (slk s)(BufSL i := (slk s (BufSL i))\<lparr>slocked := False, spid := 0\<rparr>)"
proof -
  note h = bheldD [OF ok held]
  have rest: "at_rest s" using idle by (simp add: disk_idle_def)
  have l: "length (bufs s) = NBUF" using ok by (simp add: cache_ok_def)
  let ?s' = "put_hw (settle s) (rested i s)"
  have eq: "brelse i s = Ret ?s'" using rest h(8,9) by (rule brelse_eq)
  have idle': "disk_idle ?s'"
    using idle at_rest_wakeup1 [OF rest, of "rested i s" "SleepLkChan (BufSL i)"] by (simp add: disk_idle_def drive_ready_def inb_def)
  have hit: "bcached d n s = Some i" using held by (simp add: bheld_def)
  have mru: "bmru ?s' = (if refcnt (bufs s ! i) - 1 = 0 then i # remove1 i (bmru s) else bmru s)"
    using rested_bmru [of i s] h(1) l by simp
  have e: "bufs ?s' ! j = (if j = i then (bufs s ! i)\<lparr>refcnt := refcnt (bufs s ! i) - 1\<rparr> else bufs s ! j)" for j
    using h(1) l by (simp add: nth_list_update)
  have keys: "(\<lambda>j. dev (bufs ?s' ! j) = d' \<and> blockno (bufs ?s' ! j) = n') = (\<lambda>j. dev (bufs s ! j) = d' \<and> blockno (bufs s ! j) = n')" for d' n'
    by (rule ext) (simp only: e, simp)
  have c: "bcached d' n' ?s' = bcached d' n' s" for d' n'
    unfolding bcached_def keys mru using h(2,3) hit by (auto simp: bcached_def find_remove1)
  have "buf_ok ?s' j" if j: "j < NBUF" for j
  proof (cases "j = i")
    case True
    have ei: "bufs ?s' ! i = (bufs s ! i)\<lparr>refcnt := refcnt (bufs s ! i) - 1\<rparr>" by (simp only: e if_True simp_thms)
    show ?thesis unfolding True
      by (rule buf_okI; unfold ei c; use h hit clean in simp)
  next
    case False
    then show ?thesis
      using c by (intro buf_ok_other [OF cache_okD(4) [OF ok j]]) simp_all
  qed
  moreover have "distinct (bmru ?s')" "set (bmru ?s') = {..<NBUF}"
    using cache_okD(2,3) [OF ok] h(1) unfolding mru by auto
  ultimately have "cache_ok ?s'" using l by (simp add: cache_ok_def)
  moreover have "blk ?s' = blk s" unfolding blk_def fun_eq_iff c by (simp only: e) (simp split: option.splits)
  ultimately show thesis using that [OF eq idle'] by simp
qed


section \<open>The block store contract\<close>

text \<open>
  What a file system needs of its block layer: reading gives the current contents and changes
  nothing, writing changes one block.  Every sequence of such operations then behaves as on a
  plain array of blocks.
\<close>

datatype ('k, 'v) block_op = Rd 'k | Wr 'k "'v \<Rightarrow> 'v"

primrec spec_ops :: "('k, 'v) block_op list \<Rightarrow> ('k \<Rightarrow> 'v) \<Rightarrow> 'v list \<times> ('k \<Rightarrow> 'v)" where
  "spec_ops [] m = ([], m)"
| "spec_ops (x # xs) m = (case x of
     Rd k \<Rightarrow> (let (vs, m') = spec_ops xs m in (m k # vs, m'))
   | Wr k g \<Rightarrow> spec_ops xs (m(k := g (m k))))"

primrec exec_ops ::
  "('k \<Rightarrow> 's \<Rightarrow> ('v \<times> 's) outcome) \<Rightarrow> ('k \<Rightarrow> ('v \<Rightarrow> 'v) \<Rightarrow> 's \<Rightarrow> 's outcome) \<Rightarrow> ('k, 'v) block_op list \<Rightarrow> 's \<Rightarrow> ('v list \<times> 's) outcome" where
  "exec_ops rd wr [] s = Ret ([], s)"
| "exec_ops rd wr (x # xs) s = (case x of
     Rd k \<Rightarrow> obind (rd k s) (\<lambda>(v, s1). obind (exec_ops rd wr xs s1) (\<lambda>(vs, s2). Ret (v # vs, s2)))
   | Wr k g \<Rightarrow> obind (wr k g s) (exec_ops rd wr xs))"

primrec op_key :: "('k, 'v) block_op \<Rightarrow> 'k" where
  "op_key (Rd k) = k"
| "op_key (Wr k g) = k"

locale block_store =
  fixes rd :: "'k \<Rightarrow> 's \<Rightarrow> ('v \<times> 's) outcome"
    and wr :: "'k \<Rightarrow> ('v \<Rightarrow> 'v) \<Rightarrow> 's \<Rightarrow> 's outcome"
    and inv :: "'s \<Rightarrow> bool"
    and contents :: "'s \<Rightarrow> 'k \<Rightarrow> 'v"
    and valid_key :: "'k \<Rightarrow> bool"
  assumes rd_ok: "inv s \<Longrightarrow> valid_key k \<Longrightarrow> \<exists>s'. rd k s = Ret (contents s k, s') \<and> inv s' \<and> contents s' = contents s"
    and wr_ok: "inv s \<Longrightarrow> valid_key k \<Longrightarrow> \<exists>s'. wr k g s = Ret s' \<and> inv s' \<and> contents s' = (contents s)(k := g (contents s k))"
begin

lemma exec_refines:
  assumes "inv s" "\<And>x. x \<in> set xs \<Longrightarrow> valid_key (op_key x)"
  shows "\<exists>s'. exec_ops rd wr xs s = Ret (fst (spec_ops xs (contents s)), s') \<and> inv s' \<and> contents s' = snd (spec_ops xs (contents s))"
  using assms
proof (induction xs arbitrary: s)
  case (Cons x xs)
  have k: "valid_key (op_key x)" using Cons.prems(2) by simp
  show ?case
  proof (cases x)
    case (Rd k)
    obtain t where "rd k s = Ret (contents s k, t)" "inv t" "contents t = contents s" using rd_ok [OF Cons.prems(1)] k Rd by auto
    then show ?thesis using Cons.IH [of t] Cons.prems(2) Rd by (auto split: prod.splits)
  next
    case (Wr k g)
    obtain t where "wr k g s = Ret t" "inv t" "contents t = (contents s)(k := g (contents s k))" using wr_ok [OF Cons.prems(1)] k Wr by auto
    then show ?thesis using Cons.IH [of t] Cons.prems(2) Wr by (auto simp: fun_upd_def)
  qed
qed simp

end

text \<open>The two patterns in which the file system uses the cache.\<close>

definition rdblk :: "u32 \<times> u32 \<Rightarrow> 'a bc_scheme \<Rightarrow> (u8 list \<times> 'a bc_scheme) outcome" where
  "rdblk = (\<lambda>(d, n) s.
     obind (bread d n s) (\<lambda>(b, s1). obind (brelse b s1) (\<lambda>s2. Ret (bdata (bufs s1 ! b), s2))))"

definition wrblk :: "u32 \<times> u32 \<Rightarrow> (u8 list \<Rightarrow> u8 list) \<Rightarrow> 'a bc_scheme \<Rightarrow> 'a bc_scheme outcome" where
  "wrblk = (\<lambda>(d, n) g s.
     obind (bread d n s) (\<lambda>(b, s1).
       obind (bwrite b (buf_upd b (\<lambda>bf. bf\<lparr>bdata := g (bdata bf)\<rparr>) s1)) (brelse b)))"

definition bquiet :: "'a bc_scheme \<Rightarrow> bool" where
  "bquiet s \<longleftrightarrow> disk_idle s \<and> cache_ok s \<and> (\<forall>i<NBUF. \<not> slocked (slk s (BufSL i)) \<and> refcnt (bufs s ! i) = 0) \<and>
     (\<exists>i<NBUF. \<not> B_DIRTY (bufs s ! i))"

definition block_key :: "u32 \<times> u32 \<Rightarrow> bool" where
  "block_key = (\<lambda>(d, n). d < 2 \<and> n < of_nat FSSIZE)"

lemma bquietD:
  assumes "bquiet s"
  shows "disk_idle s" "cache_ok s" "i < NBUF \<Longrightarrow> \<not> slocked (slk s (BufSL i))" "i < NBUF \<Longrightarrow> refcnt (bufs s ! i) = 0" "bavail d n s"
proof -
  show "disk_idle s" "cache_ok s" "i < NBUF \<Longrightarrow> \<not> slocked (slk s (BufSL i))" "i < NBUF \<Longrightarrow> refcnt (bufs s ! i) = 0"
    using assms by (simp_all add: bquiet_def)
  obtain j where "j < NBUF" "\<not> B_DIRTY (bufs s ! j)" "refcnt (bufs s ! j) = 0" using assms by (auto simp: bquiet_def)
  then have "brecycle s \<noteq> None"
    using assms by (auto simp: brecycle_def find_None_iff bquiet_def cache_ok_def)
  then show "bavail d n s"
    using assms bcachedD(1) [of s d n] by (auto simp: bavail_def bquiet_def split: option.splits)
qed

lemma bquietI:
  assumes "bquiet s" "disk_idle s'" "cache_ok s'" "\<And>j. j < NBUF \<Longrightarrow> refcnt (bufs s' ! j) = 0 \<and> \<not> slocked (slk s' (BufSL j))"
    "\<And>j. j < NBUF \<Longrightarrow> B_DIRTY (bufs s' ! j) \<Longrightarrow> B_DIRTY (bufs s ! j)"
  shows "bquiet s'"
  using assms unfolding bquiet_def by blast

lemma rdblk_ok:
  assumes q: "bquiet s" and k: "d < 2" "n < of_nat FSSIZE"
  obtains s' where "rdblk (d, n) s = Ret (blk s d n, s')" "bquiet s'" "bframe s s'" "blk s' = blk s" "disk s' = disk s"
proof -
  show thesis
  proof (rule bread_ok [OF bquietD(1,2,5) [OF q] k], goal_cases)
    case R: (1 i t)
    have i: "i < NBUF" using R(7) by (simp add: bheld_def)
    have l: "length (bufs t) = NBUF" using R(3) by (simp add: cache_ok_def)
    show thesis
    proof (rule brelse_ok [OF R(2,3,7) R(14)], assumption, goal_cases)
      case U: (1 u)
      have "bquiet u"
      proof (rule bquietI [OF q U(2,3)])
        fix j assume j: "j < NBUF"
        show "refcnt (bufs u ! j) = 0 \<and> \<not> slocked (slk u (BufSL j))" "B_DIRTY (bufs u ! j) \<Longrightarrow> B_DIRTY (bufs s ! j)"
          using R(11) [of j] R(12,13) bquietD(3,4) [OF q j] U(7,8) i j l by (cases "j = i"; simp)+
      qed
      moreover have "rdblk (d, n) s = Ret (blk s d n, u)" using R(1,8) U(1) by (simp add: rdblk_def)
      ultimately show thesis using that [of u] bframe_trans [OF R(4) U(4)] U(5,6) R(5,6) by simp
    qed
  qed
qed

text \<open>The caller changes the data of a buffer it holds.\<close>

lemma bdata_upd:
  fixes g :: "u8 list \<Rightarrow> u8 list"
  assumes idle: "disk_idle s" and ok: "cache_ok s" and held: "bheld i d n s"
  defines "t \<equiv> buf_upd i (\<lambda>bf. bf\<lparr>bdata := g (bdata bf)\<rparr>) s"
  shows "disk_idle t" "cache_ok t" "bframe s t" "bheld i d n t"
    "blk t = (\<lambda>d' n'. if d' = d \<and> n' = n then g (blk s d n) else blk s d' n')"
proof -
  note h = bheldD [OF ok held]
  have l: "length (bufs s) = NBUF" using ok by (simp add: cache_ok_def)
  have t: "t = put_hw s t" by (simp add: t_def buf_upd_def put_hw_def)
  have "at_rest t" using idle ptable_inv_cong [of t s] live_cong [of t s]
    by (simp add: disk_idle_def at_rest_def t_def) (simp add: buf_upd_def unheld_def)
  then show "disk_idle t" using idle by (simp add: disk_idle_def t_def drive_ready_def inb_def)
  show "bframe s t" by (simp add: t_def)
  let ?bf = "(bufs s ! i)\<lparr>bdata := g (bdata (bufs s ! i))\<rparr>"
  have b: "bufs t = (bufs s)[i := ?bf]" by (simp add: t_def)
  have co: "cache_ok t" and c: "bcached d' n' t = bcached d' n' s" for d' n'
    using cache_ok_locked [OF ok h(1), of t ?bf] h(6,8) b by (simp_all add: t_def)
  show "cache_ok t" by (rule co)
  have e: "bufs t ! j = (if j = i then ?bf else bufs s ! j)" for j using h(1) l by (simp add: b nth_list_update)
  show "bheld i d n t" using held c by (simp add: bheld_def e) (simp add: t_def)
  have "blk t d' n' = (if d' = d \<and> n' = n then g (blk s d n) else blk s d' n')" for d' n'
  proof (cases "d' = d \<and> n' = n")
    case True
    then show ?thesis using c [of d n] h(6,7) held by (simp add: blk_def e bheld_def)
  next
    case False
    then have "bcached d' n' s \<noteq> Some i" using bcachedD [OF ok, of d' n' i] h(2,3) by auto
    moreover have "disk t = disk s" by (simp add: t_def)
    ultimately show ?thesis using False c [of d' n'] by (auto simp: blk_def e split: option.splits)
  qed
  then show "blk t = (\<lambda>d' n'. if d' = d \<and> n' = n then g (blk s d n) else blk s d' n')" by (simp add: fun_eq_iff)
qed

lemma wrblk_ok:
  assumes q: "bquiet s" and k: "d < 2" "n < of_nat FSSIZE" and nc: "\<not> crashn_enable s"
  obtains s' where "wrblk (d, n) g s = Ret s'" "bquiet s'" "bframe s s'"
    "blk s' = (\<lambda>d' n'. if d' = d \<and> n' = n then g (blk s d n) else blk s d' n')"
    "disk s' = (disk s)(unat d := (disk s (unat d))(unat n := g (blk s d n)))"
proof -
  show thesis
  proof (rule bread_ok [OF bquietD(1,2,5) [OF q] k], goal_cases)
    case R: (1 i t)
    have i: "i < NBUF" using R(7) by (simp add: bheld_def)
    have l: "length (bufs t) = NBUF" using R(3) by (simp add: cache_ok_def)
    let ?t = "buf_upd i (\<lambda>bf. bf\<lparr>bdata := g (bdata bf)\<rparr>) t"
    note T = bdata_upd [OF R(2,3,7), of g]
    have nc': "\<not> crashn_enable ?t" using nc R(4) T(3) by (simp add: bframe_def)
    show thesis
    proof (rule bwrite_ok [OF T(1,2,4) nc'], goal_cases)
      case W: (1 w)
      have lw: "bufs w ! i = (bufs t ! i)\<lparr>bdata := g (bdata (bufs t ! i)), B_DIRTY := False\<rparr>" "length (bufs w) = NBUF"
        using W(8) i l by simp_all
      have cl: "bdata (bufs w ! i) = disk w (unat d) (unat n)" using W(10) lw i l by simp
      show thesis
      proof (rule brelse_ok [OF W(2,3,5) cl], goal_cases)
        case U: (1 u)
        have "bquiet u"
        proof (rule bquietI [OF q U(2,3)])
          fix j assume j: "j < NBUF"
          show "refcnt (bufs u ! j) = 0 \<and> \<not> slocked (slk u (BufSL j))" "B_DIRTY (bufs u ! j) \<Longrightarrow> B_DIRTY (bufs s ! j)"
            using R(11) [of j] R(12) bquietD(3,4) [OF q j] U(7,8) W(6,8) i j l lw by (cases "j = i"; simp)+
        qed
        moreover have "wrblk (d, n) g s = Ret u" using R(1) W(1) U(1) by (simp add: wrblk_def)
        moreover have "bframe s u" using bframe_trans [OF R(4) bframe_trans [OF T(3) bframe_trans [OF W(4) U(4)]]] .
        ultimately show thesis using that [of u] U(5,6) W(9,10) T(5) R(5,6,8) i l by (simp cong: if_cong)
      qed
    qed
  qed
qed


definition store_inv :: "'a bc_scheme \<Rightarrow> bool" where
  "store_inv s \<longleftrightarrow> bquiet s \<and> \<not> crashn_enable s"

definition blocks :: "'a bc_scheme \<Rightarrow> u32 \<times> u32 \<Rightarrow> u8 list" where
  "blocks s = (\<lambda>(d, n). blk s d n)"

interpretation cache: block_store rdblk wrblk store_inv blocks block_key
proof unfold_locales
  fix s :: "'a bc_scheme" and k :: "u32 \<times> u32" and g
  obtain d n where k: "k = (d, n)" by (cases k)
  assume a: "store_inv s" "block_key k"
  then have h: "bquiet s" "d < 2" "n < of_nat FSSIZE" "\<not> crashn_enable s" by (simp_all add: store_inv_def block_key_def k)
  obtain s' where "rdblk (d, n) s = Ret (blk s d n, s')" "bquiet s'" "bframe s s'" "blk s' = blk s"
    by (rule rdblk_ok [OF h(1-3)]) blast
  then show "\<exists>s'. rdblk k s = Ret (blocks s k, s') \<and> store_inv s' \<and> blocks s' = blocks s"
    using h(4) by (simp add: k blocks_def store_inv_def bframe_def)
  obtain s' where "wrblk (d, n) g s = Ret s'" "bquiet s'" "bframe s s'"
    "blk s' = (\<lambda>d' n'. if d' = d \<and> n' = n then g (blk s d n) else blk s d' n')"
    by (rule wrblk_ok [OF h, of g]) blast
  then show "\<exists>s'. wrblk k g s = Ret s' \<and> store_inv s' \<and> blocks s' = (blocks s)(k := g (blocks s k))"
    using h(4) by (auto simp: k blocks_def store_inv_def bframe_def fun_eq_iff)
qed

section \<open>Properties\<close>

text \<open>
  C2.  The buffer cache refines a plain array of blocks: every sequence of block reads
  (\<open>bread\<close>, \<open>brelse\<close>) and block updates (\<open>bread\<close>, \<open>bwrite\<close>, \<open>brelse\<close>), run
  by a process while the disk is ready, returns, delivers exactly the values that the same
  sequence delivers on an array, and leaves the contents that the array has, whatever is cached,
  recycled or written back on the way.
\<close>

theorem buffer_cache_refines:
  assumes "store_inv s" "\<forall>x\<in>set xs. block_key (op_key x)"
  shows "\<exists>s'. exec_ops rdblk wrblk xs s = Ret (fst (spec_ops xs (blocks s)), s') \<and> store_inv s' \<and>
     blocks s' = snd (spec_ops xs (blocks s))"
  using assms by (intro cache.exec_refines) auto


subsection \<open>A concrete state\<close>

definition demo_sl :: sl where
  "demo_sl = ps.extend demo_run (sl.fields (\<lambda>_. \<lparr>slocked = False, sname = [], spid = 0\<rparr>))"

text \<open>A ready drive; nothing else of the devices matters here.\<close>

definition demo_io :: io where
  "demo_io = sl.extend demo_sl (io.fields [] (\<lambda>_. 0x40) 0xFFFB False 0 (replicate 8 0) 0 0 (\<lambda>_. 0) (\<lambda>_. 0) (\<lambda>_ _. 0) 0 [] 0 0)"

definition demo_buf :: buf where
  "demo_buf = \<lparr>B_VALID = False, B_DIRTY = False, dev = 0, blockno = 0, refcnt = 0, bdata = replicate 512 0\<rparr>"

definition demo_bc :: bc where
  "demo_bc = io.extend demo_io (bc.fields (\<lambda>d n. replicate 512 (of_nat n)) (replicate NBUF demo_buf) [] True (rev [0..<NBUF]) 0 False 0)"

lemma demo_run_fields:
  "ncli demo_run = 0" "unheld l demo_run" "curproc demo_run = Some 0"
  by (simp_all add: demo_run_def proc_upd_def unheld_def) (simp_all add: demo_ps_simps)

lemma demo_run_inv: "ptable_inv demo_run" "live demo_run"
  using demo_sleeper_ok(1,2) ptable_inv_cong [of demo_sleeper demo_run] live_cong [of demo_sleeper demo_run]
  by (simp_all add: demo_sleeper_def)

lemmas demo_bc_defs = demo_bc_def demo_io_def demo_sl_def io.defs bc.defs sl.defs ps.defs

lemma demo_bc_fields:
  "ptable demo_bc = ptable demo_run" "curproc demo_bc = curproc demo_run" "nextpid demo_bc = nextpid demo_run"
  "ncli demo_bc = ncli demo_run" "spin demo_bc = spin demo_run" "bufs demo_bc = replicate NBUF demo_buf" "bmru demo_bc = rev [0..<NBUF]"
  "idequeue demo_bc = []" "havedisk1 demo_bc" "port_in demo_bc = (\<lambda>_. 0x40)" "\<not> crashn_enable demo_bc"
  "slk demo_bc = (\<lambda>_. \<lparr>slocked = False, sname = [], spid = 0\<rparr>)" "disk demo_bc = (\<lambda>d n. replicate 512 (of_nat n))"
  by (simp_all add: demo_bc_defs)

lemma demo_bc_ok: "store_inv demo_bc"
proof -
  have "at_rest demo_bc"
    using demo_run_fields demo_run_inv ptable_inv_cong [of demo_bc demo_run] live_cong [of demo_bc demo_run]
    by (simp add: at_rest_def unheld_def demo_bc_fields)
  then have "disk_idle demo_bc" by (simp add: disk_idle_def demo_bc_fields drive_ready_def inb_def)
  moreover have "cache_ok demo_bc"
    by (auto simp: cache_ok_def demo_bc_fields buf_ok_def live_buf_def demo_buf_def)
  moreover have "NBUF \<noteq> 0" by (simp add: NBUF_def MAXOPBLOCKS_def)
  ultimately show ?thesis
    by (auto simp: store_inv_def bquiet_def demo_bc_fields demo_buf_def intro!: exI [of _ 0])
qed

theorem buffer_cache_refines_witness:
  "store_inv demo_bc \<and> (\<exists>s'. exec_ops rdblk wrblk [Rd (1, 7), Wr (1, 7) (\<lambda>_. [1, 2]), Rd (1, 7)] demo_bc =
     Ret ([replicate 512 7, [1, 2]], s') \<and> store_inv s')"
proof -
  have k: "block_key (1, 7)" by (simp add: block_key_def FSSIZE_def)
  have "bcached 1 7 demo_bc = None"
    by (auto simp: bcached_def demo_bc_fields demo_buf_def find_None_iff)
  then have "blocks demo_bc (1, 7) = replicate 512 7" by (simp add: blocks_def blk_def demo_bc_fields)
  then show ?thesis
    using buffer_cache_refines [OF demo_bc_ok, of "[Rd (1, 7), Wr (1, 7) (\<lambda>_. [1, 2]), Rd (1, 7)]"] k demo_bc_ok by auto
qed

end
