(* ===== verification/Fs.thy ===== *)
theory Fs
  imports Bio
begin

text \<open>
  \<open>kernel/fs.c\<close>: the free block map, cached inodes, reading of files, directories and path
  names.  A \<open>struct inode *\<close> is an \<open>iptr\<close>: a slot of \<open>icache.inodes\<close> or the inode
  table.  Strings are byte lists without the terminating zero.  Functions that fill a buffer return
  the bytes they put there.

  The device switch \<open>devsw\<close> is an argument of the functions that reach it; the console
  provides its entry.
\<close>

section \<open>Data\<close>

record superblock =
  sb_size :: u32
  nblocks :: u32
  bmapstart :: u32
  inodestart :: u32

record extent =
  startblkno :: u32
  ext_nblocks :: u32

record dinode =
  di_type :: int
  di_devid :: int
  di_size :: u32
  di_data :: extent

record inode =
  i_dev :: u32
  inum :: u32
  ref :: int
  valid :: bool
  itype :: int
  devid :: int
  isize :: u32
  idata :: extent

record stat =
  st_type :: int
  st_dev :: u32
  st_ino :: u32
  st_size :: u32

datatype iptr = INode nat | ITable

record fs = bc +
  sb :: superblock
  inodes :: "inode list"
  inodetable :: inode

record 's devsw =
  d_read :: "(iptr \<Rightarrow> u32 \<Rightarrow> 's \<Rightarrow> (int \<times> u8 list \<times> 's) outcome) option"
  d_write :: "(iptr \<Rightarrow> u8 list \<Rightarrow> u32 \<Rightarrow> 's \<Rightarrow> (int \<times> 's) outcome) option"

type_synonym 's devtab = "int \<Rightarrow> 's devsw"

definition T_DIR :: int where "T_DIR = 1"
definition T_FILE :: int where "T_FILE = 2"
definition T_DEV :: int where "T_DEV = 3"
definition INODETABLEINO :: u32 where "INODETABLEINO = 0"
definition ROOTINO :: u32 where "ROOTINO = 1"
definition sizeof_dinode :: nat where "sizeof_dinode = 64"
definition INODEOFF :: "u32 \<Rightarrow> u32" where "INODEOFF i = i * of_nat sizeof_dinode"
definition BPB :: nat where "BPB = BSIZE * 8"
definition DIRSIZ :: nat where "DIRSIZ = 14"
definition sizeof_dirent :: nat where "sizeof_dirent = 16"

definition BBLOCK :: "u32 \<Rightarrow> superblock \<Rightarrow> u32" where
  "BBLOCK b sbk = b div of_nat BPB + bmapstart sbk"

text \<open>Fields of the on-disk structures, little-endian.\<close>

definition le16 :: "u8 list \<Rightarrow> nat \<Rightarrow> u16" where
  "le16 bs k = ucast (bs ! k) OR push_bit 8 (ucast (bs ! (k + 1)))"

definition le32 :: "u8 list \<Rightarrow> nat \<Rightarrow> u32" where
  "le32 bs k = ucast (le16 bs k) OR push_bit 16 (ucast (le16 bs (k + 2)))"

definition enc16 :: "u16 \<Rightarrow> u8 list" where
  "enc16 w = [ucast w, ucast (drop_bit 8 w)]"

definition enc32 :: "u32 \<Rightarrow> u8 list" where
  "enc32 w = [ucast w, ucast (drop_bit 8 w), ucast (drop_bit 16 w), ucast (drop_bit 24 w)]"

definition dec_superblock :: "u8 list \<Rightarrow> superblock" where
  "dec_superblock bs = \<lparr>sb_size = le32 bs 0, nblocks = le32 bs 4, bmapstart = le32 bs 8, inodestart = le32 bs 12\<rparr>"

definition dec_dinode :: "u8 list \<Rightarrow> dinode" where
  "dec_dinode bs = \<lparr>di_type = sint (le16 bs 0), di_devid = sint (le16 bs 2), di_size = le32 bs 4,
     di_data = \<lparr>startblkno = le32 bs 8, ext_nblocks = le32 bs 12\<rparr>\<rparr>"

definition dec_dirent :: "u8 list \<Rightarrow> u16 \<times> u8 list" where
  "dec_dirent bs = (le16 bs 0, take DIRSIZ (drop 2 bs))"

definition inode_at :: "iptr \<Rightarrow> 'a fs_scheme \<Rightarrow> inode" where
  "inode_at p s = (case p of INode i \<Rightarrow> inodes s ! i | ITable \<Rightarrow> inodetable s)"

definition inode_upd :: "iptr \<Rightarrow> (inode \<Rightarrow> inode) \<Rightarrow> 'a fs_scheme \<Rightarrow> 'a fs_scheme" where
  "inode_upd p f s = (case p of
     INode i \<Rightarrow> s\<lparr>inodes := (inodes s)[i := f (inodes s ! i)]\<rparr>
   | ITable \<Rightarrow> s\<lparr>inodetable := f (inodetable s)\<rparr>)"

definition ilock :: "iptr \<Rightarrow> sleep_id" where
  "ilock p = (case p of INode i \<Rightarrow> InodeSL i | ITable \<Rightarrow> ItableSL)"

section \<open>Blocks\<close>

definition readsb :: "u32 \<Rightarrow> 'a fs_scheme \<Rightarrow> (superblock \<times> 'a fs_scheme) outcome" where
  "readsb d s =
     obind (bread d 1 s) (\<lambda>(b, s1). obind (brelse b s1) (\<lambda>s2. Ret (dec_superblock (bdata (bufs s1 ! b)), s2)))"

text \<open>Marking the bits \<open>start\<close> to \<open>end\<close> of a bitmap block, and the search for \<open>n\<close> clear bits in a row.\<close>

definition bmark_bit :: "bool \<Rightarrow> nat \<Rightarrow> u8 list \<Rightarrow> u8 list outcome" where
  "bmark_bit mk bi bs =
     (let m = push_bit (bi mod 8) 1
      in if mk then Ret (bs[bi div 8 := bs ! (bi div 8) OR m])
         else if bs ! (bi div 8) AND m = 0 then Fail (Panic ''freeing free block'')
         else Ret (bs[bi div 8 := bs ! (bi div 8) AND NOT m]))"

definition bmark :: "nat \<Rightarrow> nat \<Rightarrow> nat \<Rightarrow> bool \<Rightarrow> 'a bc_scheme \<Rightarrow> 'a bc_scheme outcome" where
  "bmark b start stop mk s =
     obind (ofold (bmark_bit mk) [start..<Suc stop] (bdata (bufs s ! b))) (\<lambda>bs.
       Ret (buf_upd b (\<lambda>bf. bf\<lparr>bdata := bs, B_DIRTY := True\<rparr>) s))"

function balloc_scan :: "u8 list \<Rightarrow> nat \<Rightarrow> nat \<Rightarrow> nat \<Rightarrow> nat \<Rightarrow> nat \<Rightarrow> (nat \<times> nat) option" where
  "balloc_scan bs n limit bi sz i =
     (if \<not> bi < limit then None
      else if bs ! (bi div 8) AND push_bit (bi mod 8) 1 = 0
      then let sz1 = sz + 1; i1 = (if sz1 = 1 then bi else i)
           in if sz1 = n then Some (i1, bi) else balloc_scan bs n limit (bi + 1) sz1 i1
      else balloc_scan bs n limit (bi + 1) 0 0)"
  by pat_completeness auto
termination by (relation "measure (\<lambda>(bs, n, limit, bi, sz, i). limit - bi)") auto

text \<open>The superblock is read once at start-up and does not change; the loop has it as an argument.\<close>

function balloc_loop :: "superblock \<Rightarrow> u32 \<Rightarrow> nat \<Rightarrow> nat \<Rightarrow> 'a fs_scheme \<Rightarrow> (u32 \<times> 'a fs_scheme) outcome" where
  "balloc_loop sbk d n b s =
     (if \<not> b < unat (sb_size sbk) then Fail (Panic ''balloc: can't allocate contiguous blocks'')
      else obind (bread d (BBLOCK (of_nat b) sbk) s) (\<lambda>(bp, s1).
        case balloc_scan (bdata (bufs s1 ! bp)) n (min BPB (unat (sb_size sbk) - b)) 0 0 0 of
          Some (i, bi) \<Rightarrow>
            obind (bmark bp i bi True s1) (\<lambda>s2. obind (brelse bp s2) (\<lambda>s3. Ret (of_nat (b + i), s3)))
        | None \<Rightarrow> obind (brelse bp s1) (balloc_loop sbk d n (b + BPB))))"
  by pat_completeness auto
termination
  by (relation "measure (\<lambda>(sbk, d, n, b, s). unat (sb_size sbk) - b)") (auto simp: BPB_def BSIZE_def)

definition balloc :: "u32 \<Rightarrow> nat \<Rightarrow> 'a fs_scheme \<Rightarrow> (u32 \<times> 'a fs_scheme) outcome" where
  "balloc d n s = balloc_loop (sb s) d n 0 s"

definition bfree :: "u32 \<Rightarrow> u32 \<Rightarrow> u32 \<Rightarrow> 'a fs_scheme \<Rightarrow> 'a fs_scheme outcome" where
  "bfree d b n s =
     assertm (1 \<le> n) ''freeing less than 1 block''
       (assertm (BBLOCK b (sb s) = BBLOCK (b + n - 1) (sb s)) ''returned blocks live in different bitmap sectors''
         (obind (bread d (BBLOCK b (sb s)) s) (\<lambda>(bp, s1).
            obind (bmark bp (unat b mod BPB) (unat (b + n - 1) mod BPB) False s1) (brelse bp))))"

section \<open>Inodes\<close>

definition init_inodetable :: "u32 \<Rightarrow> 'a fs_scheme \<Rightarrow> 'a fs_scheme outcome" where
  "init_inodetable d s =
     obind (bread d (inodestart (sb s)) s) (\<lambda>(b, s1).
       let di = dec_dinode (bdata (bufs s1 ! b))
       in brelse b (s1\<lparr>inodetable := \<lparr>i_dev = d, inum = INODETABLEINO, ref = 1, valid = True, itype = di_type di,
                                     devid = di_devid di, isize = di_size di, idata = di_data di\<rparr>\<rparr>))"

definition iinit :: "u32 \<Rightarrow> 'a fs_scheme \<Rightarrow> 'a fs_scheme outcome" where
  "iinit d s =
     (let s1 = fold (\<lambda>i. initsleeplock (InodeSL i) ''inode'') [0..<NINODE] (initlock IcacheLock ''icache'' s);
          s2 = initsleeplock ItableSL ''inodetable'' s1
      in obind (readsb d s2) (\<lambda>(sbk, s3). init_inodetable d (s3\<lparr>sb := sbk\<rparr>)))"

definition iget_section :: "u32 \<Rightarrow> u32 \<Rightarrow> 'a fs_scheme \<Rightarrow> (nat \<times> 'a fs_scheme) outcome" where
  "iget_section d n s =
     (case find_idx (\<lambda>ip. 0 < ref ip \<and> i_dev ip = d \<and> inum ip = n) (inodes s) of
        Some i \<Rightarrow> Ret (i, inode_upd (INode i) (\<lambda>ip. ip\<lparr>ref := ref ip + 1\<rparr>) s)
      | None \<Rightarrow> (case find_idx (\<lambda>ip. ref ip = 0) (inodes s) of
          None \<Rightarrow> Fail (Panic ''iget: no inodes'')
        | Some i \<Rightarrow> Ret (i, inode_upd (INode i) (\<lambda>ip. ip\<lparr>ref := 1, valid := False, i_dev := d, inum := n\<rparr>) s)))"

definition iget :: "u32 \<Rightarrow> u32 \<Rightarrow> 'a fs_scheme \<Rightarrow> (iptr \<times> 'a fs_scheme) outcome" where
  "iget d n s = omap (\<lambda>(i, s1). (INode i, s1)) (with_lock IcacheLock (iget_section d n) s)"

definition idup :: "iptr \<Rightarrow> 'a fs_scheme \<Rightarrow> 'a fs_scheme outcome" where
  "idup p s = omap snd (with_lock IcacheLock (\<lambda>s. Ret ((), inode_upd p (\<lambda>ip. ip\<lparr>ref := ref ip + 1\<rparr>) s)) s)"

definition irelease :: "iptr \<Rightarrow> 'a fs_scheme \<Rightarrow> 'a fs_scheme outcome" where
  "irelease p s =
     omap snd (with_lock IcacheLock
       (\<lambda>s. Ret ((), inode_upd p (\<lambda>ip. ip\<lparr>itype := (if ref ip = 1 then 0 else itype ip), ref := ref ip - 1\<rparr>) s)) s)"

definition unlocki :: "iptr \<Rightarrow> 'a fs_scheme \<Rightarrow> 'a fs_scheme outcome" where
  "unlocki p s =
     obind (holdingsleep (ilock p) s) (\<lambda>(h, s1).
       if \<not> h \<or> ref (inode_at p s1) < 1 then Fail (Panic ''unlocki'') else releasesleep (ilock p) s1)"

text \<open>The block loop of \<open>readi\<close>; \<open>rem\<close> is \<open>n - tot\<close>.\<close>

function readi_loop :: "nat \<Rightarrow> u32 \<Rightarrow> u32 \<Rightarrow> u32 \<Rightarrow> u8 list \<Rightarrow> 'a bc_scheme \<Rightarrow> (u8 list \<times> 'a bc_scheme) outcome" where
  "readi_loop rem d start off acc s =
     (if rem = 0 then Ret (acc, s)
      else obind (bread d (start + off div of_nat BSIZE) s) (\<lambda>(bp, s1).
        let o1 = unat off mod BSIZE;
            m = min rem (BSIZE - o1);
            part = take m (drop o1 (bdata (bufs s1 ! bp)))
        in obind (brelse bp s1) (readi_loop (rem - m) d start (off + of_nat m) (acc @ part))))"
  by pat_completeness auto
termination by (relation "measure (\<lambda>(rem, d, start, off, acc, s). rem)") (auto simp: BSIZE_def)

definition readi :: "'a fs_scheme devtab \<Rightarrow> iptr \<Rightarrow> u32 \<Rightarrow> u32 \<Rightarrow> 'a fs_scheme \<Rightarrow> (int \<times> u8 list \<times> 'a fs_scheme) outcome" where
  "readi devs p off n s =
     obind (holdingsleep (ilock p) s) (\<lambda>(h, s1).
       let ip = inode_at p s1
       in if \<not> h then Fail (Panic ''not holding lock'')
          else if itype ip = T_DEV then
            (if devid ip < 0 \<or> NDEV \<le> devid ip then Ret (- 1, [], s1)
             else case d_read (devs (devid ip)) of None \<Rightarrow> Ret (- 1, [], s1) | Some f \<Rightarrow> f p n s1)
          else if isize ip < off \<or> off + n < off then Ret (- 1, [], s1)
          else
            let n1 = (if isize ip < off + n then isize ip - off else n)
            in obind (readi_loop (unat n1) (i_dev ip) (startblkno (idata ip)) off [] s1) (\<lambda>(bs, s2).
                 Ret (sint n1, bs, s2)))"

text \<open>
  The inode record of number \<open>n\<close>, read through the inode table.  The result of \<open>readi\<close> is
  not checked: after a short read the local variable is uninitialised.
\<close>

definition fetch_dinode :: "'a fs_scheme devtab \<Rightarrow> u32 \<Rightarrow> 'a fs_scheme \<Rightarrow> (dinode \<times> 'a fs_scheme) outcome" where
  "fetch_dinode devs n s =
     obind (readi devs ITable (INODEOFF n) (of_nat sizeof_dinode) s) (\<lambda>(r, bs, s1).
       if length bs < sizeof_dinode then Fail (BadAccess ''uninitialised dinode'') else Ret (dec_dinode bs, s1))"

definition load_inode :: "iptr \<Rightarrow> dinode \<Rightarrow> 'a fs_scheme \<Rightarrow> 'a fs_scheme outcome" where
  "load_inode p di s =
     (let s1 = inode_upd p (\<lambda>ip. ip\<lparr>itype := di_type di, devid := di_devid di, isize := di_size di, idata := di_data di, valid := True\<rparr>) s
      in if di_type di = 0 then Fail (Panic ''iget: no type'') else Ret s1)"

text \<open>
  \<open>locki\<close> on the inode table: \<open>read_dinode\<close> then finds the lock held and reads at once.
\<close>

definition locki_table :: "'a fs_scheme devtab \<Rightarrow> 'a fs_scheme \<Rightarrow> 'a fs_scheme outcome" where
  "locki_table devs s =
     (if ref (inodetable s) < 1 then Fail (Panic ''locki'')
      else obind (acquiresleep ItableSL s) (\<lambda>s1.
        if valid (inodetable s1) then Ret s1
        else obind (fetch_dinode devs (inum (inodetable s1)) s1) (\<lambda>(di, s2). load_inode ITable di s2)))"

definition read_dinode :: "'a fs_scheme devtab \<Rightarrow> u32 \<Rightarrow> 'a fs_scheme \<Rightarrow> (dinode \<times> 'a fs_scheme) outcome" where
  "read_dinode devs n s =
     obind (holdingsleep ItableSL s) (\<lambda>(h, s1).
       obind (if h then Ret s1 else locki_table devs s1) (\<lambda>s2.
         obind (fetch_dinode devs n s2) (\<lambda>(di, s3).
           obind (if h then Ret s3 else unlocki ITable s3) (\<lambda>s4. Ret (di, s4)))))"

definition locki :: "'a fs_scheme devtab \<Rightarrow> iptr \<Rightarrow> 'a fs_scheme \<Rightarrow> 'a fs_scheme outcome" where
  "locki devs p s = (case p of
     ITable \<Rightarrow> locki_table devs s
   | INode i \<Rightarrow>
       if ref (inodes s ! i) < 1 then Fail (Panic ''locki'')
       else obind (acquiresleep (InodeSL i) s) (\<lambda>s1.
         if valid (inodes s1 ! i) then Ret s1
         else obind (locki_table devs s1) (\<lambda>s2.
           obind (read_dinode devs (inum (inodes s2 ! i)) s2) (\<lambda>(di, s3).
             obind (unlocki ITable s3) (load_inode (INode i) di)))))"

definition stati :: "iptr \<Rightarrow> 'a fs_scheme \<Rightarrow> (stat \<times> 'a fs_scheme) outcome" where
  "stati p s =
     obind (holdingsleep (ilock p) s) (\<lambda>(h, s1).
       let ip = inode_at p s1
       in if \<not> h then Fail (Panic ''not holding lock'')
          else Ret (\<lparr>st_type = itype ip, st_dev = i_dev ip, st_ino = inum ip, st_size = isize ip\<rparr>, s1))"

definition concurrent_stati :: "'a fs_scheme devtab \<Rightarrow> iptr \<Rightarrow> 'a fs_scheme \<Rightarrow> (stat \<times> 'a fs_scheme) outcome" where
  "concurrent_stati devs p s =
     obind (locki devs p s) (\<lambda>s1. obind (stati p s1) (\<lambda>(st, s2). obind (unlocki p s2) (\<lambda>s3. Ret (st, s3))))"

definition concurrent_readi ::
  "'a fs_scheme devtab \<Rightarrow> iptr \<Rightarrow> u32 \<Rightarrow> u32 \<Rightarrow> 'a fs_scheme \<Rightarrow> (int \<times> u8 list \<times> 'a fs_scheme) outcome" where
  "concurrent_readi devs p off n s =
     obind (locki devs p s) (\<lambda>s1. obind (readi devs p off n s1) (\<lambda>(r, bs, s2). obind (unlocki p s2) (\<lambda>s3. Ret (r, bs, s3))))"

definition writei :: "'a fs_scheme devtab \<Rightarrow> iptr \<Rightarrow> u8 list \<Rightarrow> u32 \<Rightarrow> u32 \<Rightarrow> 'a fs_scheme \<Rightarrow> (int \<times> 'a fs_scheme) outcome" where
  "writei devs p src off n s =
     obind (holdingsleep (ilock p) s) (\<lambda>(h, s1).
       let ip = inode_at p s1
       in if \<not> h then Fail (Panic ''not holding lock'')
          else if itype ip = T_DEV then
            (if devid ip < 0 \<or> NDEV \<le> devid ip then Ret (- 1, s1)
             else case d_write (devs (devid ip)) of None \<Rightarrow> Ret (- 1, s1) | Some f \<Rightarrow> f p src n s1)
          else Ret (- 1, s1))"

definition concurrent_writei ::
  "'a fs_scheme devtab \<Rightarrow> iptr \<Rightarrow> u8 list \<Rightarrow> u32 \<Rightarrow> u32 \<Rightarrow> 'a fs_scheme \<Rightarrow> (int \<times> 'a fs_scheme) outcome" where
  "concurrent_writei devs p src off n s =
     obind (locki devs p s) (\<lambda>s1. obind (writei devs p src off n s1) (\<lambda>(r, s2). obind (unlocki p s2) (\<lambda>s3. Ret (r, s3))))"

section \<open>Directories and paths\<close>

text \<open>\<open>strncmp\<close> on strings; what follows a string is its terminating zero.\<close>

primrec strncmp_bytes :: "nat \<Rightarrow> u8 list \<Rightarrow> u8 list \<Rightarrow> int" where
  "strncmp_bytes 0 p q = 0"
| "strncmp_bytes (Suc n) p q =
     (let a = (case p of [] \<Rightarrow> 0 | x # _ \<Rightarrow> x); b = (case q of [] \<Rightarrow> 0 | x # _ \<Rightarrow> x)
      in if a \<noteq> 0 \<and> a = b then strncmp_bytes n (tl p) (tl q) else int (unat a) - int (unat b))"

definition namecmp :: "u8 list \<Rightarrow> u8 list \<Rightarrow> int" where
  "namecmp p q = strncmp_bytes DIRSIZ p q"

text \<open>
  The loop of \<open>dirlookup\<close>; there are as many rounds as entries.
\<close>

primrec dirlookup_loop ::
  "nat \<Rightarrow> 'a fs_scheme devtab \<Rightarrow> iptr \<Rightarrow> u8 list \<Rightarrow> u32 \<Rightarrow> 'a fs_scheme \<Rightarrow> ((iptr \<times> u32) option \<times> 'a fs_scheme) outcome" where
  "dirlookup_loop 0 devs dp nm off s = Fail Spin"
| "dirlookup_loop (Suc k) devs dp nm off s =
     (if \<not> off < isize (inode_at dp s) then Ret (None, s)
      else obind (readi devs dp off (of_nat sizeof_dirent) s) (\<lambda>(r, bs, s1).
        if r \<noteq> int sizeof_dirent then Fail (Panic ''dirlink read'')
        else let (n, dname) = dec_dirent bs
          in if n = 0 then dirlookup_loop k devs dp nm (off + of_nat sizeof_dirent) s1
             else if namecmp nm dname = 0
             then omap (\<lambda>(ip, s2). (Some (ip, off), s2)) (iget (i_dev (inode_at dp s1)) (ucast n) s1)
             else dirlookup_loop k devs dp nm (off + of_nat sizeof_dirent) s1))"

definition dirlookup ::
  "'a fs_scheme devtab \<Rightarrow> iptr \<Rightarrow> u8 list \<Rightarrow> 'a fs_scheme \<Rightarrow> ((iptr \<times> u32) option \<times> 'a fs_scheme) outcome" where
  "dirlookup devs dp nm s =
     (if itype (inode_at dp s) \<noteq> T_DIR then Fail (Panic ''dirlookup not DIR'')
      else dirlookup_loop (unat (isize (inode_at dp s)) div sizeof_dirent + 2) devs dp nm 0 s)"

definition slash :: u8 where "slash = 47"

definition skipelem :: "u8 list \<Rightarrow> (u8 list \<times> u8 list) option" where
  "skipelem path =
     (let p = dropWhile (\<lambda>c. c = slash) path
      in if p = [] then None
         else Some (take DIRSIZ (takeWhile (\<lambda>c. c \<noteq> slash) p),
                    dropWhile (\<lambda>c. c = slash) (dropWhile (\<lambda>c. c \<noteq> slash) p)))"

lemma skipelem_shorter: "skipelem path = Some (nm, rest) \<Longrightarrow> length rest < length path"
proof -
  assume a: "skipelem path = Some (nm, rest)"
  let ?p = "dropWhile (\<lambda>c. c = slash) path"
  have p: "?p \<noteq> []" "rest = dropWhile (\<lambda>c. c = slash) (dropWhile (\<lambda>c. c \<noteq> slash) ?p)"
    using a by (auto simp: skipelem_def Let_def split: if_splits)
  have "hd ?p \<noteq> slash" using hd_dropWhile [OF p(1)] .
  then have "dropWhile (\<lambda>c. c \<noteq> slash) ?p = dropWhile (\<lambda>c. c \<noteq> slash) (tl ?p)" using p(1) by (cases ?p) auto
  then have "length (dropWhile (\<lambda>c. c \<noteq> slash) ?p) \<le> length (tl ?p)" by (simp only: length_dropWhile_le)
  also have "\<dots> < length ?p" using p(1) by (cases ?p) auto
  also have "\<dots> \<le> length path" by (rule length_dropWhile_le)
  finally show ?thesis using p(2) le_less_trans [OF length_dropWhile_le] by blast
qed

text \<open>
  The walk of \<open>namex\<close>.  The result is the inode, if any, and the last path element found in
  \<open>name\<close>.
\<close>

function namex_loop ::
  "'a fs_scheme devtab \<Rightarrow> bool \<Rightarrow> u8 list \<Rightarrow> u8 list \<Rightarrow> iptr \<Rightarrow> 'a fs_scheme \<Rightarrow> (iptr option \<times> u8 list \<times> 'a fs_scheme) outcome" where
  "namex_loop devs par path nm ip s =
     (case skipelem path of
        None \<Rightarrow> if par then obind (irelease ip s) (\<lambda>s1. Ret (None, nm, s1)) else Ret (Some ip, nm, s)
      | Some (nm1, rest) \<Rightarrow>
          obind (locki devs ip s) (\<lambda>s1.
            if itype (inode_at ip s1) \<noteq> T_DIR
            then obind (unlocki ip s1) (\<lambda>s2. obind (irelease ip s2) (\<lambda>s3. Ret (None, nm1, s3)))
            else if par \<and> rest = [] then obind (unlocki ip s1) (\<lambda>s2. Ret (Some ip, nm1, s2))
            else obind (dirlookup devs ip nm1 s1) (\<lambda>(r, s2). case r of
              None \<Rightarrow> obind (unlocki ip s2) (\<lambda>s3. obind (irelease ip s3) (\<lambda>s4. Ret (None, nm1, s4)))
            | Some (nxt, _) \<Rightarrow>
                obind (unlocki ip s2) (\<lambda>s3. obind (irelease ip s3) (\<lambda>s4. namex_loop devs par rest nm1 nxt s4)))))"
  by pat_completeness auto
termination
  by (relation "measure (\<lambda>(devs, par, path, nm, ip, s). length path)") (auto dest: skipelem_shorter)

text \<open>
  A relative path starts at \<open>idup(namei("/"))\<close>; \<open>namei("/")\<close> has no element to look up and
  is the \<open>iget\<close> of the root.
\<close>

definition namex ::
  "'a fs_scheme devtab \<Rightarrow> u8 list \<Rightarrow> bool \<Rightarrow> 'a fs_scheme \<Rightarrow> (iptr option \<times> u8 list \<times> 'a fs_scheme) outcome" where
  "namex devs path par s =
     obind (iget (of_nat ROOTDEV) ROOTINO s) (\<lambda>(ip, s1).
       obind (if path \<noteq> [] \<and> hd path = slash then Ret s1 else idup ip s1)
         (namex_loop devs par path [] ip))"

definition namei :: "'a fs_scheme devtab \<Rightarrow> u8 list \<Rightarrow> 'a fs_scheme \<Rightarrow> (iptr option \<times> 'a fs_scheme) outcome" where
  "namei devs path s = omap (\<lambda>(r, nm, s1). (r, s1)) (namex devs path False s)"

definition nameiparent ::
  "'a fs_scheme devtab \<Rightarrow> u8 list \<Rightarrow> 'a fs_scheme \<Rightarrow> (iptr option \<times> u8 list \<times> 'a fs_scheme) outcome" where
  "nameiparent devs path s = namex devs path True s"

definition iopen :: "'a fs_scheme devtab \<Rightarrow> u8 list \<Rightarrow> 'a fs_scheme \<Rightarrow> (iptr option \<times> 'a fs_scheme) outcome" where
  "iopen devs path s =
     obind (namei devs path s) (\<lambda>(r, s1). case r of
       None \<Rightarrow> Ret (None, s1)
     | Some ip \<Rightarrow> obind (locki devs ip s1) (\<lambda>s2. obind (unlocki ip s2) (\<lambda>s3. Ret (Some ip, s3))))"

definition rootlookup :: "'a fs_scheme devtab \<Rightarrow> u8 list \<Rightarrow> 'a fs_scheme \<Rightarrow> (iptr option \<times> 'a fs_scheme) outcome" where
  "rootlookup devs nm s =
     obind (namei devs [slash] s) (\<lambda>(r, s1). case r of
       None \<Rightarrow> Fail (BadAccess ''dirlookup of null'')
     | Some dp \<Rightarrow> omap (\<lambda>(r, s2). (map_option fst r, s2)) (dirlookup devs dp nm s1))"

section \<open>Reading a file\<close>

text \<open>Byte \<open>k\<close> of the extent that starts at block \<open>start\<close> of device \<open>d\<close>.\<close>

definition ext_byte :: "'a bc_scheme \<Rightarrow> u32 \<Rightarrow> u32 \<Rightarrow> nat \<Rightarrow> u8" where
  "ext_byte s d start k = blk s d (start + of_nat (k div BSIZE)) ! (k mod BSIZE)"

definition full_blocks :: "'a bc_scheme \<Rightarrow> bool" where
  "full_blocks s \<longleftrightarrow> (\<forall>d n. length (blk s d n) = BSIZE)"

lemma ext_bytes_block:
  assumes "full_blocks s" "m \<le> BSIZE - k mod BSIZE"
  shows "take m (drop (k mod BSIZE) (blk s d (start + of_nat (k div BSIZE)))) = map (\<lambda>j. ext_byte s d start (k + j)) [0..<m]"
proof (rule nth_equalityI)
  have l: "length (blk s d (start + of_nat (k div BSIZE))) = BSIZE" using assms(1) by (simp add: full_blocks_def)
  have b: "k mod BSIZE < BSIZE" by (simp add: BSIZE_def)
  show "length (take m (drop (k mod BSIZE) (blk s d (start + of_nat (k div BSIZE))))) = length (map (\<lambda>j. ext_byte s d start (k + j)) [0..<m])"
    using l assms(2) by simp
  fix j assume "j < length (take m (drop (k mod BSIZE) (blk s d (start + of_nat (k div BSIZE)))))"
  then have j: "j < m" by simp
  then have lt: "k mod BSIZE + j < BSIZE" using assms(2) by linarith
  have e: "k + j = (k div BSIZE) * BSIZE + (k mod BSIZE + j)" by (simp only: add.assoc [symmetric] div_mult_mod_eq)
  have gen: "(q * BSIZE + r) div BSIZE = q" "(q * BSIZE + r) mod BSIZE = r" if "r < BSIZE" for q r
    using that by (simp_all add: BSIZE_def)
  have "(k + j) div BSIZE = k div BSIZE" "(k + j) mod BSIZE = k mod BSIZE + j"
    using gen [OF lt, of "k div BSIZE"] unfolding e [symmetric] by simp_all
  then show "take m (drop (k mod BSIZE) (blk s d (start + of_nat (k div BSIZE)))) ! j = map (\<lambda>j. ext_byte s d start (k + j)) [0..<m] ! j"
    using j lt l by (simp add: ext_byte_def)
qed

lemma word_div_block: "(off :: u32) div of_nat BSIZE = of_nat (unat off div BSIZE)"
  by (simp add: word_unat_eq_iff unat_div unat_of_nat BSIZE_def) (use unat_lt32 [of off] in auto)

lemma readi_loop_ok:
  assumes "bquiet s" "full_blocks s" "d < 2" "unat off + rem < 2 ^ 32" "unat start + (unat off + rem) div BSIZE < FSSIZE"
  shows "\<exists>s'. readi_loop rem d start off acc s = Ret (acc @ map (\<lambda>j. ext_byte s d start (unat off + j)) [0..<rem], s') \<and>
     bquiet s' \<and> bframe s s' \<and> blk s' = blk s \<and> disk s' = disk s"
  using assms
proof (induction rem d start off acc s rule: readi_loop.induct)
  case (1 rem d start off acc s)
  show ?case
  proof (cases "rem = 0")
    case False
    define o1 where "o1 = unat off mod BSIZE"
    define m where "m = min rem (BSIZE - o1)"
    have o1: "o1 < BSIZE" by (simp add: o1_def BSIZE_def)
    have m: "0 < m" "m \<le> rem" "m \<le> BSIZE - o1" using False o1 by (auto simp: m_def)
    let ?n = "start + off div of_nat BSIZE"
    have n: "?n = start + of_nat (unat off div BSIZE)" by (simp add: word_div_block)
    have "unat off div BSIZE \<le> (unat off + rem) div BSIZE" by (simp add: div_le_mono)
    then have b: "unat start + unat off div BSIZE < FSSIZE" using 1(6) by linarith
    have "unat ?n = unat start + unat off div BSIZE"
      unfolding n using b by (simp add: unat_word_ariths unat_of_nat FSSIZE_def)
    then have "?n < of_nat FSSIZE" using b by (simp add: word_less_nat_alt FSSIZE_def)
    then obtain t where t: "rdblk (d, ?n) s = Ret (blk s d ?n, t)" "bquiet t" "bframe s t" "blk t = blk s" "disk t = disk s"
      using rdblk_ok [OF 1(2) 1(4)] by blast
    then obtain bp s1 where r: "bread d ?n s = Ret (bp, s1)" "brelse bp s1 = Ret t" "bdata (bufs s1 ! bp) = blk s d ?n"
      by (auto simp: rdblk_def)
    have w: "unat (off + of_nat m) = unat off + m"
      using 1(5) m(2) by (simp add: unat_word_ariths unat_of_nat)
    have "\<exists>s'. readi_loop (rem - m) d start (off + of_nat m) (acc @ take m (drop o1 (bdata (bufs s1 ! bp)))) t =
        Ret ((acc @ take m (drop o1 (bdata (bufs s1 ! bp)))) @ map (\<lambda>j. ext_byte t d start (unat (off + of_nat m) + j)) [0..<rem - m], s') \<and>
        bquiet s' \<and> bframe t s' \<and> blk s' = blk t \<and> disk s' = disk t"
      using 1(3,4,5,6) t(2,4) m r(2)
      by (intro 1(1) [OF False r(1) refl o1_def m_def refl]) (simp_all add: full_blocks_def w)
    then obtain s' where s': "readi_loop (rem - m) d start (off + of_nat m) (acc @ take m (drop o1 (bdata (bufs s1 ! bp)))) t =
        Ret ((acc @ take m (drop o1 (bdata (bufs s1 ! bp)))) @ map (\<lambda>j. ext_byte t d start (unat (off + of_nat m) + j)) [0..<rem - m], s')"
      "bquiet s'" "bframe t s'" "blk s' = blk t" "disk s' = disk t" by blast
    have "take m (drop o1 (bdata (bufs s1 ! bp))) = map (\<lambda>j. ext_byte s d start (unat off + j)) [0..<m]"
      unfolding r(3) n o1_def using 1(3) m(3) by (intro ext_bytes_block) (simp_all add: o1_def)
    moreover have "map (\<lambda>j. ext_byte t d start (unat (off + of_nat m) + j)) [0..<rem - m] =
        map (\<lambda>j. ext_byte s d start (unat off + j)) [m..<rem]"
      using m(2) t(4) by (intro nth_equalityI) (simp_all add: ext_byte_def w add.assoc)
    moreover have "[0..<rem] = [0..<m] @ [m..<rem]" using m(2) upt_add_eq_append [of 0 m "rem - m"] by simp
    moreover have "readi_loop rem d start off acc s =
        readi_loop (rem - m) d start (off + of_nat m) (acc @ take m (drop o1 (bdata (bufs s1 ! bp)))) t"
      using False r(1,2) by (subst readi_loop.simps) (simp add: Let_def o1_def m_def)
    ultimately show ?thesis using s' t bframe_trans [OF t(3) s'(3)] by simp
  qed (use 1 in simp)
qed


text \<open>The contents of the file of an inode.\<close>

definition file_byte :: "'a bc_scheme \<Rightarrow> inode \<Rightarrow> nat \<Rightarrow> u8" where
  "file_byte s ip = ext_byte s (i_dev ip) (startblkno (idata ip))"

definition file_in_range :: "inode \<Rightarrow> bool" where
  "file_in_range ip \<longleftrightarrow> i_dev ip < 2 \<and> unat (startblkno (idata ip)) + unat (isize ip) div BSIZE < FSSIZE \<and> unat (isize ip) < 2 ^ 31"

lemma bquiet_settle: "bquiet s \<Longrightarrow> bquiet (settle s)"
proof -
  assume q: "bquiet s"
  have c: "bcached d n (settle s) = bcached d n s" for d n by (simp add: bcached_def)
  have "at_rest (settle s)"
    using at_rest_cong [of s s] q by (simp add: bquiet_def disk_idle_def) (metis settle_put_hw)
  then have "disk_idle (settle s)" using q by (simp add: bquiet_def disk_idle_def drive_ready_def inb_def)
  then show ?thesis using q by (simp add: bquiet_def cache_ok_def buf_ok_def c Let_def)
qed

lemma fs_settle [simp]: "inode_at p (settle s) = inode_at p s" "blk (settle s) = blk s" "bframe s (settle s)"
proof -
  show "inode_at p (settle s) = inode_at p s" by (simp add: inode_at_def settle_def split: iptr.splits)
  have "bcached d n (settle s) = bcached d n s" for d n by (simp add: bcached_def)
  then show "blk (settle s) = blk s" by (simp add: blk_def fun_eq_iff split: option.splits)
  show "bframe s (settle s)" by (subst settle_put_hw) simp
qed

lemma readi_ok:
  assumes q: "bquiet s" and full: "full_blocks s" and lk: "slocked (slk s (ilock p))" "mypid s = Ret (spid (slk s (ilock p)))"
    and ip: "itype (inode_at p s) \<noteq> T_DEV" "file_in_range (inode_at p s)"
    and off: "off \<le> isize (inode_at p s)" "unat off + unat n < 2 ^ 32"
  shows "\<exists>s'. readi devs p off n s =
      Ret (int (min (unat n) (unat (isize (inode_at p s)) - unat off)),
           map (\<lambda>j. file_byte s (inode_at p s) (unat off + j)) [0..<min (unat n) (unat (isize (inode_at p s)) - unat off)], s') \<and>
      bquiet s' \<and> bframe s s' \<and> blk s' = blk s \<and> disk s' = disk s"
proof -
  let ?ip = "inode_at p s"
  define k where "k = min (unat n) (unat (isize ?ip) - unat off)"
  define n1 where "n1 = (if isize ?ip < off + n then isize ?ip - off else n)"
  have rest: "at_rest s" using q by (simp add: bquiet_def disk_idle_def)
  have h: "holdingsleep (ilock p) s = Ret (True, settle s)"
    using holdingsleep_eq [OF at_rest_calm(3) [OF rest] lk(2)] lk(1) by simp
  have le: "unat off \<le> unat (isize ?ip)" using off(1) by (simp add: word_le_nat_alt)
  have s: "unat (off + n) = unat off + unat n" using off(2) by (simp add: unat_word_ariths)
  have n1: "unat n1 = k"
    using off(1) le by (auto simp: n1_def k_def word_less_nat_alt s unat_sub)
  have "k < 2 ^ 31" using ip(2) by (auto simp: k_def file_in_range_def)
  then have sn: "sint n1 = int k" using n1 by (simp add: sint32_nonneg)
  have kb: "unat off + k \<le> unat (isize ?ip)" using le by (simp add: k_def)
  have "unat (startblkno (idata ?ip)) + (unat off + k) div BSIZE < FSSIZE"
    using ip(2) div_le_mono [OF kb, of BSIZE] by (simp add: file_in_range_def)
  moreover have "unat off + k < 2 ^ 32" using off(2) by (simp add: k_def)
  moreover have "full_blocks (settle s)" using full by (simp add: full_blocks_def)
  moreover have "i_dev ?ip < 2" using ip(2) by (simp add: file_in_range_def)
  ultimately obtain s' where s': "readi_loop k (i_dev ?ip) (startblkno (idata ?ip)) off [] (settle s) =
      Ret (map (\<lambda>j. ext_byte (settle s) (i_dev ?ip) (startblkno (idata ?ip)) (unat off + j)) [0..<k], s')"
      "bquiet s'" "bframe (settle s) s'" "blk s' = blk s" "disk s' = disk s"
    using readi_loop_ok [OF bquiet_settle [OF q], of "i_dev ?ip" off k "startblkno (idata ?ip)" "[]"] by auto
  have w: "(isize ?ip < off \<or> off + n < off) = False" using off(1) by (simp add: word_less_nat_alt word_le_nat_alt s)
  have "readi devs p off n s =
      Ret (int k, map (\<lambda>j. ext_byte (settle s) (i_dev ?ip) (startblkno (idata ?ip)) (unat off + j)) [0..<k], s')"
    by (simp only: readi_def h obind.simps prod.case Let_def fs_settle ip(1) simp_thms if_True if_False w n1_def [symmetric] n1 s'(1) sn)
  moreover have "ext_byte (settle s) = ext_byte s" by (simp add: ext_byte_def fun_eq_iff)
  moreover have "bframe s s'" using bframe_trans [OF fs_settle(3) s'(3)] .
  ultimately show ?thesis using s'(2,4,5) unfolding k_def [symmetric] file_byte_def by simp
qed


lemma wraps: "2 ^ 32 \<le> unat (x :: u32) + unat y \<Longrightarrow> x + y < x"
  using no_plus_overflow_unat_size [of x y] by (simp add: word_size not_less [symmetric])

lemma disk_settle: "disk (settle s) = disk s"
  by (simp add: settle_def)

text \<open>
  C3.
  Reading a file.  For a process that holds the sleep lock of the inode of a regular file or a directory whose
  extent lies inside the file system, \<open>readi\<close> always returns: it rejects an offset behind the end of the
  file and an offset plus length that wraps around, and otherwise it delivers exactly the bytes of the file from the
  offset on, as many as were asked for or as there are, whatever mixture of cached and uncached blocks they lie in.
  Neither the contents of the disk nor any other part of the kernel's state is changed, and every buffer
  is released again.
\<close>

theorem readi_correct:
  assumes q: "bquiet s" and full: "full_blocks s" and lk: "slocked (slk s (ilock p))" "mypid s = Ret (spid (slk s (ilock p)))"
    and ip: "itype (inode_at p s) \<noteq> T_DEV" "file_in_range (inode_at p s)"
  shows "\<exists>s'. readi devs p off n s =
      (if isize (inode_at p s) < off \<or> 2 ^ 32 \<le> unat off + unat n then Ret (- 1, [], s')
       else let k = min (unat n) (unat (isize (inode_at p s)) - unat off)
            in Ret (int k, map (\<lambda>j. file_byte s (inode_at p s) (unat off + j)) [0..<k], s')) \<and>
      bquiet s' \<and> bframe s s' \<and> blk s' = blk s \<and> disk s' = disk s"
proof (cases "isize (inode_at p s) < off \<or> 2 ^ 32 \<le> unat off + unat n")
  case False
  then have "off \<le> isize (inode_at p s)" "unat off + unat n < 2 ^ 32" by (simp_all only: de_Morgan_disj not_less not_le)
  from readi_ok [OF q full lk ip this, of devs] show ?thesis by (simp only: False if_False Let_def)
next
  case True
  have "at_rest s" using q by (simp add: bquiet_def disk_idle_def)
  then have h: "holdingsleep (ilock p) s = Ret (True, settle s)"
    using holdingsleep_eq [OF at_rest_calm(3) lk(2)] lk(1) by simp
  have w: "(isize (inode_at p s) < off \<or> off + n < off) = True"
    using True wraps by blast
  have "readi devs p off n s = Ret (- 1, [], settle s)"
    by (simp only: readi_def h obind.simps prod.case Let_def fs_settle ip(1) simp_thms if_True if_False w)
  then show ?thesis
    by (intro exI [of _ "settle s"]) (simp only: True if_True bquiet_settle [OF q] fs_settle simp_thms disk_settle)
qed

text \<open>A mounted file system: one cached inode, of a file of 600 bytes in blocks 7 and 8, locked by the running process.\<close>

definition demo_inode :: inode where
  "demo_inode = \<lparr>i_dev = 1, inum = 3, ref = 1, valid = True, itype = T_FILE, devid = 0, isize = 600,
                 idata = \<lparr>startblkno = 7, ext_nblocks = 2\<rparr>\<rparr>"

definition demo_fs :: fs where
  "demo_fs = bc.extend (demo_bc\<lparr>slk := (\<lambda>l. if l = ilock (INode 0) then \<lparr>slocked = True, sname = [], spid = pid (ptable demo_run ! 0)\<rparr> else slk demo_bc l)\<rparr>)
     (fs.fields \<lparr>sb_size = 1000, nblocks = 900, bmapstart = 2, inodestart = 3\<rparr> [demo_inode] demo_inode)"

lemma demo_fs_fields:
  "ptable demo_fs = ptable demo_run" "curproc demo_fs = curproc demo_run" "nextpid demo_fs = nextpid demo_run"
  "ncli demo_fs = ncli demo_run" "spin demo_fs = spin demo_run" "bufs demo_fs = replicate NBUF demo_buf" "bmru demo_fs = rev [0..<NBUF]"
  "idequeue demo_fs = []" "havedisk1 demo_fs" "port_in demo_fs = (\<lambda>_. 0x40)" "\<not> crashn_enable demo_fs"
  "slk demo_fs (ilock (INode 0)) = \<lparr>slocked = True, sname = [], spid = pid (ptable demo_run ! 0)\<rparr>"
  "\<not> slocked (slk demo_fs (BufSL i))" "disk demo_fs = (\<lambda>d n. replicate 512 (of_nat n))"
  "inode_at (INode 0) demo_fs = demo_inode"
  by (simp_all add: demo_fs_def demo_bc_defs fs.defs ilock_def inode_at_def)

lemma demo_fs_ok: "bquiet demo_fs" "full_blocks demo_fs" "mypid demo_fs = Ret (pid (ptable demo_run ! 0))"
  "blk demo_fs d n = replicate 512 (of_nat (unat n))"
proof -
  have "at_rest demo_fs"
    using demo_run_fields demo_run_inv ptable_inv_cong [of demo_fs demo_run] live_cong [of demo_fs demo_run]
    by (simp add: at_rest_def unheld_def demo_fs_fields)
  then have "disk_idle demo_fs" by (simp add: disk_idle_def demo_fs_fields drive_ready_def inb_def)
  moreover have "cache_ok demo_fs"
    by (auto simp: cache_ok_def demo_fs_fields buf_ok_def live_buf_def demo_buf_def)
  moreover have "NBUF \<noteq> 0" by (simp add: NBUF_def MAXOPBLOCKS_def)
  ultimately show "bquiet demo_fs"
    by (auto simp: bquiet_def demo_fs_fields demo_buf_def intro!: exI [of _ 0])
  have "i < NBUF" if "bcached d n demo_fs = Some i" for d n i
    using that by (auto simp: bcached_def demo_fs_fields find_Some_iff rev_nth)
  then have "\<not> B_VALID (bufs demo_fs ! i)" if "bcached d n demo_fs = Some i" for d n i
    using that by (simp add: demo_fs_fields demo_buf_def)
  then show b: "blk demo_fs d n = replicate 512 (of_nat (unat n))" for d n
    unfolding blk_def by (cases "bcached d n demo_fs") (simp_all add: demo_fs_fields(14))
  show "full_blocks demo_fs" by (simp add: full_blocks_def b BSIZE_def)
  show "mypid demo_fs = Ret (pid (ptable demo_run ! 0))"
    by (simp add: mypid_def demo_fs_fields demo_run_fields myproc_def)
qed

theorem readi_correct_witness:
  "\<exists>s'. readi (\<lambda>_. \<lparr>d_read = None, d_write = None\<rparr>) (INode 0) 510 4 demo_fs = Ret (4, [7, 7, 8, 8], s') \<and> bquiet s'"
proof -
  have f: "file_in_range demo_inode" "itype demo_inode \<noteq> T_DEV" "isize demo_inode = 600"
    by (simp_all add: file_in_range_def demo_inode_def BSIZE_def FSSIZE_def T_FILE_def T_DEV_def)
  have "[0..<4] = [0, 1, 2, 3 :: nat]" by (simp add: numeral_eq_Suc)
  then have b: "map (\<lambda>j. file_byte demo_fs demo_inode (510 + j)) [0..<4] = [7, 7, 8, 8]"
    by (simp add: file_byte_def ext_byte_def demo_inode_def demo_fs_ok(4) BSIZE_def)
  have l: "slocked (slk demo_fs (ilock (INode 0)))" "mypid demo_fs = Ret (spid (slk demo_fs (ilock (INode 0))))"
    by (simp_all add: demo_fs_fields(12) demo_fs_ok(3))
  show ?thesis
    using readi_correct [OF demo_fs_ok(1,2) l, of "\<lambda>_. \<lparr>d_read = None, d_write = None\<rparr>" 510 4] f(1,2)
    by (simp only: demo_fs_fields(15) Let_def) (auto simp: f(3) b)
qed

end
