(* ===== verification/File.thy ===== *)
theory File
  imports Fs
begin

text \<open>
  \<open>kernel/file.c\<close>: open files and pipes.  A file descriptor of a process is an index into
  \<open>global_files\<close>, the null pointer is \<open>None\<close>.  The sleep lock of slot \<open>i\<close> is
  \<open>FileSL i\<close>; the assignments of a whole \<open>file_info\<close> copy the lock of the slot back into
  the slot, so the lock is not part of the record.  A pipe lives in the page that \<open>kalloc\<close>
  returned and is named by the page's address, its lock is \<open>PipeLock\<close>, its two sleep channels
  are \<open>PipeWriter\<close> and \<open>PipeReader\<close>.

  The lemmas show that the ring buffer of a pipe is a bounded first-in-first-out queue and that bytes are neither
  lost nor reordered nor duplicated between \<open>pipe_write\<close> and \<open>pipe_read\<close>.
\<close>

section \<open>State\<close>

record file_info =
  fin :: "iptr option"
  fmode :: int
  foffset :: int
  ref_count :: int
  fpipe :: "u64 option"

record pipe =
  buffer :: "u8 list"
  read_offset :: nat
  write_offset :: nat
  available_bytes :: nat
  read_open :: bool
  write_open :: bool

record fl = fs +
  global_files :: "file_info list"
  pipes :: "u64 \<Rightarrow> pipe"


text \<open>
  \<open>sizeof(struct pipe)\<close>: a pointer, three \<open>int\<close>s, two \<open>bool\<close>s (padded), two pointers and
  a spin lock of 104 bytes.
\<close>

definition sizeof_pipe :: nat where "sizeof_pipe = 144"
definition total_size :: nat where "total_size = 4096 - sizeof_pipe"

definition file_upd :: "nat \<Rightarrow> (file_info \<Rightarrow> file_info) \<Rightarrow> 'a fl_scheme \<Rightarrow> 'a fl_scheme" where
  "file_upd f g s = s\<lparr>global_files := (global_files s)[f := g (global_files s ! f)]\<rparr>"

definition pipe_upd :: "u64 \<Rightarrow> (pipe \<Rightarrow> pipe) \<Rightarrow> 'a fl_scheme \<Rightarrow> 'a fl_scheme" where
  "pipe_upd a g s = s\<lparr>pipes := (pipes s)(a := g (pipes s a))\<rparr>"

text \<open>\<open>process->fds[fd]\<close>, for an access that dereferences it.\<close>

definition fd_file :: "nat \<Rightarrow> nat \<Rightarrow> 'a ps_scheme \<Rightarrow> nat outcome" where
  "fd_file i fd s =
     (if NOFILE \<le> fd then Fail (BadAccess ''fds: index out of range'')
      else case fds (ptable s ! i) ! fd of None \<Rightarrow> Fail (BadAccess ''fds: null file'') | Some f \<Rightarrow> Ret f)"

definition fd_set :: "nat \<Rightarrow> nat \<Rightarrow> nat option \<Rightarrow> 'a ps_scheme \<Rightarrow> 'a ps_scheme" where
  "fd_set i fd v s = proc_upd i (\<lambda>p. p\<lparr>fds := (fds p)[fd := v]\<rparr>) s"

section \<open>Files\<close>

text \<open>The search for a free slot of \<open>global_files\<close>, which becomes \<open>entry\<close>.\<close>

primrec file_claim :: "file_info \<Rightarrow> nat list \<Rightarrow> 'a fl_scheme \<Rightarrow> (nat option \<times> 'a fl_scheme) outcome" where
  "file_claim entry [] s = Ret (None, s)"
| "file_claim entry (i # is) s =
     obind (acquiresleep (FileSL i) s) (\<lambda>s1.
       if ref_count (global_files s1 ! i) = 0
       then obind (releasesleep (FileSL i) (file_upd i (\<lambda>_. entry) s1)) (\<lambda>s2. Ret (Some i, s2))
       else obind (releasesleep (FileSL i) s1) (file_claim entry is))"

definition console_name :: "u8 list" where
  "console_name = [99, 111, 110, 115, 111, 108, 101]"

definition file_open :: "'a fl_scheme devtab \<Rightarrow> u8 list \<Rightarrow> int \<Rightarrow> 'a fl_scheme \<Rightarrow> (int \<times> 'a fl_scheme) outcome" where
  "file_open devs path mode s =
     (if mode = O_CREATE then Ret (- 1, s)
      else if mode \<noteq> O_RDONLY \<and> strncmp_bytes 7 path console_name \<noteq> 0 then Ret (- 1, s)
      else obind (iopen devs path s) (\<lambda>(r, s1). case r of
        None \<Rightarrow> Ret (- 1, s1)
      | Some ip \<Rightarrow> (case curproc s1 of
          None \<Rightarrow> obind (irelease ip s1) (\<lambda>s2. Ret (- 1, s2))
        | Some i \<Rightarrow>
            obind (file_claim \<lparr>fin = Some ip, fmode = mode, foffset = 0, ref_count = 1, fpipe = None\<rparr> [0..<NFILE] s1) (\<lambda>(c, s2).
              case c of
                None \<Rightarrow> obind (irelease ip s2) (\<lambda>s3. Ret (- 1, s3))
              | Some f \<Rightarrow> (case find_idx (\<lambda>x. x = None) (fds (ptable s2 ! i)) of
                  None \<Rightarrow> obind (irelease ip s2) (\<lambda>s3. Ret (- 1, s3))
                | Some fd \<Rightarrow> Ret (int fd, fd_set i fd (Some f) s2))))))"

definition file_dup :: "nat \<Rightarrow> 'a fl_scheme \<Rightarrow> (int \<times> 'a fl_scheme) outcome" where
  "file_dup fd s = (case curproc s of
     None \<Rightarrow> Ret (- 1, s)
   | Some i \<Rightarrow> (case find_idx (\<lambda>x. x = None) (fds (ptable s ! i)) of
       None \<Rightarrow> Fail (BadAccess ''fds: index out of range'')
     | Some k \<Rightarrow>
         if NOFILE \<le> fd then Fail (BadAccess ''fds: index out of range'')
         else let s1 = fd_set i k (fds (ptable s ! i) ! fd) s
         in obind (fd_file i k s1) (\<lambda>f.
              obind (acquiresleep (FileSL f) s1) (\<lambda>s2.
                obind (releasesleep (FileSL f) (file_upd f (\<lambda>x. x\<lparr>ref_count := ref_count x + 1\<rparr>) s2)) (\<lambda>s3.
                  Ret (int k, s3))))))"

section \<open>Pipes\<close>

text \<open>
  The copying loops.  \<open>pipe_drain n\<close> takes up to \<open>n\<close> bytes out of the ring; \<open>pipe_fill\<close>
  puts bytes in while there is room and gives back those that are left.
\<close>

primrec pipe_drain :: "nat \<Rightarrow> pipe \<Rightarrow> u8 list \<times> pipe" where
  "pipe_drain 0 p = ([], p)"
| "pipe_drain (Suc n) p =
     (if available_bytes p > 0
      then let (bs, q) = pipe_drain n (p\<lparr>read_offset := (read_offset p + 1) mod total_size, available_bytes := available_bytes p - 1\<rparr>)
           in (buffer p ! read_offset p # bs, q)
      else ([], p))"

primrec pipe_fill :: "u8 list \<Rightarrow> pipe \<Rightarrow> u8 list \<times> pipe" where
  "pipe_fill [] p = ([], p)"
| "pipe_fill (b # bs) p =
     (if available_bytes p < total_size
      then pipe_fill bs (p\<lparr>buffer := (buffer p)[write_offset p := b], write_offset := (write_offset p + 1) mod total_size,
                           available_bytes := available_bytes p + 1\<rparr>)
      else (b # bs, p))"

text \<open>
  A call either comes back with its result or leaves the process asleep in a state in which the scheduler runs;
  the second case goes on in a \<open>_resume\<close> function when the process is switched to again.
\<close>

datatype ('r, 's) progress = Done 'r | Asleep 's

primrec run_alone :: "('r, 's) progress \<Rightarrow> 'r outcome" where
  "run_alone (Done r) = Ret r"
| "run_alone (Asleep s) = Fail Blocked"

definition pipe_read_data ::
  "nat \<Rightarrow> u64 \<Rightarrow> int \<Rightarrow> 'a fl_scheme \<Rightarrow> (int \<times> u8 list \<times> 'a fl_scheme) outcome" where
  "pipe_read_data f a n s =
     (if available_bytes (pipes s a) = 0
      then obind (release (PipeLock a) s) (\<lambda>s1. obind (releasesleep (FileSL f) s1) (\<lambda>s2. Ret (0, [], s2)))
      else
        let (bs, q) = pipe_drain (nat n) (pipes s a)
        in obind (release (PipeLock a) (pipe_upd a (\<lambda>_. q) s)) (\<lambda>s1.
             obind (releasesleep (FileSL f) s1) (\<lambda>s2. Ret (int (length bs), bs, s2))))"

definition pipe_read_loop ::
  "nat \<Rightarrow> u64 \<Rightarrow> int \<Rightarrow> 'a fl_scheme \<Rightarrow> (int \<times> u8 list \<times> 'a fl_scheme, 'a fl_scheme) progress outcome" where
  "pipe_read_loop f a n s =
     (if available_bytes (pipes s a) = 0 \<and> write_open (pipes s a)
      then obind (wakeup (PipeWriter a) s) (\<lambda>s1.
             obind (releasesleep (FileSL f) s1) (\<lambda>s2. omap Asleep (sleep_switch (PipeReader a) (PipeLock a) s2)))
      else omap Done (pipe_read_data f a n s))"

definition pipe_read_resume ::
  "bool \<Rightarrow> nat \<Rightarrow> u64 \<Rightarrow> int \<Rightarrow> 'a fl_scheme \<Rightarrow> (int \<times> u8 list \<times> 'a fl_scheme, 'a fl_scheme) progress outcome" where
  "pipe_read_resume ie f a n s =
     obind (sleep_resume ie (PipeLock a) s) (\<lambda>s1. obind (acquiresleep (FileSL f) s1) (pipe_read_loop f a n))"

definition pipe_read ::
  "nat \<Rightarrow> int \<Rightarrow> nat \<Rightarrow> 'a fl_scheme \<Rightarrow> (int \<times> u8 list \<times> 'a fl_scheme, 'a fl_scheme) progress outcome" where
  "pipe_read fd n i s =
     obind (fd_file i fd s) (\<lambda>f.
       if fmode (global_files s ! f) \<noteq> O_RDONLY then Ret (Done (- 1, [], s))
       else obind (acquiresleep (FileSL f) s) (\<lambda>s1.
         case fpipe (global_files s1 ! f) of
           None \<Rightarrow> Fail (BadAccess ''pipe_read: null pipe'')
         | Some a \<Rightarrow> obind (acquire (PipeLock a) s1) (pipe_read_loop f a n)))"

definition pipe_write_done :: "nat \<Rightarrow> u64 \<Rightarrow> int \<Rightarrow> 'a fl_scheme \<Rightarrow> (int \<times> 'a fl_scheme) outcome" where
  "pipe_write_done f a idx s =
     obind (release (PipeLock a) s) (\<lambda>s1.
       obind (wakeup (PipeReader a) s1) (\<lambda>s2. obind (releasesleep (FileSL f) s2) (\<lambda>s3. Ret (idx, s3))))"

text \<open>
  One round of the outer loop of \<open>pipe_write\<close>: \<open>n\<close> bytes were to be written, \<open>bs\<close> are those
  that are left, so \<open>idx = n - length bs\<close>.
\<close>

definition pipe_write_loop ::
  "nat \<Rightarrow> u64 \<Rightarrow> nat \<Rightarrow> u8 list \<Rightarrow> 'a fl_scheme \<Rightarrow> (int \<times> 'a fl_scheme, u8 list \<times> 'a fl_scheme) progress outcome" where
  "pipe_write_loop f a n bs s =
     (let idx = int n - int (length bs)
      in if bs = [] then omap Done (pipe_write_done f a idx s)
         else if \<not> read_open (pipes s a)
         then if idx = 0
              then obind (release (PipeLock a) s) (\<lambda>s1. obind (releasesleep (FileSL f) s1) (\<lambda>s2. Ret (Done (- 1, s2))))
              else omap Done (pipe_write_done f a idx s)
         else let (rest, q) = pipe_fill bs (pipes s a); s1 = pipe_upd a (\<lambda>_. q) s
              in if rest = [] then omap Done (pipe_write_done f a (int n) s1)
                 else obind (wakeup (PipeReader a) s1) (\<lambda>s2.
                   omap (\<lambda>s3. Asleep (rest, s3)) (sleep_switch (PipeWriter a) (PipeLock a) s2)))"

definition pipe_write_resume ::
  "bool \<Rightarrow> nat \<Rightarrow> u64 \<Rightarrow> nat \<Rightarrow> u8 list \<Rightarrow> 'a fl_scheme \<Rightarrow> (int \<times> 'a fl_scheme, u8 list \<times> 'a fl_scheme) progress outcome" where
  "pipe_write_resume ie f a n rest s = obind (sleep_resume ie (PipeLock a) s) (pipe_write_loop f a n rest)"

text \<open>\<open>src\<close> is the memory at \<open>buf\<close>; a negative \<open>n\<close> writes nothing.\<close>

definition pipe_write ::
  "nat \<Rightarrow> u8 list \<Rightarrow> int \<Rightarrow> nat \<Rightarrow> 'a fl_scheme \<Rightarrow> (int \<times> 'a fl_scheme, u8 list \<times> 'a fl_scheme) progress outcome" where
  "pipe_write fd src n i s =
     obind (fd_file i fd s) (\<lambda>f.
       if fmode (global_files s ! f) \<noteq> O_WRONLY then Ret (Done (- 1, s))
       else obind (acquiresleep (FileSL f) s) (\<lambda>s1.
         case fpipe (global_files s1 ! f) of
           None \<Rightarrow> Fail (BadAccess ''pipe_write: null pipe'')
         | Some a \<Rightarrow> obind (acquire (PipeLock a) s1) (\<lambda>s2.
             if int (length src) < n then Fail (BadAccess ''pipe_write: source'')
             else pipe_write_loop f a (nat n) (take (nat n) src) s2)))"

text \<open>Called with the lock of the file held.  The page of the pipe is never given back.\<close>

definition pipe_close :: "nat \<Rightarrow> nat \<Rightarrow> 'a fl_scheme \<Rightarrow> (int \<times> 'a fl_scheme) outcome" where
  "pipe_close i fd s =
     obind (fd_file i fd s) (\<lambda>f.
       case fpipe (global_files s ! f) of
         None \<Rightarrow> Fail (BadAccess ''pipe_close: null pipe'')
       | Some a \<Rightarrow>
           obind (acquire (PipeLock a) s) (\<lambda>s1.
             let s2 = file_upd f (\<lambda>x. x\<lparr>ref_count := ref_count x - 1\<rparr>) s1
             in if ref_count (global_files s2 ! f) = 0
                then obind (if fmode (global_files s2 ! f) = O_RDONLY
                            then wakeup (PipeWriter a) (pipe_upd a (\<lambda>p. p\<lparr>read_open := False\<rparr>) s2)
                            else wakeup (PipeReader a) (pipe_upd a (\<lambda>p. p\<lparr>write_open := False\<rparr>) s2)) (\<lambda>s3.
                       obind (release (PipeLock a) s3) (\<lambda>s4.
                         obind (releasesleep (FileSL f) (file_upd f (\<lambda>x. x\<lparr>fpipe := None\<rparr>) s4)) (\<lambda>s5.
                           Ret (0, fd_set i fd None s5))))
                else obind (release (PipeLock a) s2) (\<lambda>s3.
                       obind (releasesleep (FileSL f) s3) (\<lambda>s4. Ret (0, fd_set i fd None s4)))))"

definition file_close :: "nat \<Rightarrow> 'a fl_scheme \<Rightarrow> (int \<times> 'a fl_scheme) outcome" where
  "file_close fd s = (case curproc s of
     None \<Rightarrow> Ret (- 1, s)
   | Some i \<Rightarrow>
       obind (fd_file i fd s) (\<lambda>f.
         obind (acquiresleep (FileSL f) s) (\<lambda>s1.
           if fpipe (global_files s1 ! f) \<noteq> None then pipe_close i fd s1
           else
             let s2 = file_upd f (\<lambda>x. x\<lparr>ref_count := ref_count x - 1\<rparr>) s1
             in obind (if ref_count (global_files s2 ! f) = 0
                       then (case fin (global_files s2 ! f) of
                               None \<Rightarrow> Fail (BadAccess ''file_close: null inode'')
                             | Some ip \<Rightarrow> obind (irelease ip s2) (\<lambda>s3. Ret (file_upd f (\<lambda>x. x\<lparr>fin := None\<rparr>) s3)))
                       else Ret s2) (\<lambda>s3.
                  obind (releasesleep (FileSL f) s3) (\<lambda>s4. Ret (0, fd_set i fd None s4))))))"

definition file_read ::
  "'a fl_scheme devtab \<Rightarrow> nat \<Rightarrow> int \<Rightarrow> 'a fl_scheme \<Rightarrow> (int \<times> u8 list \<times> 'a fl_scheme, 'a fl_scheme) progress outcome" where
  "file_read devs fd n s =
     (if n < 0 then Ret (Done (- 1, [], s))
      else case curproc s of
        None \<Rightarrow> Ret (Done (- 1, [], s))
      | Some i \<Rightarrow>
          obind (fd_file i fd s) (\<lambda>f.
            if fmode (global_files s ! f) \<noteq> O_RDONLY \<and> fmode (global_files s ! f) \<noteq> O_RDWR then Ret (Done (- 1, [], s))
            else if fpipe (global_files s ! f) \<noteq> None then pipe_read fd n i s
            else obind (acquiresleep (FileSL f) s) (\<lambda>s1.
              case fin (global_files s1 ! f) of
                None \<Rightarrow> Fail (Panic ''locki'')
              | Some ip \<Rightarrow>
                  obind (concurrent_readi devs ip (of_int (foffset (global_files s1 ! f))) (of_int n) s1) (\<lambda>(r, bs, s2).
                    obind (releasesleep (FileSL f) (file_upd f (\<lambda>x. x\<lparr>foffset := foffset x + r\<rparr>) s2)) (\<lambda>s3.
                      Ret (Done (r, bs, s3)))))))"

definition file_write ::
  "'a fl_scheme devtab \<Rightarrow> nat \<Rightarrow> u8 list \<Rightarrow> int \<Rightarrow> 'a fl_scheme \<Rightarrow> (int \<times> 'a fl_scheme, u8 list \<times> 'a fl_scheme) progress outcome" where
  "file_write devs fd src n s = (case curproc s of
     None \<Rightarrow> Ret (Done (- 1, s))
   | Some i \<Rightarrow>
       obind (fd_file i fd s) (\<lambda>f.
         if fmode (global_files s ! f) \<noteq> O_WRONLY \<and> fmode (global_files s ! f) \<noteq> O_RDWR then Ret (Done (- 1, s))
         else if fpipe (global_files s ! f) \<noteq> None then pipe_write fd src n i s
         else obind (acquiresleep (FileSL f) s) (\<lambda>s1.
           case fin (global_files s1 ! f) of
             None \<Rightarrow> Fail (Panic ''locki'')
           | Some ip \<Rightarrow>
               obind (concurrent_writei devs ip src (of_int (foffset (global_files s1 ! f))) (of_int n) s1) (\<lambda>(r, s2).
                 obind (releasesleep (FileSL f) (file_upd f (\<lambda>x. x\<lparr>foffset := foffset x + r\<rparr>) s2)) (\<lambda>s3.
                   Ret (Done (r, s3)))))))"

definition file_stat :: "'a fl_scheme devtab \<Rightarrow> nat \<Rightarrow> 'a fl_scheme \<Rightarrow> (int \<times> stat option \<times> 'a fl_scheme) outcome" where
  "file_stat devs fd s = (case curproc s of
     None \<Rightarrow> Ret (- 1, None, s)
   | Some i \<Rightarrow>
       obind (fd_file i fd s) (\<lambda>f.
         if fpipe (global_files s ! f) \<noteq> None then Ret (- 1, None, s)
         else obind (acquiresleep (FileSL f) s) (\<lambda>s1.
           case fin (global_files s1 ! f) of
             None \<Rightarrow> Fail (Panic ''locki'')
           | Some ip \<Rightarrow>
               obind (concurrent_stati devs ip s1) (\<lambda>(st, s2).
                 obind (releasesleep (FileSL f) s2) (\<lambda>s3. Ret (0, Some st, s3))))))"

text \<open>
  \<open>pipe_open\<close>.  The first free descriptor becomes the write end, the second the read end.  The two local
  \<open>file_info\<close>s are not initialised: \<open>junk\<close> stands for the fields that are not assigned.  The loop
  over \<open>global_files\<close> stops as soon as two free slots are found; when there is only one, the lock of
  slot -1 is released.
\<close>

primrec pipe_slots ::
  "file_info \<Rightarrow> nat list \<Rightarrow> nat option \<Rightarrow> 'a fl_scheme \<Rightarrow> (nat option \<times> nat option \<times> 'a fl_scheme) outcome" where
  "pipe_slots junk [] r s = Ret (r, None, s)"
| "pipe_slots junk (i # is) r s =
     obind (acquiresleep (FileSL i) s) (\<lambda>s1.
       if ref_count (global_files s1 ! i) \<noteq> 0 then obind (releasesleep (FileSL i) s1) (pipe_slots junk is r)
       else (case r of
         None \<Rightarrow>
           obind (releasesleep (FileSL i) (file_upd i (\<lambda>_. junk\<lparr>fmode := O_RDONLY, foffset := 0, ref_count := 1\<rparr>) s1))
             (pipe_slots junk is (Some i))
       | Some r0 \<Rightarrow>
           obind (releasesleep (FileSL i) (file_upd i (\<lambda>_. junk\<lparr>fmode := O_WRONLY, foffset := 0, ref_count := 1\<rparr>) s1)) (\<lambda>s2.
             Ret (Some r0, Some i, s2))))"

definition file_modify :: "nat \<Rightarrow> (file_info \<Rightarrow> file_info) \<Rightarrow> 'a fl_scheme \<Rightarrow> 'a fl_scheme outcome" where
  "file_modify f g s = obind (acquiresleep (FileSL f) s) (\<lambda>s1. releasesleep (FileSL f) (file_upd f g s1))"

definition pipe_open :: "file_info \<Rightarrow> 'a fl_scheme \<Rightarrow> (int \<times> (nat \<times> nat) option \<times> 'a fl_scheme) outcome" where
  "pipe_open junk s = (case curproc s of
     None \<Rightarrow> Ret (- 1, None, s)
   | Some i \<Rightarrow> (case find_idx (\<lambda>x. x = None) (fds (ptable s ! i)) of
       None \<Rightarrow> Ret (- 1, None, s)
     | Some fw \<Rightarrow> (case find_idx (\<lambda>x. x = None) (drop (Suc fw) (fds (ptable s ! i))) of
         None \<Rightarrow> Ret (- 1, None, s)
       | Some k \<Rightarrow>
           let fr = Suc fw + k
           in obind (pipe_slots junk [0..<NFILE] None s) (\<lambda>(r, w, s1). case (r, w) of
                (Some r, Some w) \<Rightarrow>
                  obind (kalloc s1) (\<lambda>(a, s2).
                    if a = 0
                    then obind (file_modify r (\<lambda>x. x\<lparr>ref_count := 0\<rparr>) s2) (\<lambda>s3.
                           obind (file_modify w (\<lambda>x. x\<lparr>ref_count := 0\<rparr>) s3) (\<lambda>s4. Ret (- 1, None, s4)))
                    else
                      let s3 = initlock (PipeLock a) ''pipe lock''
                                 (pipe_upd a (\<lambda>p. p\<lparr>available_bytes := 0, read_open := True, write_open := True,
                                                   read_offset := 0, write_offset := 0\<rparr>) s2)
                      in obind (file_modify r (\<lambda>x. x\<lparr>fpipe := Some a\<rparr>) s3) (\<lambda>s4.
                           obind (file_modify w (\<lambda>x. x\<lparr>fpipe := Some a\<rparr>) s4) (\<lambda>s5.
                             Ret (0, Some (fr, fw), fd_set i fw (Some w) (fd_set i fr (Some r) s5)))))
              | (Some r, None) \<Rightarrow>
                  obind (acquiresleep (FileSL r) s1) (\<lambda>s2. Fail (BadAccess ''pipe_open: slot -1''))
              | _ \<Rightarrow> Ret (- 1, None, s1)))))"

section \<open>A pipe is a queue\<close>

text \<open>
  The contract of a bounded byte queue: \<open>put\<close> appends what fits and hands back the rest, \<open>get\<close> removes
  from the front.
\<close>

locale bounded_queue =
  fixes ok :: "'q \<Rightarrow> bool" and items :: "'q \<Rightarrow> 'b list" and cap :: nat
    and put :: "'b list \<Rightarrow> 'q \<Rightarrow> 'b list \<times> 'q" and get :: "nat \<Rightarrow> 'q \<Rightarrow> 'b list \<times> 'q"
  assumes put: "ok q \<Longrightarrow> ok (snd (put bs q)) \<and> items (snd (put bs q)) = items q @ take (cap - length (items q)) bs \<and>
      fst (put bs q) = drop (cap - length (items q)) bs"
    and get: "ok q \<Longrightarrow> ok (snd (get n q)) \<and> fst (get n q) = take n (items q) \<and> items (snd (get n q)) = drop n (items q)"
    and bound: "ok q \<Longrightarrow> length (items q) \<le> cap"

datatype 'b queue_op = Put "'b list" | Get nat

text \<open>Running a sequence of operations: the bytes taken in and the bytes handed out.\<close>

primrec run_ops ::
  "('b list \<Rightarrow> 'q \<Rightarrow> 'b list \<times> 'q) \<Rightarrow> (nat \<Rightarrow> 'q \<Rightarrow> 'b list \<times> 'q) \<Rightarrow> 'b queue_op list \<Rightarrow> 'q \<Rightarrow> 'b list \<times> 'b list \<times> 'q" where
  "run_ops put get [] q = ([], [], q)"
| "run_ops put get (x # xs) q = (case x of
     Put bs \<Rightarrow> (case put bs q of (rest, q1) \<Rightarrow> (case run_ops put get xs q1 of
       (i, out, q2) \<Rightarrow> (take (length bs - length rest) bs @ i, out, q2)))
   | Get n \<Rightarrow> (case get n q of (bs, q1) \<Rightarrow> (case run_ops put get xs q1 of (i, out, q2) \<Rightarrow> (i, bs @ out, q2))))"

context bounded_queue
begin

lemma stream: "ok q \<Longrightarrow> run_ops put get xs q = (i, out, q') \<Longrightarrow> ok q' \<and> items q @ i = out @ items q'"
proof (induction xs arbitrary: q i out q')
  case (Cons x xs)
  show ?case
  proof (cases x)
    case (Put bs)
    obtain rest q1 where p: "put bs q = (rest, q1)" by fastforce
    obtain i1 o1 q2 where r: "run_ops put get xs q1 = (i1, o1, q2)" by (cases "run_ops put get xs q1") auto
    have l: "ok q1" "items q1 = items q @ take (cap - length (items q)) bs" "rest = drop (cap - length (items q)) bs"
      using put [OF Cons.prems(1), of bs] p by simp_all
    have "take (length bs - length rest) bs = take (cap - length (items q)) bs" using l(3) by (cases "length bs \<le> cap - length (items q)") auto
    then show ?thesis using Cons.IH [OF l(1) r] Cons.prems(2) Put p r l(2) by auto
  next
    case (Get n)
    obtain bs q1 where p: "get n q = (bs, q1)" by fastforce
    obtain i1 o1 q2 where r: "run_ops put get xs q1 = (i1, o1, q2)" by (cases "run_ops put get xs q1") auto
    have l: "ok q1" "bs = take n (items q)" "items q1 = drop n (items q)" using get [OF Cons.prems(1), of n] p by simp_all
    have "items q = bs @ items q1" using l by simp
    then show ?thesis using Cons.IH [OF l(1) r] Cons.prems(2) Get p r by auto
  qed
qed simp

lemma roundtrip:
  assumes "ok q" "items q = []" "length bs \<le> cap"
  shows "fst (put bs q) = []" "fst (get (length bs) (snd (put bs q))) = bs" "items (snd (get (length bs) (snd (put bs q)))) = []"
  using put [OF assms(1), of bs] get [of "snd (put bs q)" "length bs"] assms(2,3) by auto

end

definition pipe_items :: "pipe \<Rightarrow> u8 list" where
  "pipe_items p = map (\<lambda>k. buffer p ! ((read_offset p + k) mod total_size)) [0..<available_bytes p]"

definition pipe_ok :: "pipe \<Rightarrow> bool" where
  "pipe_ok p \<longleftrightarrow> length (buffer p) = total_size \<and> read_offset p < total_size \<and> available_bytes p \<le> total_size \<and>
     write_offset p = (read_offset p + available_bytes p) mod total_size"

lemma total_size_pos [simp]: "0 < total_size"
  by (simp add: total_size_def sizeof_pipe_def)

lemma pipe_items_length [simp]: "length (pipe_items p) = available_bytes p"
  by (simp add: pipe_items_def)

lemma pipe_take_one:
  assumes "pipe_ok p" "0 < available_bytes p"
  defines "q \<equiv> p\<lparr>read_offset := (read_offset p + 1) mod total_size, available_bytes := available_bytes p - 1\<rparr>"
  shows "pipe_ok q" "pipe_items p = buffer p ! read_offset p # pipe_items q"
proof -
  obtain m where m: "available_bytes p = Suc m" using assms(2) gr0_implies_Suc by blast
  show "pipe_ok q" using assms(1) m by (simp add: pipe_ok_def q_def mod_simps)
  have "read_offset p < total_size" using assms(1) by (simp add: pipe_ok_def)
  then show "pipe_items p = buffer p ! read_offset p # pipe_items q"
    by (simp add: pipe_items_def q_def m upt_conv_Cons map_Suc_upt [symmetric] mod_simps del: upt_Suc)
qed

lemma ring_slots_distinct:
  assumes "k < (n :: nat)" "n < m"
  shows "(r + k) mod m \<noteq> (r + n) mod m"
proof
  assume "(r + k) mod m = (r + n) mod m"
  then have "m dvd n - k" using assms(1) mod_eq_dvd_iff_nat [of "r + k" "r + n" m] by simp
  then show False using assms by (auto dest: dvd_imp_le)
qed

lemma pipe_put_one:
  fixes b :: u8
  assumes "pipe_ok p" "available_bytes p < total_size"
  defines "q \<equiv> p\<lparr>buffer := (buffer p)[write_offset p := b], write_offset := (write_offset p + 1) mod total_size,
                 available_bytes := available_bytes p + 1\<rparr>"
  shows "pipe_ok q" "pipe_items q = pipe_items p @ [b]"
proof -
  have p: "length (buffer p) = total_size" "write_offset p = (read_offset p + available_bytes p) mod total_size"
    using assms(1) by (simp_all add: pipe_ok_def)
  show "pipe_ok q" using assms(1,2) by (simp add: pipe_ok_def q_def mod_simps)
  have "(read_offset p + available_bytes p) mod total_size \<noteq> (read_offset p + k) mod total_size" if "k < available_bytes p" for k
    using ring_slots_distinct [OF that assms(2)] by metis
  then show "pipe_items q = pipe_items p @ [b]"
    by (auto simp: pipe_items_def q_def p nth_list_update)
qed

interpretation pq: bounded_queue pipe_ok pipe_items total_size pipe_fill pipe_drain
proof unfold_locales
  show "pipe_ok (snd (pipe_fill bs q)) \<and> pipe_items (snd (pipe_fill bs q)) = pipe_items q @ take (total_size - length (pipe_items q)) bs \<and>
      fst (pipe_fill bs q) = drop (total_size - length (pipe_items q)) bs" if "pipe_ok q" for q bs
    using that
  proof (induction bs arbitrary: q)
    case (Cons b bs)
    show ?case
    proof (cases "available_bytes q < total_size")
      case True
      obtain m where m: "total_size - available_bytes q = Suc m" "total_size - Suc (available_bytes q) = m" using True by (metis Suc_diff_Suc)
      show ?thesis using Cons.IH [OF pipe_put_one(1) [OF Cons.prems True, of b]] pipe_put_one(2) [OF Cons.prems True, of b] True
        by (simp add: m)
    next
      case False
      then show ?thesis using Cons.prems by (simp add: pipe_ok_def)
    qed
  qed simp
  show "pipe_ok (snd (pipe_drain n q)) \<and> fst (pipe_drain n q) = take n (pipe_items q) \<and>
      pipe_items (snd (pipe_drain n q)) = drop n (pipe_items q)" if "pipe_ok q" for q n
    using that
  proof (induction n arbitrary: q)
    case (Suc n)
    show ?case
    proof (cases "0 < available_bytes q")
      case True
      show ?thesis using Suc.IH [OF pipe_take_one(1) [OF Suc.prems True]] pipe_take_one(2) [OF Suc.prems True] True
        by (simp add: case_prod_unfold Let_def)
    next
      case False
      then have "pipe_items q = []" by (simp add: pipe_items_def)
      then show ?thesis using Suc.prems False by simp
    qed
  qed simp
  show "length (pipe_items q) \<le> total_size" if "pipe_ok q" for q using that by (simp add: pipe_ok_def)
qed


section \<open>Reading and writing through the kernel\<close>

lemma fl_put_hw [simp]:
  "global_files (put_hw h s) = global_files s" "pipes (put_hw h s) = pipes s"
  "global_files (settle s) = global_files s" "pipes (settle s) = pipes s"
  "global_files (enter l s) = global_files s" "pipes (enter l s) = pipes s"
  "file_upd f g (put_hw h s) = put_hw h (file_upd f g s)" "pipe_upd a k (put_hw h s) = put_hw h (pipe_upd a k s)"
  by (simp_all add: put_hw_def settle_def enter_def file_upd_def pipe_upd_def)

lemma fl_upd_simps [simp]:
  "global_files (slk_upd l g s) = global_files s" "pipes (slk_upd l g s) = pipes s"
  "global_files (wakeup1 c s) = global_files s" "pipes (wakeup1 c s) = pipes s"
  "global_files (pipe_upd a k s) = global_files s" "pipes (pipe_upd a k s) = (pipes s)(a := k (pipes s a))"
  "slk (pipe_upd a k s) = slk s" "ptable (pipe_upd a k s) = ptable s" "curproc (pipe_upd a k s) = curproc s"
  "nextpid (pipe_upd a k s) = nextpid s"
  "mypid (pipe_upd a k s) = mypid s" "same_hw (pipe_upd a k s) t = same_hw s t"
  "cli_ok (pipe_upd a k s) = cli_ok s" "unheld u (pipe_upd a k s) = unheld u s"
  by (simp_all add: slk_upd_def wakeup1_def pipe_upd_def same_hw_def cli_ok_def unheld_def mypid_def myproc_def)

text \<open>A section under the lock of a pipe, entered with nothing else held, whose body is done with the pipe.\<close>

lemma pipe_release:
  assumes "cli_ok s" "unheld (PipeLock a) s"
  shows "release (PipeLock a) (pipe_upd a k (enter (PipeLock a) s)) = Ret (put_hw (settle s) (pipe_upd a k s))"
proof -
  have "pipe_upd a k (enter (PipeLock a) s) = put_hw (enter (PipeLock a) s) (pipe_upd a k s)" by (subst enter_put_hw) simp
  then show ?thesis using release_put_hw [OF assms, of "pipe_upd a k (enter (PipeLock a) s)"] by simp
qed

lemma mypid_wakeup1 [simp]: "ptable_inv s \<Longrightarrow> mypid (wakeup1 c s) = mypid s"
  by (auto simp: mypid_def myproc_def wakeup1_def wake_proc_def ptable_inv_def split: option.splits)

definition writer_done :: "nat \<Rightarrow> u64 \<Rightarrow> pipe \<Rightarrow> 'a fl_scheme \<Rightarrow> 'a fl_scheme" where
  "writer_done f a q s =
     wakeup1 (SleepLkChan (FileSL f)) (slk_upd (FileSL f) (\<lambda>k. k\<lparr>slocked := False, spid := 0\<rparr>)
       (wakeup1 (PipeReader a) (pipe_upd a (\<lambda>_. q) s)))"

text \<open>A process at work on a pipe: nothing but the sleep lock of the file is held.\<close>

definition at_pipe :: "nat \<Rightarrow> 'a fl_scheme \<Rightarrow> bool" where
  "at_pipe f s \<longleftrightarrow> at_rest s \<and> slocked (slk s (FileSL f)) \<and> mypid s = Ret (spid (slk s (FileSL f)))"

lemma at_pipe_acquire:
  assumes "at_rest s" "curproc s = Some i" "\<not> slocked (slk s (FileSL f))"
  defines "t \<equiv> slk_upd (FileSL f) (\<lambda>k. k\<lparr>slocked := True, spid := pid (ptable s ! i)\<rparr>) s"
  shows "acquiresleep (FileSL f) s = Ret (put_hw (settle s) t)" "at_pipe f (put_hw (settle s) t)"
proof -
  have m: "mypid s = Ret (pid (ptable s ! i))" using assms(2) by (simp add: mypid_def myproc_def)
  show "acquiresleep (FileSL f) s = Ret (put_hw (settle s) t)"
    unfolding t_def using acquiresleep_eq [OF at_rest_calm(3) [OF assms(1)] m assms(3)] .
  have "at_rest (put_hw (settle s) t)" unfolding t_def by (rule at_rest_cong [OF assms(1)]) (simp_all add: slk_upd_def)
  then show "at_pipe f (put_hw (settle s) t)" by (simp add: at_pipe_def t_def m)
qed

lemma pipe_write_done_eq:
  assumes "at_pipe f s"
  shows "pipe_write_done f a idx (pipe_upd a (\<lambda>_. q) (enter (PipeLock a) s)) = Ret (idx, put_hw (settle s) (writer_done f a q s))"
proof -
  have rest: "at_rest s" "cli_ok s" "unheld u s" "calm l s" for u l using assms at_rest_calm by (auto simp: at_pipe_def)
  let ?t = "pipe_upd a (\<lambda>_. q) s"
  have inv: "ptable_inv ?t" using rest(1) ptable_inv_cong [of ?t s] by (simp add: at_rest_def)
  have "release (PipeLock a) (pipe_upd a (\<lambda>_. q) (enter (PipeLock a) s)) = Ret (put_hw (settle s) ?t)"
    by (rule pipe_release) (rule rest)+
  moreover have "wakeup (PipeReader a) (put_hw (settle s) ?t) = Ret (put_hw (settle s) (wakeup1 (PipeReader a) ?t))"
    using rest by (subst wakeup_eq) simp_all
  moreover have "releasesleep (FileSL f) (put_hw (settle s) (wakeup1 (PipeReader a) ?t)) =
      Ret (put_hw (settle s) (writer_done f a q s))"
    using rest assms inv by (subst releasesleep_eq) (simp_all add: at_pipe_def writer_done_def)
  ultimately show ?thesis by (simp add: pipe_write_done_def)
qed

lemma pipe_upd_same [simp]: "pipe_upd a (\<lambda>_. pipes s a) s = s"
  by (simp add: pipe_upd_def)

lemma pipe_write_eq:
  assumes rest: "at_rest s" and i: "curproc s = Some i" and fd: "fd_file i fd s = Ret f"
    and f: "fmode (global_files s ! f) = O_WRONLY" "fpipe (global_files s ! f) = Some a" "\<not> slocked (slk s (FileSL f))"
    and p: "pipe_ok (pipes s a)" "read_open (pipes s a)"
    and n: "available_bytes (pipes s a) + nat n \<le> total_size" "n \<le> int (length src)"
  shows "pipe_write fd src n i s = Ret (Done (int (nat n), put_hw (settle s)
     (writer_done f a (snd (pipe_fill (take (nat n) src) (pipes s a)))
       (slk_upd (FileSL f) (\<lambda>k. k\<lparr>slocked := True, spid := pid (ptable s ! i)\<rparr>) s))))"
proof -
  define t where "t = slk_upd (FileSL f) (\<lambda>k. k\<lparr>slocked := True, spid := pid (ptable s ! i)\<rparr>) s"
  define u where "u = put_hw (settle s) t"
  have a: "acquiresleep (FileSL f) s = Ret u" "at_pipe f u"
    unfolding u_def t_def using at_pipe_acquire [OF rest i f(3)] by simp_all
  then have "unheld (PipeLock a) u" using at_rest_calm(2) by (auto simp: at_pipe_def)
  then have e: "acquire (PipeLock a) u = Ret (enter (PipeLock a) u)" by (rule acquire_enter)
  have g: "global_files u = global_files s" "pipes u = pipes s" by (simp_all add: u_def t_def)
  have r: "fst (pipe_fill (take (nat n) src) (pipes s a)) = []"
    using pq.put [OF p(1), of "take (nat n) src"] n(1) by simp
  have l: "length (take (nat n) src) = nat n" using n(2) by simp
  have "pipe_write_loop f a (nat n) (take (nat n) src) (enter (PipeLock a) u) =
      omap Done (pipe_write_done f a (int (nat n)) (pipe_upd a (\<lambda>_. snd (pipe_fill (take (nat n) src) (pipes s a))) (enter (PipeLock a) u)))"
  proof (cases "take (nat n) src = []")
    case True
    have "pipe_upd a (\<lambda>_. pipes s a) (enter (PipeLock a) u) = enter (PipeLock a) u"
      using pipe_upd_same [of a "enter (PipeLock a) u"] by (simp add: g)
    moreover have "nat n = 0" using l unfolding True by simp
    ultimately show ?thesis by (simp add: pipe_write_loop_def)
  next
    case False
    then show ?thesis using r p(2) l by (simp add: pipe_write_loop_def g Let_def case_prod_unfold)
  qed
  also have "\<dots> = Ret (Done (int (nat n), put_hw (settle u) (writer_done f a (snd (pipe_fill (take (nat n) src) (pipes s a))) u)))"
    by (simp add: pipe_write_done_eq [OF a(2)])
  also have "put_hw (settle u) (writer_done f a q u) = put_hw (settle s) (writer_done f a q t)" for q
    by (simp add: u_def writer_done_def settle_put)
  finally show ?thesis using a(1) e fd f n(2) by (simp add: pipe_write_def g t_def [symmetric])
qed


definition reader_done :: "nat \<Rightarrow> u64 \<Rightarrow> pipe \<Rightarrow> 'a fl_scheme \<Rightarrow> 'a fl_scheme" where
  "reader_done f a q s =
     wakeup1 (SleepLkChan (FileSL f)) (slk_upd (FileSL f) (\<lambda>k. k\<lparr>slocked := False, spid := 0\<rparr>) (pipe_upd a (\<lambda>_. q) s))"

lemma pipe_read_eq:
  assumes rest: "at_rest s" and i: "curproc s = Some i" and fd: "fd_file i fd s = Ret f"
    and f: "fmode (global_files s ! f) = O_RDONLY" "fpipe (global_files s ! f) = Some a" "\<not> slocked (slk s (FileSL f))"
    and p: "pipe_ok (pipes s a)" "0 < available_bytes (pipes s a)"
  shows "pipe_read fd n i s = Ret (Done (int (length (take (nat n) (pipe_items (pipes s a)))), take (nat n) (pipe_items (pipes s a)),
     put_hw (settle s) (reader_done f a (snd (pipe_drain (nat n) (pipes s a)))
       (slk_upd (FileSL f) (\<lambda>k. k\<lparr>slocked := True, spid := pid (ptable s ! i)\<rparr>) s))))"
proof -
  define t where "t = slk_upd (FileSL f) (\<lambda>k. k\<lparr>slocked := True, spid := pid (ptable s ! i)\<rparr>) s"
  define u where "u = put_hw (settle s) t"
  define q where "q = snd (pipe_drain (nat n) (pipes s a))"
  have a: "acquiresleep (FileSL f) s = Ret u" "at_pipe f u"
    unfolding u_def t_def using at_pipe_acquire [OF rest i f(3)] by simp_all
  then have c: "cli_ok u" "unheld l u" "calm k u" for l k using at_rest_calm by (auto simp: at_pipe_def)
  then have e: "acquire (PipeLock a) u = Ret (enter (PipeLock a) u)" using acquire_enter by blast
  have g: "global_files u = global_files s" "pipes u = pipes s" by (simp_all add: u_def t_def)
  have d: "pipe_drain (nat n) (pipes s a) = (take (nat n) (pipe_items (pipes s a)), q)"
    using pq.get [OF p(1), of "nat n"] by (simp add: q_def prod_eq_iff)
  have "releasesleep (FileSL f) (put_hw (settle u) (pipe_upd a (\<lambda>_. q) u)) = Ret (put_hw (settle u) (reader_done f a q u))"
    using c a(2) by (subst releasesleep_eq) (simp_all add: at_pipe_def reader_done_def)
  then have "pipe_read_loop f a n (enter (PipeLock a) u) =
      Ret (Done (int (length (take (nat n) (pipe_items (pipes s a)))), take (nat n) (pipe_items (pipes s a)), put_hw (settle u) (reader_done f a q u)))"
    using p(2) pipe_release [OF c(1,2), of a] d by (simp add: pipe_read_loop_def pipe_read_data_def g)
  moreover have "put_hw (settle u) (reader_done f a q u) = put_hw (settle s) (reader_done f a q t)"
    by (simp add: u_def reader_done_def)
  ultimately show ?thesis using a(1) e fd f by (simp add: pipe_read_def g t_def [symmetric] q_def [symmetric])
qed

lemma at_rest_done:
  assumes "at_rest s" "ptable t = ptable s" "curproc t = curproc s" "nextpid t = nextpid s"
  shows "at_rest (put_hw (settle s) (writer_done f a q t))" "at_rest (put_hw (settle s) (reader_done f a q t))"
proof -
  show "at_rest (put_hw (settle s) (reader_done f a q t))"
    by (rule at_rest_wakeup1 [OF assms(1), where c = "SleepLkChan (FileSL f)"]) (simp_all add: reader_done_def wakeup1_def assms slk_upd_def pipe_upd_def)
  have "at_rest (put_hw (settle s) (wakeup1 (PipeReader a) (pipe_upd a (\<lambda>_. q) t)))"
    by (rule at_rest_wakeup1 [OF assms(1), where c = "PipeReader a"]) (simp_all add: wakeup1_def assms pipe_upd_def)
  from at_rest_wakeup1 [OF this, where c = "SleepLkChan (FileSL f)" and t = "put_hw (settle s) (writer_done f a q t)"]
  show "at_rest (put_hw (settle s) (writer_done f a q t))"
    by (simp add: writer_done_def wakeup1_def slk_upd_def)
qed


lemma done_simps [simp]:
  "global_files (writer_done f a q s) = global_files s" "pipes (writer_done f a q s) = (pipes s)(a := q)"
  "curproc (writer_done f a q s) = curproc s" "nextpid (writer_done f a q s) = nextpid s"
  "ptable (writer_done f a q s) = map (wake_proc (SleepLkChan (FileSL f)) \<circ> wake_proc (PipeReader a)) (ptable s)"
  "slk (writer_done f a q s) = (slk s)(FileSL f := (slk s (FileSL f))\<lparr>slocked := False, spid := 0\<rparr>)"
  "global_files (reader_done f a q s) = global_files s" "pipes (reader_done f a q s) = (pipes s)(a := q)"
  "slk (reader_done f a q s) = (slk s)(FileSL f := (slk s (FileSL f))\<lparr>slocked := False, spid := 0\<rparr>)"
  by (simp_all add: writer_done_def reader_done_def wakeup1_def slk_upd_def pipe_upd_def)

lemma wake_proc_simps [simp]: "fds (wake_proc c p) = fds p" "pid (wake_proc c p) = pid p"
  by (simp_all add: wake_proc_def)

text \<open>
  C8.
  Bytes pass through a pipe unchanged.  A process that writes to a pipe with an open read end and enough room, and then reads from
  it, gets the bytes that were in the pipe followed by those it wrote, in order, as many as it asked
  for; the rest stays in the pipe.  Both calls return, no lock is left held, no other pipe and no open file changes.
\<close>

theorem pipe_transfer:
  assumes "at_rest s" "curproc s = Some i" "i < length (ptable s)" "fd_file i wr s = Ret fw" "fd_file i rd s = Ret fr"
    and "fmode (global_files s ! fw) = O_WRONLY" "fpipe (global_files s ! fw) = Some a" "\<not> slocked (slk s (FileSL fw))"
    and "fmode (global_files s ! fr) = O_RDONLY" "fpipe (global_files s ! fr) = Some a" "\<not> slocked (slk s (FileSL fr))"
    and "pipe_ok (pipes s a)" "read_open (pipes s a)"
    and "0 < n" "available_bytes (pipes s a) + nat n \<le> total_size" "n \<le> int (length src)"
  defines "stream \<equiv> pipe_items (pipes s a) @ take (nat n) src"
  shows "\<exists>s1 s2. pipe_write wr src n i s = Ret (Done (n, s1)) \<and>
     pipe_read rd m i s1 = Ret (Done (int (length (take (nat m) stream)), take (nat m) stream, s2)) \<and>
     pipe_ok (pipes s2 a) \<and> pipe_items (pipes s2 a) = drop (nat m) stream \<and> (\<forall>b. b \<noteq> a \<longrightarrow> pipes s2 b = pipes s b) \<and>
     global_files s2 = global_files s \<and> at_rest s2 \<and> \<not> slocked (slk s2 (FileSL fw)) \<and> \<not> slocked (slk s2 (FileSL fr))"
proof -
  define q where "q = snd (pipe_fill (take (nat n) src) (pipes s a))"
  define t where "t = slk_upd (FileSL fw) (\<lambda>k. k\<lparr>slocked := True, spid := pid (ptable s ! i)\<rparr>) s"
  define s1 where "s1 = put_hw (settle s) (writer_done fw a q t)"
  have w: "pipe_write wr src n i s = Ret (Done (n, s1))"
    using pipe_write_eq [OF assms(1,2,4,6,7,8,12,13,15,16)] assms(14) by (simp add: s1_def q_def t_def)
  have q: "pipe_ok q" "pipe_items q = stream"
    using pq.put [OF assms(12), of "take (nat n) src"] assms(15) by (simp_all add: q_def stream_def)
  have r1: "at_rest s1" unfolding s1_def by (rule at_rest_done [OF assms(1)]) (simp_all add: t_def slk_upd_def)
  have neq: "fw \<noteq> fr" using assms(6,9) by (auto simp: O_WRONLY_def O_RDONLY_def)
  have s1: "curproc s1 = Some i" "global_files s1 = global_files s" "pipes s1 = (pipes s)(a := q)" "fd_file i rd s1 = Ret fr"
    "\<not> slocked (slk s1 (FileSL fr))" "\<not> slocked (slk s1 (FileSL fw))"
    using assms(2,3,5,11) neq by (auto simp: s1_def t_def fd_file_def split: if_splits)
  have "0 < length (take (nat n) src)" using assms(14,16) by simp
  moreover have "length stream = available_bytes (pipes s a) + length (take (nat n) src)"
    by (simp only: stream_def length_append pipe_items_length)
  moreover have "length stream = available_bytes q" using q(2) pipe_items_length [of q] by simp
  ultimately have "0 < available_bytes q" by linarith
  then have ok: "pipe_ok (pipes s1 a)" "0 < available_bytes (pipes s1 a)" using q(1) s1(3) by simp_all
  have f: "fmode (global_files s1 ! fr) = O_RDONLY" "fpipe (global_files s1 ! fr) = Some a" using assms(9,10) s1(2) by simp_all
  define u where "u = slk_upd (FileSL fr) (\<lambda>k. k\<lparr>slocked := True, spid := pid (ptable s1 ! i)\<rparr>) s1"
  define q2 where "q2 = snd (pipe_drain (nat m) q)"
  define s2 where "s2 = put_hw (settle s1) (reader_done fr a q2 u)"
  have r: "pipe_read rd m i s1 = Ret (Done (int (length (take (nat m) stream)), take (nat m) stream, s2))"
    using pipe_read_eq [OF r1 s1(1,4) f s1(5) ok, of m] q(2) s1(3) by (simp add: s2_def q2_def u_def)
  have "at_rest s2" unfolding s2_def by (rule at_rest_done [OF r1]) (simp_all add: u_def slk_upd_def)
  moreover have "pipe_ok q2" "pipe_items q2 = drop (nat m) stream" using pq.get [OF q(1), of "nat m"] q(2) by (simp_all add: q2_def)
  ultimately show ?thesis using w r s1 by (intro exI [of _ s1] exI [of _ s2]) (simp add: s2_def u_def)
qed

lemma at_rest_cur: "at_rest s \<Longrightarrow> curproc s = Some i \<Longrightarrow> i < length (ptable s)"
  by (auto simp: at_rest_def ptable_inv_def)

text \<open>The state in which a writer that has filled the pipe leaves the processor.\<close>

definition writer_waits :: "nat \<Rightarrow> u64 \<Rightarrow> pipe \<Rightarrow> 'a fl_scheme \<Rightarrow> 'a fl_scheme" where
  "writer_waits i a q s = slept i (PipeWriter a) (wakeup1 (PipeReader a) (pipe_upd a (\<lambda>_. q) s))"

lemma pipe_write_full:
  assumes rest: "at_rest s" and i: "curproc s = Some i" and fd: "fd_file i fd s = Ret f"
    and f: "fmode (global_files s ! f) = O_WRONLY" "fpipe (global_files s ! f) = Some a" "\<not> slocked (slk s (FileSL f))"
    and p: "pipe_ok (pipes s a)" "read_open (pipes s a)"
    and n: "total_size < available_bytes (pipes s a) + nat n" "n \<le> int (length src)"
  defines "t \<equiv> slk_upd (FileSL f) (\<lambda>k. k\<lparr>slocked := True, spid := pid (ptable s ! i)\<rparr>) s"
  shows "\<exists>h. pipe_write fd src n i s = Ret (Asleep (drop (total_size - available_bytes (pipes s a)) (take (nat n) src),
       put_hw h (writer_waits i a (snd (pipe_fill (take (nat n) src) (pipes s a))) t))) \<and> sched_hw h \<and> unheld (PipeLock a) h"
proof -
  define u where "u = put_hw (settle s) t"
  define q where "q = snd (pipe_fill (take (nat n) src) (pipes s a))"
  define v where "v = pipe_upd a (\<lambda>_. q) (enter (PipeLock a) u)"
  have a: "acquiresleep (FileSL f) s = Ret u" "at_pipe f u"
    unfolding u_def t_def using at_pipe_acquire [OF rest i f(3)] by simp_all
  then have c: "at_rest u" "cli_ok u" "unheld l u" for l using at_rest_calm by (auto simp: at_pipe_def)
  then have e: "acquire (PipeLock a) u = Ret (enter (PipeLock a) u)" using acquire_enter by blast
  have g: "global_files u = global_files s" "pipes u = pipes s" "curproc u = Some i" "ptable u = ptable s"
    using i by (simp_all add: u_def t_def slk_upd_def)
  have r: "pipe_fill (take (nat n) src) (pipes s a) = (drop (total_size - available_bytes (pipes s a)) (take (nat n) src), q)"
    using pq.put [OF p(1), of "take (nat n) src"] by (simp add: q_def prod_eq_iff)
  have l: "length (take (nat n) src) = nat n" using n(2) by simp
  have ne: "take (nat n) src \<noteq> []" "drop (total_size - available_bytes (pipes s a)) (take (nat n) src) \<noteq> []"
    using n(1) l p(1) by (auto simp: pipe_ok_def simp del: length_take)
  have sv: "sole_lock (PipeLock a) v" "unheld PtableLock v" "curproc v = Some i" "i < length (ptable v)"
    using c(1,3) g at_rest_cur [OF c(1) g(3)] unfolding at_rest_def
    by (simp_all add: v_def pipe_upd_def sole_lock_def holding_def enter_def unheld_def)
  define w where "w = wakeup1 (PipeReader a) v"
  have "settle v = v" using sv(1) by (intro settle_inside) (simp add: sole_lock_def)
  moreover have "cli_ok v" using sv(1) by (simp add: sole_lock_def cli_ok_def)
  ultimately have wk: "wakeup (PipeReader a) v = Ret w" using wakeup_eq [of v] sv(2) by (simp add: w_def) (simp add: wakeup1_def put_hw_def)
  have sw: "sole_lock (PipeLock a) w" "unheld PtableLock w" "curproc w = Some i" "i < length (ptable w)"
    using sv by (simp_all add: w_def wakeup1_def sole_lock_def holding_def unheld_def)
  let ?h = "(let_go (PipeLock a) (enter PtableLock w))\<lparr>ncli := 1\<rparr>"
  have sl: "sleep_switch (PipeWriter a) (PipeLock a) w = Ret (put_hw ?h (slept i (PipeWriter a) w))"
    using sw by (intro sleep_switch_eq) simp_all
  have "put_hw ?h (slept i (PipeWriter a) w) = put_hw ?h (writer_waits i a q t)"
  proof -
    have "enter (PipeLock a) u = put_hw (enter (PipeLock a) u) t" by (subst enter_put_hw) (simp add: u_def)
    then have "w = put_hw (enter (PipeLock a) u) (wakeup1 (PipeReader a) (pipe_upd a (\<lambda>_. q) t))" unfolding w_def v_def by (metis ps_upd_put_hw(2) fl_put_hw(8))
    then show ?thesis by (simp add: writer_waits_def slept_def)
  qed
  moreover have "pipe_write_loop f a (nat n) (take (nat n) src) (enter (PipeLock a) u) =
      omap (\<lambda>s3. Asleep (drop (total_size - available_bytes (pipes s a)) (take (nat n) src), s3)) (sleep_switch (PipeWriter a) (PipeLock a) w)"
    using r ne p(2) wk l by (simp add: pipe_write_loop_def g Let_def v_def)
  moreover have "sched_hw ?h" "unheld (PipeLock a) ?h"
    by (simp_all add: sched_hw_def let_go_def holding_def unheld_def enter_def)
  ultimately show ?thesis using sl a(1) e fd f n(2) by (intro exI [of _ ?h]) (simp add: pipe_write_def g q_def [symmetric])
qed

lemma writer_waits_back:
  fixes s t :: "'a fl_scheme"
  assumes "at_rest s" "curproc s = Some i" "ptable t = ptable s" "curproc t = curproc s" "nextpid t = nextpid s" "sched_hw h"
  shows "switched_back (put_hw h (writer_waits i a q t))"
proof -
  let ?w = "wakeup1 (PipeReader a) (pipe_upd a (\<lambda>_. q) t)"
  have "at_rest (put_hw (settle s) ?w)"
    by (rule at_rest_wakeup1 [OF assms(1), where c = "PipeReader a"]) (simp_all add: wakeup1_def assms pipe_upd_def)
  then have w: "ptable_inv ?w" "live ?w" using live_cong [of "put_hw (settle s) ?w" ?w] by (simp_all add: at_rest_def)
  have c: "curproc ?w = Some i" using assms by (simp add: wakeup1_def)
  then have i: "i < NPROC" "state (ptable ?w ! i) = RUNNING" using ptable_invD(2,3) [OF w(1)] by auto
  have "ptable_inv ((writer_waits i a q t)\<lparr>curproc := None\<rparr>)"
    unfolding writer_waits_def slept_def by (rule ptable_inv_leave [OF w(1) c]) simp_all
  moreover have "live (writer_waits i a q t)"
    unfolding writer_waits_def slept_def
    using liveD [OF w(2) ptable_invD(1) [OF w(1)] i(1)] i(2) by (intro live_upd [OF w(2)]) simp
  moreover have "sched_hw (put_hw h u)" for u using assms(6) by (simp add: sched_hw_def holding_def)
  moreover have "(put_hw h u)\<lparr>curproc := None\<rparr> = put_hw h (u\<lparr>curproc := None\<rparr>)" for u :: "'a fl_scheme" by (simp add: put_hw_def)
  ultimately show ?thesis
    using live_cong [of "put_hw h (writer_waits i a q t)" "writer_waits i a q t"] by (simp add: switched_back_def)
qed

text \<open>
  C21.
  A writer wakes the readers, whether or not its bytes fit.  \<open>pipe_write\<close> puts as many bytes into the pipe as there is room for.  If
  these are all, it returns with no lock held; otherwise the writer goes to sleep with the rest until a reader has made
  room, marked as sleeping before the lock of the pipe is free for others.  In both cases every process that was asleep
  waiting for data of this pipe is runnable, and every other process is as it was, except for those that waited for the
  lock of the file, which a write that returns gives up.
\<close>

theorem pipe_write_wakes_readers:
  assumes "at_rest s" "curproc s = Some i" "fd_file i fd s = Ret f"
    and "fmode (global_files s ! f) = O_WRONLY" "fpipe (global_files s ! f) = Some a" "\<not> slocked (slk s (FileSL f))"
    and "pipe_ok (pipes s a)" "read_open (pipes s a)" "n \<le> int (length src)"
  defines "room \<equiv> total_size - available_bytes (pipes s a)"
  shows "\<exists>s'. (if nat n \<le> room
      then pipe_write fd src n i s = Ret (Done (int (nat n), s')) \<and> at_rest s' \<and> \<not> slocked (slk s' (FileSL f))
      else pipe_write fd src n i s = Ret (Asleep (drop room (take (nat n) src), s')) \<and> switched_back s' \<and> unheld (PipeLock a) s' \<and>
        state (ptable s' ! i) = SLEEPING \<and> chan (ptable s' ! i) = PipeWriter a) \<and>
     pipe_ok (pipes s' a) \<and> pipe_items (pipes s' a) = pipe_items (pipes s a) @ take room (take (nat n) src) \<and>
     length (ptable s') = length (ptable s) \<and>
     (\<forall>j<length (ptable s). j \<noteq> i \<longrightarrow> ptable s' ! j =
        (if state (ptable s ! j) = SLEEPING \<and>
            (chan (ptable s ! j) = PipeReader a \<or> nat n \<le> room \<and> chan (ptable s ! j) = SleepLkChan (FileSL f))
         then (ptable s ! j)\<lparr>state := RUNNABLE\<rparr> else ptable s ! j))"
proof -
  define t where "t = slk_upd (FileSL f) (\<lambda>k. k\<lparr>slocked := True, spid := pid (ptable s ! i)\<rparr>) s"
  define q where "q = snd (pipe_fill (take (nat n) src) (pipes s a))"
  have t: "ptable t = ptable s" "curproc t = curproc s" "nextpid t = nextpid s" "pipes t = pipes s"
    by (simp_all add: t_def slk_upd_def)
  have av: "available_bytes (pipes s a) \<le> total_size" using assms(7) by (simp add: pipe_ok_def)
  have q: "pipe_ok q" "pipe_items q = pipe_items (pipes s a) @ take room (take (nat n) src)"
    using pq.put [OF assms(7), of "take (nat n) src"] by (simp_all add: q_def room_def)
  have i: "i < length (ptable s)" using at_rest_cur [OF assms(1,2)] .
  show ?thesis
  proof (cases "nat n \<le> room")
    case True
    then have fit: "available_bytes (pipes s a) + nat n \<le> total_size" using av by (simp add: room_def)
    let ?s = "put_hw (settle s) (writer_done f a q t)"
    have "pipe_write fd src n i s = Ret (Done (int (nat n), ?s))"
      using pipe_write_eq [OF assms(1-8) fit assms(9)] by (simp add: q_def t_def)
    moreover have "at_rest ?s" using at_rest_done(1) [OF assms(1) t(1-3)] .
    ultimately show ?thesis using True q t by (intro exI [of _ ?s]) (simp add: wake_proc_def)
  next
    case False
    then have full: "total_size < available_bytes (pipes s a) + nat n" using av by (simp add: room_def)
    obtain h where h: "pipe_write fd src n i s = Ret (Asleep (drop room (take (nat n) src), put_hw h (writer_waits i a q t)))" "sched_hw h"
      "unheld (PipeLock a) h"
      using pipe_write_full [OF assms(1-8) full assms(9)] unfolding room_def q_def t_def by blast
    let ?s = "put_hw h (writer_waits i a q t)"
    have "switched_back ?s" using writer_waits_back [OF assms(1,2) t(1-3) h(2)] .
    moreover have "pipes ?s a = q" "ptable ?s = (map (wake_proc (PipeReader a)) (ptable s))
        [i := (wake_proc (PipeReader a) (ptable s ! i))\<lparr>chan := PipeWriter a, state := SLEEPING, pcontext := \<lparr>c_rip = Resumed\<rparr>\<rparr>]"
      using i by (simp_all add: writer_waits_def slept_def t wakeup1_def) (simp add: proc_upd_def pipe_upd_def)
    moreover have "unheld (PipeLock a) ?s" using h(3) by (simp add: unheld_def)
    ultimately show ?thesis using False q h(1) i by (intro exI [of _ ?s]) (simp add: wake_proc_def)
  qed
qed

text \<open>
  C26.
  Writing to a pipe nobody can read from any more is an error: \<open>pipe_write\<close> returns -1, no lock is left held, and
  nothing has changed, except that the processes that waited for the lock of the file are runnable.
\<close>

theorem pipe_write_closed:
  assumes "at_rest s" "curproc s = Some i" "fd_file i fd s = Ret f"
    and "fmode (global_files s ! f) = O_WRONLY" "fpipe (global_files s ! f) = Some a" "\<not> slocked (slk s (FileSL f))"
    and "\<not> read_open (pipes s a)" "0 < n" "n \<le> int (length src)"
  shows "\<exists>s'. pipe_write fd src n i s = Ret (Done (- 1, s')) \<and> at_rest s' \<and>
     s' = put_hw (settle s) (s\<lparr>slk := (slk s)(FileSL f := (slk s (FileSL f))\<lparr>slocked := False, spid := 0\<rparr>),
       ptable := map (wake_proc (SleepLkChan (FileSL f))) (ptable s)\<rparr>)"
proof -
  define t where "t = slk_upd (FileSL f) (\<lambda>k. k\<lparr>slocked := True, spid := pid (ptable s ! i)\<rparr>) s"
  define u where "u = put_hw (settle s) t"
  have a: "acquiresleep (FileSL f) s = Ret u" "at_pipe f u"
    unfolding u_def t_def using at_pipe_acquire [OF assms(1,2,6)] by simp_all
  then have c: "cli_ok u" "unheld l u" "calm k u" for l k using at_rest_calm by (auto simp: at_pipe_def)
  have g: "global_files u = global_files s" "pipes u = pipes s" by (simp_all add: u_def t_def)
  have e: "acquire (PipeLock a) u = Ret (enter (PipeLock a) u)" "release (PipeLock a) (enter (PipeLock a) u) = Ret (settle u)"
    using c acquire_enter release_enter by blast+
  define s' where "s' = put_hw (settle s) (s\<lparr>slk := (slk s)(FileSL f := (slk s (FileSL f))\<lparr>slocked := False, spid := 0\<rparr>),
       ptable := map (wake_proc (SleepLkChan (FileSL f))) (ptable s)\<rparr>)"
  have "releasesleep (FileSL f) (settle u) = Ret (put_hw (settle u) (wakeup1 (SleepLkChan (FileSL f))
      (slk_upd (FileSL f) (\<lambda>k. k\<lparr>slocked := False, spid := 0\<rparr>) (settle u))))"
    using c a(2) releasesleep_eq [of "FileSL f" "settle u"] by (simp add: at_pipe_def calm_def)
  moreover have "put_hw (settle u) (wakeup1 (SleepLkChan (FileSL f)) (slk_upd (FileSL f) (\<lambda>k. k\<lparr>slocked := False, spid := 0\<rparr>) (settle u))) = s'"
    by (simp add: s'_def u_def t_def settle_def put_hw_def wakeup1_def slk_upd_def)
  ultimately have r: "releasesleep (FileSL f) (settle u) = Ret s'" by simp
  have "take (nat n) src \<noteq> []" "int (nat n) = int (length (take (nat n) src))" using assms(8,9) by auto
  then have "pipe_write fd src n i s = Ret (Done (- 1, s'))"
    using a(1) assms(3-5,7-9) e r by (auto simp: pipe_write_def g pipe_write_loop_def Let_def)
  moreover have "at_rest s'" unfolding s'_def by (rule at_rest_wakeup1 [OF assms(1), where c = "SleepLkChan (FileSL f)"]) simp_all
  ultimately show ?thesis unfolding s'_def by blast
qed

lemma at_rest_fd_set: "at_rest s \<Longrightarrow> at_rest (fd_set i fd v s)"
proof (cases "i < length (ptable s)")
  case True
  assume a: "at_rest s"
  have inv: "ptable_inv s" "live s" using a by (simp_all add: at_rest_def)
  note l = ptable_invD(1) [OF inv(1)]
  have e: "ptable (fd_set i fd v s) ! j = (if i = j then (ptable s ! j)\<lparr>fds := (fds (ptable s ! j))[fd := v]\<rparr> else ptable s ! j)"
    if "j < NPROC" for j using that l by (simp add: fd_set_def nth_list_update)
  have "ptable_inv (fd_set i fd v s)"
    by (rule ptable_inv_ids [OF inv(1)]) (simp_all add: e l, simp_all add: fd_set_def l)
  moreover have "live (fd_set i fd v s)"
    unfolding fd_set_def using liveD [OF inv(2) l] True l by (intro live_upd [OF inv(2)]) simp
  ultimately show ?thesis using a by (simp add: at_rest_def fd_set_def proc_upd_def unheld_def)
next
  case False
  assume "at_rest s"
  moreover have "fd_set i fd v s = s" using False by (simp add: fd_set_def proc_upd_def list_update_beyond)
  ultimately show ?thesis by simp
qed

text \<open>A further process in an unused slot.\<close>

lemma at_rest_spawn:
  assumes "at_rest s" "j < NPROC" "state (ptable s ! j) = UNUSED" "state p \<in> {RUNNABLE, SLEEPING, ZOMBIE}" "pid p = nextpid s"
    "kstack p \<noteq> 0" "pgtbl (vspace p) \<noteq> 0"
  shows "at_rest ((proc_upd j (\<lambda>_. p) s)\<lparr>nextpid := nextpid s + 1\<rparr>)"
proof -
  let ?t = "(proc_upd j (\<lambda>_. p) s)\<lparr>nextpid := nextpid s + 1\<rparr>"
  have inv: "ptable_inv s" "live s" using assms(1) by (simp_all add: at_rest_def)
  note D = ptable_invD [OF inv(1)]
  have e: "ptable ?t ! k = (if k = j then p else ptable s ! k)" if "k < NPROC" for k using that D(1) by (simp add: nth_list_update)
  have j: "curproc s \<noteq> Some j" using D(2) [OF assms(2)] assms(3) by auto
  have "ptable_inv ?t"
  proof (rule ptable_invI)
    fix k assume k: "k < NPROC"
    show "(state (ptable ?t ! k) = RUNNING) = (curproc ?t = Some k)" using e [OF k] D(2) [OF k] j assms(4) by auto
    show "pid (ptable ?t ! k) < nextpid ?t" using e [OF k] D(4) [OF k] assms(5) by simp
    fix m assume m: "m < NPROC" and u: "state (ptable ?t ! k) \<noteq> UNUSED" "state (ptable ?t ! m) \<noteq> UNUSED" "pid (ptable ?t ! k) = pid (ptable ?t ! m)"
    show "k = m"
      using u e [OF k] e [OF m] D(4) [OF k] D(4) [OF m] D(5) [OF k m] assms(5) by (cases "k = j"; cases "m = j") simp_all
  qed (use D in simp_all)
  moreover have "live ?t" using live_upd [OF inv(2), of "\<lambda>_. p" j] assms(6,7) live_cong [of ?t "proc_upd j (\<lambda>_. p) s"] by simp
  ultimately show ?thesis using assms(1) by (simp add: at_rest_def unheld_def) (simp add: proc_upd_def)
qed

text \<open>A process with the two ends of an empty pipe as descriptors 0 (to write) and 1 (to read).\<close>

definition demo_pipe :: pipe where
  "demo_pipe = \<lparr>buffer = replicate total_size 0, read_offset = total_size - 1, write_offset = total_size - 1, available_bytes = 0,
     read_open = True, write_open = True\<rparr>"

definition demo_file :: file_info where
  "demo_file = \<lparr>fin = None, fmode = O_WRONLY, foffset = 0, ref_count = 1, fpipe = Some 0\<rparr>"

definition demo_fl :: "bool \<Rightarrow> fl" where
  "demo_fl r = fd_set 0 1 (Some 1) (fd_set 0 0 (Some 0)
     (fs.extend demo_fs (fl.fields [demo_file, demo_file\<lparr>fmode := O_RDONLY\<rparr>] (\<lambda>_. demo_pipe\<lparr>read_open := r\<rparr>))))"

lemma demo_fl_fields:
  "global_files (demo_fl r) = [demo_file, demo_file\<lparr>fmode := O_RDONLY\<rparr>]" "pipes (demo_fl r) = (\<lambda>_. demo_pipe\<lparr>read_open := r\<rparr>)"
  "curproc (demo_fl r) = Some 0" "slk (demo_fl r) = slk demo_fs" "\<not> slocked (slk demo_fs (FileSL k))"
  by (simp_all add: demo_fl_def fd_set_def proc_upd_def fl.defs fs.defs demo_fs_fields)
     (simp_all add: demo_fs_def demo_bc_defs fs.defs ilock_def demo_run_def)

lemma demo_fl_rest: "at_rest (demo_fl r)"
proof -
  have "at_rest demo_fs" using demo_fs_ok(1) by (simp add: bquiet_def disk_idle_def)
  then have "at_rest (fs.extend demo_fs (fl.fields g p))" for g p
    using ptable_inv_cong [of "fs.extend demo_fs (fl.fields g p)" demo_fs] live_cong [of "fs.extend demo_fs (fl.fields g p)" demo_fs]
    by (simp add: at_rest_def unheld_def fs.defs)
  then show ?thesis unfolding demo_fl_def by (intro at_rest_fd_set)
qed

lemma demo_fl_ok: "fd_file 0 0 (demo_fl r) = Ret 0" "fd_file 0 1 (demo_fl r) = Ret 1" "pipe_ok (demo_pipe\<lparr>read_open := r\<rparr>)"
  "pipe_items (demo_pipe\<lparr>read_open := r\<rparr>) = []" "0 < length (ptable (demo_fl r))"
proof -
  have "fds (ptable demo_fs ! 0) = replicate NOFILE None" "0 < length (ptable demo_fs)"
    by (simp_all add: demo_fs_fields demo_run_def demo_ps_fields demo_proc_def)
  then show "fd_file 0 0 (demo_fl r) = Ret 0" "fd_file 0 1 (demo_fl r) = Ret 1" "0 < length (ptable (demo_fl r))"
    by (simp_all add: demo_fl_def fd_set_def fd_file_def fs.defs NOFILE_def)
  show "pipe_ok (demo_pipe\<lparr>read_open := r\<rparr>)" "pipe_items (demo_pipe\<lparr>read_open := r\<rparr>) = []"
    by (simp_all add: pipe_ok_def demo_pipe_def pipe_items_def)
qed

lemma demo_fl_misc: "available_bytes demo_pipe = 0" "3 \<le> total_size" "fd_file 0 (Suc 0) (demo_fl r) = Ret (Suc 0)" "ptable (demo_fl r) \<noteq> []"
  using demo_fl_ok(2,5) by (simp_all add: demo_pipe_def total_size_def sizeof_pipe_def)

lemmas demo_fl_facts = demo_fl_rest demo_fl_ok demo_fl_fields demo_file_def demo_fl_misc

theorem pipe_transfer_witness:
  "\<exists>s1 s2. pipe_write 0 [1, 2, 3] 3 0 (demo_fl True) = Ret (Done (3, s1)) \<and> pipe_read 1 2 0 s1 = Ret (Done (2, [1, 2], s2)) \<and>
     pipe_items (pipes s2 0) = [3]"
  using pipe_transfer [of "demo_fl True" 0 0 0 1 1 0 3 "[1, 2, 3]" 2] by (auto simp: demo_fl_facts)

text \<open>A second process waits for data of the pipe.\<close>

definition demo_reader :: fl where
  "demo_reader = (proc_upd 1 (\<lambda>_. demo_proc\<lparr>state := SLEEPING, pid := 2, chan := PipeReader 0\<rparr>) (demo_fl True))\<lparr>nextpid := 3\<rparr>"

lemma demo_reader_ok:
  "at_rest demo_reader" "curproc demo_reader = Some 0" "fd_file 0 0 demo_reader = Ret 0" "ptable demo_reader ! 1 = demo_proc\<lparr>state := SLEEPING, pid := 2, chan := PipeReader 0\<rparr>"
  "global_files demo_reader = global_files (demo_fl True)" "pipes demo_reader = pipes (demo_fl True)" "slk demo_reader = slk demo_fs"
  "length (ptable demo_reader) = NPROC"
proof -
  have l: "length (ptable (demo_fl True)) = NPROC" using demo_fl_rest ptable_invD(1) by (auto simp: at_rest_def)
  have n: "nextpid (demo_fl True) = 2" and u: "state (ptable (demo_fl True) ! 1) = UNUSED"
    by (simp_all add: demo_fl_def fd_set_def proc_upd_def fl.defs fs.defs demo_fs_fields demo_run_def demo_ps_fields demo_proc_def)
  show "at_rest demo_reader"
    unfolding demo_reader_def using at_rest_spawn [OF demo_fl_rest _ u, of "demo_proc\<lparr>state := SLEEPING, pid := 2, chan := PipeReader 0\<rparr>"] n
    by (simp add: NPROC_def demo_proc_def kva_nonzero)
  show "ptable demo_reader ! 1 = demo_proc\<lparr>state := SLEEPING, pid := 2, chan := PipeReader 0\<rparr>" "length (ptable demo_reader) = NPROC"
    using l by (simp_all add: demo_reader_def NPROC_def)
  show "fd_file 0 0 demo_reader = Ret 0" using demo_fl_ok(1) [of True] by (simp add: demo_reader_def fd_file_def split: if_splits)
qed (simp_all add: demo_reader_def demo_fl_fields, simp_all add: proc_upd_def demo_fl_fields)

theorem pipe_write_wakes_readers_witness:
  "\<exists>s'. pipe_write 0 (replicate 4000 7) 4000 0 demo_reader = Ret (Asleep (replicate 48 7, s')) \<and>
     pipe_items (pipes s' 0) = replicate 3952 7 \<and> state (ptable s' ! 1) = RUNNABLE"
proof -
  have r: "total_size - available_bytes (pipes demo_reader 0) = 3952"
    by (simp add: demo_reader_ok demo_fl_fields demo_pipe_def total_size_def sizeof_pipe_def)
  have "1 < length (ptable demo_reader)" by (simp add: demo_reader_ok NPROC_def)
  then show ?thesis
    using pipe_write_wakes_readers [OF demo_reader_ok(1-3), where n = 4000 and src = "replicate 4000 7" and a = 0, unfolded r] demo_reader_ok(4)
    by (auto simp: demo_reader_ok(5-7) demo_fl_facts)
qed

theorem pipe_write_closed_witness:
  "\<exists>s'. pipe_write 0 [1, 2, 3] 3 0 (demo_fl False) = Ret (Done (- 1, s')) \<and> at_rest s' \<and> pipes s' = pipes (demo_fl False)"
  using pipe_write_closed [of "demo_fl False" 0 0 0 0 3 "[1, 2, 3]"] by (auto simp: demo_fl_facts)

text \<open>
  C7.
  A pipe is a bounded first-in-first-out queue: whatever sequence of transfers into and out of the ring buffer happens, what was in the pipe
  followed by what went in is what came out followed by what is left, so no byte is lost, repeated or reordered, also
  across the end of the buffer.
\<close>

theorem pipe_fifo:
  assumes "pipe_ok p" "run_ops pipe_fill pipe_drain ops p = (got, gave, p')"
  shows "pipe_ok p' \<and> pipe_items p @ got = gave @ pipe_items p' \<and> length (pipe_items p') \<le> total_size"
  using pq.stream [OF assms] pq.bound by blast

theorem pipe_fifo_witness:
  "case run_ops pipe_fill pipe_drain [Put [1, 2, 3], Get 2, Put [4]] demo_pipe of (got, gave, p') \<Rightarrow>
     pipe_ok p' \<and> pipe_items demo_pipe @ got = gave @ pipe_items p'"
proof -
  have ok: "pipe_ok demo_pipe" using demo_fl_ok(3) [of True] by (simp add: demo_pipe_def)
  obtain got gave p' where e: "run_ops pipe_fill pipe_drain [Put [1, 2, 3], Get 2, Put [4]] demo_pipe = (got, gave, p')"
    by (cases "run_ops pipe_fill pipe_drain [Put [1, 2, 3], Get 2, Put [4]] demo_pipe")
  show ?thesis using pipe_fifo [OF ok e] by (simp only: e prod.case simp_thms)
qed

end
