(* ===== verification/Proc.thy ===== *)
theory Proc
  imports File
begin

text \<open>
  The part of \<open>kernel/proc.c\<close> that creates and ends processes: \<open>userinit\<close>, \<open>fork\<close>,
  \<open>exit\<close>, \<open>wait\<close>, \<open>sbrk\<close> and \<open>forkret\<close>, over the process table, the address
  spaces and the open files.  \<open>exit\<close> ends with the switch to the scheduler; a \<open>wait\<close> that finds
  live children only is left asleep and goes on in \<open>wait_resume\<close>.

  The lemmas show how \<open>exit\<close> and \<open>wait\<close> meet: a process that exits wakes its parent, which then finds its dead child; but a dead
  child that is handed to the first process is not announced to it.
\<close>

record pr = fl +
  forkret_first :: bool

definition SEG_UCODE :: u64 where "SEG_UCODE = 4"
definition SEG_UDATA :: u64 where "SEG_UDATA = 5"
definition DPL_USER :: u64 where "DPL_USER = 3"
definition FLAGS_IF :: u64 where "FLAGS_IF = push_bit 9 1"

definition set_vspace :: "nat \<Rightarrow> Vspace.vspace \<Rightarrow> 'a ps_scheme \<Rightarrow> 'a ps_scheme" where
  "set_vspace i vs s = proc_upd i (\<lambda>p. p\<lparr>vspace := vs\<rparr>) s"

text \<open>\<open>init\<close> is the program linked into the kernel as \<open>_binary_out_initcode_start\<close>.\<close>

definition userinit :: "u8 list \<Rightarrow> 'a ps_scheme \<Rightarrow> 'a ps_scheme outcome" where
  "userinit init s =
     obind (allocproc s) (\<lambda>(r, s1). case r of
       None \<Rightarrow> Fail (BadAccess ''userinit: null process'')
     | Some i \<Rightarrow>
         obind (vspaceinit (vspace (ptable s1 ! i)) (s1\<lparr>initproc := Some i\<rparr>)) (\<lambda>(rv, vs, s2).
           assertm (rv = 0) ''error initializing process's virtual address descriptor''
             (obind (vspaceinitcode vs init s2) (\<lambda>(vs1, s3).
                let s4 = proc_upd i (\<lambda>p. p\<lparr>vspace := vs1,
                           tf := zero_tf\<lparr>cs := push_bit 3 SEG_UCODE OR DPL_USER, ss := push_bit 3 SEG_UDATA OR DPL_USER,
                                         rflags := FLAGS_IF, rip := VRBOT (regions vs1 ! VR_CODE), rsp := VRTOP (regions vs1 ! VR_USTACK)\<rparr>,
                           pname := ''initcode''\<rparr>) s3
                in omap snd (with_lock PtableLock (\<lambda>s. Ret ((), proc_upd i (\<lambda>p. p\<lparr>state := RUNNABLE\<rparr>) s)) s4)))))"

text \<open>The descriptors of the child: each file gets one more reference.\<close>

definition fork_fd :: "nat \<Rightarrow> nat \<Rightarrow> nat \<Rightarrow> 'a fl_scheme \<Rightarrow> 'a fl_scheme outcome" where
  "fork_fd i c k s = (case fds (ptable s ! i) ! k of
     None \<Rightarrow> Ret s
   | Some f \<Rightarrow>
       obind (acquiresleep (FileSL f) s) (\<lambda>s1.
         releasesleep (FileSL f) (fd_set c k (Some f) (file_upd f (\<lambda>x. x\<lparr>ref_count := ref_count x + 1\<rparr>) s1))))"

definition fork :: "'a fl_scheme \<Rightarrow> (int \<times> 'a fl_scheme) outcome" where
  "fork s =
     obind (allocproc s) (\<lambda>(r, s1). case r of
       None \<Rightarrow> Ret (- 1, s1)
     | Some c \<Rightarrow>
         obind (vspaceinit (vspace (ptable s1 ! c)) s1) (\<lambda>(rv, vs, s2).
           let s3 = set_vspace c vs s2
           in if rv = - 1 then Ret (- 1, s3)
              else case curproc s3 of
                None \<Rightarrow> Ret (- 1, s3)
              | Some i \<Rightarrow>
                  obind (vspacecowcopy vs (vspace (ptable s3 ! i)) (kstack (ptable s3 ! i)) s3) (\<lambda>(rc, dst, src, s4).
                    let s5 = set_vspace c dst (set_vspace i src s4)
                    in if rc = - 1 then Ret (- 1, s5)
                       else obind (ofold (fork_fd i c) [0..<NOFILE] (proc_upd c (\<lambda>p. p\<lparr>parent := pid (ptable s5 ! i)\<rparr>) s5)) (\<lambda>s6.
                         Ret (pid (ptable s6 ! c),
                           proc_upd c (\<lambda>p. p\<lparr>chan := pid_chan (pid p), tf := (tf (ptable s6 ! i))\<lparr>rax := 0\<rparr>, state := RUNNABLE\<rparr>) s6)))))"

text \<open>Called with \<open>ptable.lock\<close> held: the children of process \<open>me\<close> go to the first process.\<close>

definition reparent :: "int \<Rightarrow> 'a ps_scheme \<Rightarrow> 'a ps_scheme outcome" where
  "reparent me s =
     (if \<exists>p\<in>set (ptable s). parent p = me then
        (case initproc s of
           None \<Rightarrow> Fail (BadAccess ''exit: null initproc'')
         | Some k \<Rightarrow>
             Ret (s\<lparr>ptable := map (\<lambda>p. if parent p = me then p\<lparr>parent := pid (ptable s ! k)\<rparr> else p) (ptable s)\<rparr>))
      else Ret s)"

definition close_fd :: "nat \<Rightarrow> nat \<Rightarrow> 'a fl_scheme \<Rightarrow> 'a fl_scheme outcome" where
  "close_fd i k s = (if fds (ptable s ! i) ! k \<noteq> None then omap snd (file_close k s) else Ret s)"

definition exit_section :: "nat \<Rightarrow> 'a ps_scheme \<Rightarrow> 'a ps_scheme outcome" where
  "exit_section i s =
     obind (acquire PtableLock s) (\<lambda>s1.
       obind (reparent (pid (ptable s1 ! i)) s1) (\<lambda>s2.
         sched (wakeup1 (pid_chan (parent (ptable s2 ! i))) (proc_upd i (\<lambda>p. p\<lparr>state := ZOMBIE\<rparr>) s2))))"

definition exit :: "'a fl_scheme \<Rightarrow> 'a fl_scheme outcome" where
  "exit s = (case curproc s of
     None \<Rightarrow> Ret s
   | Some i \<Rightarrow> obind (ofold (close_fd i) [0..<NOFILE] s) (exit_section i))"

text \<open>Called with \<open>ptable.lock\<close> held: the slot of a dead child is given back.\<close>

definition reap :: "nat \<Rightarrow> 'a ps_scheme \<Rightarrow> (int \<times> 'a ps_scheme) outcome" where
  "reap k s =
     obind (kfree (kstack (ptable s ! k)) s) (\<lambda>s1.
       obind (vspacefree (vspace (ptable s1 ! k)) s1) (\<lambda>(vs, s2).
         obind (release PtableLock (proc_upd k (\<lambda>p. p\<lparr>vspace := vs, state := UNUSED, parent := - 1\<rparr>) s2)) (\<lambda>s3.
           Ret (pid (ptable s ! k), s3))))"

definition wait_loop :: "nat \<Rightarrow> 'a ps_scheme \<Rightarrow> (int \<times> 'a ps_scheme, 'a ps_scheme) progress outcome" where
  "wait_loop i s =
     (let me = pid (ptable s ! i)
      in case find_idx (\<lambda>p. parent p = me \<and> state p = ZOMBIE) (ptable s) of
           Some k \<Rightarrow> omap Done (reap k s)
         | None \<Rightarrow>
             if find_idx (\<lambda>p. parent p = me) (ptable s) = None
             then obind (release PtableLock s) (\<lambda>s1. Ret (Done (- 1, s1)))
             else omap Asleep (sleep_switch (pid_chan me) PtableLock s))"

definition wait_resume :: "bool \<Rightarrow> nat \<Rightarrow> 'a ps_scheme \<Rightarrow> (int \<times> 'a ps_scheme, 'a ps_scheme) progress outcome" where
  "wait_resume ie i s = obind (sleep_resume ie PtableLock s) (wait_loop i)"

definition wait :: "'a ps_scheme \<Rightarrow> (int \<times> 'a ps_scheme, 'a ps_scheme) progress outcome" where
  "wait s = (case curproc s of
     None \<Rightarrow> Ret (Done (- 1, s))
   | Some i \<Rightarrow> obind (acquire PtableLock s) (wait_loop i))"

text \<open>The result is an \<open>int\<close>: the old end of the heap is cut to 32 bits.\<close>

definition sbrk :: "int \<Rightarrow> 'a ps_scheme \<Rightarrow> (int \<times> 'a ps_scheme) outcome" where
  "sbrk n s = (case curproc s of
     None \<Rightarrow> Ret (- 1, s)
   | Some i \<Rightarrow>
       let vs = vspace (ptable s ! i); heap = regions vs ! VR_HEAP; old_heap = va_base heap + vsize heap;
           ret = sint (ucast old_heap :: u32)
       in if n > 0
          then obind (vregionaddmap heap old_heap (of_int n) True True s) (\<lambda>(r, heap1, s1).
                 if r = - 1 then Ret (- 1, set_vspace i (reg_upd VR_HEAP heap1 vs) s1)
                 else obind (vspaceupdate (reg_upd VR_HEAP (heap1\<lparr>vsize := vsize heap1 + of_int n\<rparr>) vs) s1) (\<lambda>(vs1, s2).
                   Ret (ret, set_vspace i vs1 s2)))
          else Ret (ret, s))"

text \<open>The first instructions of a new process, entered with \<open>ptable.lock\<close> held by the scheduler.\<close>

definition forkret :: "'a pr_scheme \<Rightarrow> 'a pr_scheme outcome" where
  "forkret s =
     obind (release PtableLock s) (\<lambda>s1.
       if forkret_first s1 then iinit (of_nat ROOTDEV) (s1\<lparr>forkret_first := False\<rparr>) else Ret s1)"

section \<open>Exit and wait\<close>

lemma entered:
  assumes "at_rest s" "curproc s = Some i"
  shows "acquire PtableLock s = Ret (enter PtableLock s)" "dispatched i (enter PtableLock s)"
proof -
  let ?e = "enter PtableLock s"
  show "acquire PtableLock s = Ret ?e" using assms(1) by (intro acquire_enter) (simp add: at_rest_def)
  show "dispatched i ?e"
    using assms by (simp add: at_rest_def dispatched_def ptable_inv_cong [of ?e s] live_cong [of ?e s])
      (simp add: enter_def sched_hw_def holding_def)
qed

text \<open>The table after \<open>reparent\<close>: children of \<open>me\<close> have the first process as their parent.\<close>

definition adopted :: "int \<Rightarrow> int \<Rightarrow> proc \<Rightarrow> proc" where
  "adopted me k p = (if parent p = me then p\<lparr>parent := k\<rparr> else p)"

lemma adopted_simps [simp]:
  "pid (adopted me k p) = pid p" "state (adopted me k p) = state p" "kstack (adopted me k p) = kstack p"
  "vspace (adopted me k p) = vspace p" "chan (adopted me k p) = chan p"
  "parent (adopted me k p) = (if parent p = me then k else parent p)"
  by (simp_all add: adopted_def)

lemma reparent_eq:
  assumes "initproc s = Some k"
  shows "reparent me s = Ret (s\<lparr>ptable := map (adopted me (pid (ptable s ! k))) (ptable s)\<rparr>)"
proof (cases "\<exists>p\<in>set (ptable s). parent p = me")
  case True
  then show ?thesis using assms by (simp add: reparent_def adopted_def)
next
  case False
  then have "map (adopted me (pid (ptable s ! k))) (ptable s) = ptable s" by (intro map_idI) (auto simp: adopted_def)
  then show ?thesis using False by (simp add: reparent_def)
qed

lemma dispatched_map:
  assumes "dispatched i s" "\<And>p. pid (f p) = pid p \<and> kstack (f p) = kstack p \<and> vspace (f p) = vspace p"
    "\<And>p. (state (f p) = RUNNING) = (state p = RUNNING) \<and> (state p = UNUSED \<longrightarrow> state (f p) = UNUSED) \<and>
       (state (f p) \<in> {RUNNABLE, SLEEPING} \<longrightarrow> state p \<in> {RUNNABLE, SLEEPING})"
  shows "dispatched i (s\<lparr>ptable := map f (ptable s)\<rparr>)"
proof -
  have inv: "ptable_inv s" "live s" "curproc s = Some i" "sched_hw s" using assms(1) by (simp_all add: dispatched_def)
  have l: "length (ptable s) = NPROC" using inv(1) by (rule ptable_invD)
  have "ptable_inv (s\<lparr>ptable := map f (ptable s)\<rparr>)"
    by (rule ptable_inv_ids [OF inv(1)]) (use l assms(2,3) in simp_all)
  moreover have "live (s\<lparr>ptable := map f (ptable s)\<rparr>)"
    using inv(2) assms(2,3) unfolding live_def by (simp, blast)
  moreover have "sched_hw (s\<lparr>ptable := map f (ptable s)\<rparr>)" using inv(4) by (simp add: sched_hw_def holding_def)
  ultimately show ?thesis using inv(3) by (simp add: dispatched_def)
qed

text \<open>What \<open>exit\<close> leaves of a process other than the one that exits.\<close>

definition left_by :: "proc \<Rightarrow> int \<Rightarrow> proc \<Rightarrow> proc" where
  "left_by me k p = wake_proc (pid_chan (parent (adopted (pid me) k me))) (adopted (pid me) k p)"

lemma exit_section_ok:
  assumes "at_rest s" "curproc s = Some i" "initproc s = Some k"
  shows "\<exists>s'. exit_section i s = Ret s' \<and> switched_back s' \<and> length (ptable s') = NPROC \<and>
    state (ptable s' ! i) = ZOMBIE \<and> pid (ptable s' ! i) = pid (ptable s ! i) \<and>
    parent (ptable s' ! i) = parent (adopted (pid (ptable s ! i)) (pid (ptable s ! k)) (ptable s ! i)) \<and>
    (\<forall>j<NPROC. j \<noteq> i \<longrightarrow> ptable s' ! j = left_by (ptable s ! i) (pid (ptable s ! k)) (ptable s ! j))"
proof -
  let ?e = "enter PtableLock s" and ?me = "pid (ptable s ! i)" and ?k = "pid (ptable s ! k)"
  let ?c = "pid_chan (parent (adopted ?me ?k (ptable s ! i)))"
  define t where "t = ?e\<lparr>ptable := map (\<lambda>p. wake_proc ?c (adopted ?me ?k p)) (ptable s)\<rparr>"
  note en = entered [OF assms(1,2)]
  have inv: "ptable_inv s" using assms(1) by (simp add: at_rest_def)
  have l: "length (ptable s) = NPROC" and i: "i < NPROC" using ptable_invD(1,3) [OF inv] assms(2) by simp_all
  have run: "state (ptable s ! i) = RUNNING" using ptable_invD(2) [OF inv i] assms(2) by simp
  have r: "reparent ?me ?e = Ret (?e\<lparr>ptable := map (adopted ?me ?k) (ptable s)\<rparr>)"
    using reparent_eq [of ?e k ?me] assms(3) by (simp add: enter_def)
  have "wakeup1 ?c (proc_upd i (\<lambda>p. p\<lparr>state := ZOMBIE\<rparr>) (?e\<lparr>ptable := map (adopted ?me ?k) (ptable s)\<rparr>)) =
      proc_upd i (\<lambda>p. p\<lparr>state := ZOMBIE\<rparr>) t"
    using i l run by (simp add: wakeup1_def proc_upd_def t_def map_update wake_proc_def comp_def)
  moreover have d: "dispatched i t"
    using dispatched_map [OF en(2), of "\<lambda>p. wake_proc ?c (adopted ?me ?k p)"]
    by (simp add: t_def wake_proc_def)
  moreover obtain s' where s': "sched (proc_upd i (\<lambda>p. p\<lparr>state := ZOMBIE\<rparr>) t) = Ret s'" "switched_back s'"
    "ptable s' = (ptable t)[i := (ptable t ! i)\<lparr>state := ZOMBIE, pcontext := \<lparr>c_rip = Resumed\<rparr>\<rparr>]"
    using switch_away [OF d, of "\<lambda>p. p\<lparr>state := ZOMBIE\<rparr>"] by auto
  ultimately have "exit_section i s = Ret s'"
    using en(1) r i l by (simp add: exit_section_def)
  then show ?thesis
    using s'(2,3) i l run by (auto simp: t_def left_by_def wake_proc_def)
qed


lemma pid_chan_inj: "pid_chan p = pid_chan q \<longleftrightarrow> p = q"
  by (simp add: pid_chan_def)

text \<open>
  C99. A dead child can be overlooked: when a process exits without having waited for a child that is dead already, the child
  is handed to the first process, but only the parent of the exiting process is woken.  If the first process is some other
  process that sleeps in \<open>wait\<close>, it goes on sleeping although it now has a dead child, so that its \<open>wait\<close>
  would have returned.
\<close>

theorem exit_strands_init:
  assumes "curproc s0 = Some i" "ofold (close_fd i) [0..<NOFILE] s0 = Ret s" "at_rest s" "curproc s = Some i" "initproc s = Some k"
    and "k < NPROC" "state (ptable s ! k) = SLEEPING" "chan (ptable s ! k) = pid_chan (pid (ptable s ! k))"
    and "parent (ptable s ! i) \<notin> {pid (ptable s ! k), pid (ptable s ! i)}"
    and "z < NPROC" "parent (ptable s ! z) = pid (ptable s ! i)" "state (ptable s ! z) = ZOMBIE"
  shows "\<exists>s'. exit s0 = Ret s' \<and> switched_back s' \<and> state (ptable s' ! k) = SLEEPING \<and> chan (ptable s' ! k) = pid_chan (pid (ptable s' ! k)) \<and>
    parent (ptable s' ! z) = pid (ptable s' ! k) \<and> state (ptable s' ! z) = ZOMBIE"
proof -
  obtain s' where s': "exit_section i s = Ret s'" "switched_back s'"
    and o: "\<And>j. j < NPROC \<Longrightarrow> j \<noteq> i \<Longrightarrow> ptable s' ! j = left_by (ptable s ! i) (pid (ptable s ! k)) (ptable s ! j)"
    using exit_section_ok [OF assms(3-5)] by blast
  have inv: "ptable_inv s" using assms(3) by (simp add: at_rest_def)
  have run: "state (ptable s ! i) = RUNNING" using ptable_invD(2,3) [OF inv] assms(4) by auto
  then have ne: "k \<noteq> i" "z \<noteq> i" using assms(7,12) by auto
  have "exit s0 = Ret s'" using assms(1,2) s'(1) by (simp add: exit_def)
  moreover have "ptable s' ! k = adopted (pid (ptable s ! i)) (pid (ptable s ! k)) (ptable s ! k)"
    using o [OF assms(6) ne(1)] assms(8,9) by (simp add: left_by_def wake_proc_def pid_chan_inj)
  moreover have "ptable s' ! z = adopted (pid (ptable s ! i)) (pid (ptable s ! k)) (ptable s ! z)"
    using o [OF assms(10) ne(2)] assms(12) by (simp add: left_by_def wake_proc_def)
  ultimately show ?thesis using s'(2) assms(7,8,11,12) by simp
qed


subsection \<open>A concrete state\<close>

text \<open>One process, without open files, that is also the first process.\<close>

definition demo_pr :: fl where
  "demo_pr = fs.extend demo_fs (fl.fields [] (\<lambda>_. demo_pipe))"

lemma demo_pr_ok:
  "at_rest demo_pr" "curproc demo_pr = Some 0" "initproc demo_pr = Some 0" "ptable demo_pr = ptable demo_run"
  "ofold (close_fd 0) [0..<NOFILE] demo_pr = Ret demo_pr"
proof -
  have "at_rest demo_fs" using demo_fs_ok(1) by (simp add: bquiet_def disk_idle_def)
  then show "at_rest demo_pr"
    using ptable_inv_cong [of demo_pr demo_fs] live_cong [of demo_pr demo_fs] by (simp add: at_rest_def unheld_def fs.defs demo_pr_def)
  show p: "ptable demo_pr = ptable demo_run" and "curproc demo_pr = Some 0"
    by (simp_all add: demo_pr_def fs.defs demo_fs_fields demo_run_def)
  show "initproc demo_pr = Some 0"
    by (simp add: demo_pr_def fs.defs demo_fs_def demo_bc_defs ilock_def demo_run_def proc_upd_def demo_ps_simps)
  have "close_fd 0 k demo_pr = Ret demo_pr" if "k < NOFILE" for k
    using that by (simp add: close_fd_def p demo_run_def demo_ps_fields demo_proc_def)
  then have "\<forall>k\<in>set ks. k < NOFILE \<Longrightarrow> ofold (close_fd 0) ks demo_pr = Ret demo_pr" for ks by (induction ks) auto
  then show "ofold (close_fd 0) [0..<NOFILE] demo_pr = Ret demo_pr" by simp
qed

text \<open>
  Process 1 in slot 0 is running.  Its parent is process 2 in slot 1, the first process, or process 3 in slot 2; both
  sleep in \<open>wait\<close>.  Process 4 in slot 3 is its child, alive or dead.
\<close>

definition waiting_proc :: "int \<Rightarrow> proc" where
  "waiting_proc p = demo_proc\<lparr>state := SLEEPING, pid := p, chan := PidChan p, parent := 7\<rparr>"

definition demo_family :: "int \<Rightarrow> procstate \<Rightarrow> fl" where
  "demo_family par st = (demo_pr\<lparr>ptable := (ptable demo_pr)[0 := (ptable demo_pr ! 0)\<lparr>parent := par\<rparr>, 1 := waiting_proc 2, 2 := waiting_proc 3,
     3 := demo_proc\<lparr>state := st, pid := 4, parent := 1\<rparr>], nextpid := 5, initproc := Some 1\<rparr>)"

lemma demo_pr_misc: "length (ptable demo_pr) = NPROC" "nextpid demo_pr = 2" "\<And>j. 1 \<le> j \<Longrightarrow> j < NPROC \<Longrightarrow> ptable demo_pr ! j = demo_proc"
  "ptable demo_pr ! 0 = demo_proc\<lparr>state := RUNNING, pid := 1\<rparr>"
  using demo_pr_ok(1) ptable_invD(1)
  by (auto simp: at_rest_def demo_pr_ok(4) demo_run_def demo_ps_fields NPROC_def nth_Cons split: nat.splits)
     (simp add: demo_pr_def fs.defs demo_fs_fields demo_run_def demo_ps_fields)

lemma demo_family_rest:
  assumes "st \<in> {RUNNABLE, ZOMBIE}"
  shows "at_rest (demo_family par st)"
proof -
  define s1 where "s1 = (proc_upd 1 (\<lambda>_. waiting_proc 2) demo_pr)\<lparr>nextpid := nextpid demo_pr + 1\<rparr>"
  define s2 where "s2 = (proc_upd 2 (\<lambda>_. waiting_proc 3) s1)\<lparr>nextpid := nextpid s1 + 1\<rparr>"
  define s3 where "s3 = (proc_upd 3 (\<lambda>_. demo_proc\<lparr>state := st, pid := 4, parent := 1\<rparr>) s2)\<lparr>nextpid := nextpid s2 + 1\<rparr>"
  note m = demo_pr_misc
  have u: "state (ptable demo_pr ! 1) = UNUSED" "state (ptable s1 ! 2) = UNUSED" "state (ptable s2 ! 3) = UNUSED"
    using m(3) by (simp_all add: s1_def s2_def NPROC_def demo_proc_def)
  have "at_rest s1" unfolding s1_def using demo_pr_ok(1) u(1)
    by (intro at_rest_spawn) (simp_all add: NPROC_def waiting_proc_def demo_proc_def m kva_nonzero)
  then have "at_rest s2" unfolding s2_def using u(2)
    by (intro at_rest_spawn) (simp_all add: NPROC_def waiting_proc_def demo_proc_def m kva_nonzero s1_def)
  then have r3: "at_rest s3" unfolding s3_def using u(3) assms
    by (intro at_rest_spawn) (auto simp: NPROC_def demo_proc_def m kva_nonzero s1_def s2_def)
  have "demo_family par st = (proc_upd 0 (\<lambda>p. p\<lparr>parent := par\<rparr>) s3)\<lparr>initproc := Some 1\<rparr>"
    by (simp add: demo_family_def s1_def s2_def s3_def proc_upd_def m list_update_swap)
  moreover have "ptable_inv (proc_upd 0 (\<lambda>p. p\<lparr>parent := par\<rparr>) s3)" "live (proc_upd 0 (\<lambda>p. p\<lparr>parent := par\<rparr>) s3)"
    using r3 liveD [of s3 0] ptable_invD(1) [of s3]
    by (auto simp: at_rest_def NPROC_def intro!: ptable_inv_upd live_upd)
  ultimately show ?thesis
    using r3 ptable_inv_cong [of "(proc_upd 0 (\<lambda>p. p\<lparr>parent := par\<rparr>) s3)\<lparr>initproc := Some 1\<rparr>" "proc_upd 0 (\<lambda>p. p\<lparr>parent := par\<rparr>) s3"]
      live_cong [of "(proc_upd 0 (\<lambda>p. p\<lparr>parent := par\<rparr>) s3)\<lparr>initproc := Some 1\<rparr>" "proc_upd 0 (\<lambda>p. p\<lparr>parent := par\<rparr>) s3"]
    by (simp add: at_rest_def unheld_def) (simp add: proc_upd_def)
qed

lemma demo_family_fields:
  "curproc (demo_family par st) = Some 0" "initproc (demo_family par st) = Some 1" "ptable (demo_family par st) ! 0 = demo_proc\<lparr>state := RUNNING, pid := 1, parent := par\<rparr>"
  "ptable (demo_family par st) ! 1 = waiting_proc 2" "ptable (demo_family par st) ! 2 = waiting_proc 3"
  "ptable (demo_family par st) ! 3 = demo_proc\<lparr>state := st, pid := 4, parent := 1\<rparr>" "length (ptable (demo_family par st)) = NPROC"
  using demo_pr_ok(2) demo_pr_misc by (simp_all add: demo_family_def NPROC_def)

lemma demo_family_close: "ofold (close_fd 0) [0..<NOFILE] (demo_family par st) = Ret (demo_family par st)"
proof -
  have "close_fd 0 k (demo_family par st) = Ret (demo_family par st)" if "k < NOFILE" for k
    using that by (simp add: close_fd_def demo_family_fields demo_proc_def)
  then have "\<forall>k\<in>set ks. k < NOFILE \<Longrightarrow> ofold (close_fd 0) ks (demo_family par st) = Ret (demo_family par st)" for ks by (induction ks) auto
  then show ?thesis by simp
qed


theorem exit_strands_init_witness:
  "\<exists>s'. exit (demo_family 3 ZOMBIE) = Ret s' \<and> state (ptable s' ! 1) = SLEEPING \<and> parent (ptable s' ! 3) = pid (ptable s' ! 1) \<and>
     state (ptable s' ! 3) = ZOMBIE"
proof -
  note f = demo_family_fields [of 3 ZOMBIE]
  have r: "at_rest (demo_family 3 ZOMBIE)" by (rule demo_family_rest) simp
  show ?thesis
    using exit_strands_init [OF f(1) demo_family_close r f(1,2), of 3] by (auto simp: f waiting_proc_def pid_chan_def NPROC_def simp del: One_nat_def)
qed


end
