(* ===== verification/Exec.thy ===== *)
theory Exec
  imports Proc
begin

text \<open>
  \<open>kernel/exec.c\<close> and the program loader of \<open>kernel/vspace.c\<close>: \<open>exec\<close> builds a new address
  space from an ELF file, puts the arguments on its stack and replaces the address space of the running process.
  The strings of \<open>argv\<close> are given by their bytes; what the pointers mean is decided where they are
  fetched from user memory.
\<close>

definition le64 :: "u8 list \<Rightarrow> nat \<Rightarrow> u64" where
  "le64 bs k = ucast (le32 bs k) OR push_bit 32 (ucast (le32 bs (k + 4)))"

definition enc64 :: "u64 \<Rightarrow> u8 list" where
  "enc64 w = map (\<lambda>k. ucast (drop_bit (8 * k) w)) [0..<8]"

record elfhdr =
  e_magic :: u32
  e_entry :: u64
  e_phoff :: u64
  e_phnum :: u16

record proghdr =
  ph_type :: u32
  ph_flags :: u32
  ph_off :: u64
  ph_vaddr :: u64
  ph_filesz :: u64
  ph_memsz :: u64

definition sizeof_elfhdr :: nat where "sizeof_elfhdr = 64"
definition sizeof_proghdr :: nat where "sizeof_proghdr = 56"
definition ELF_MAGIC :: u32 where "ELF_MAGIC = 0x464C457F"
definition ELF_PROG_LOAD :: u32 where "ELF_PROG_LOAD = 1"
definition ELF_PROG_FLAG_WRITE :: u32 where "ELF_PROG_FLAG_WRITE = 2"

definition dec_elfhdr :: "u8 list \<Rightarrow> elfhdr" where
  "dec_elfhdr bs = \<lparr>e_magic = le32 bs 0, e_entry = le64 bs 24, e_phoff = le64 bs 32, e_phnum = le16 bs 56\<rparr>"

definition dec_proghdr :: "u8 list \<Rightarrow> proghdr" where
  "dec_proghdr bs = \<lparr>ph_type = le32 bs 0, ph_flags = le32 bs 4, ph_off = le64 bs 8, ph_vaddr = le64 bs 16,
     ph_filesz = le64 bs 32, ph_memsz = le64 bs 40\<rparr>"

section \<open>Loading\<close>

text \<open>
  The loop of \<open>vrloaddata\<close> over the pages of a segment; \<open>i\<close> is an unsigned \<open>int\<close>.  There are
  \<open>sz / PGSIZE + 1\<close> rounds at most unless \<open>i\<close> wraps around.
\<close>

primrec vrloaddata_loop ::
  "nat \<Rightarrow> 'a fs_scheme devtab \<Rightarrow> u32 \<Rightarrow> u64 \<Rightarrow> iptr \<Rightarrow> u32 \<Rightarrow> u32 \<Rightarrow> vregion \<Rightarrow> 'a fs_scheme \<Rightarrow> (int \<times> vregion \<times> 'a fs_scheme) outcome" where
  "vrloaddata_loop 0 devs i va ip offset sz r s = Fail Spin"
| "vrloaddata_loop (Suc k) devs i va ip offset sz r s =
     (if \<not> i < sz then Ret (0, r, s)
      else obind (va2vpi_nonnull r (va + ucast i) s) (\<lambda>(p, r1, s1).
        assertm (used (vpi_at r1 p)) ''page must be allocated''
          (let n = min (sz - i) (ucast PGSIZE)
           in obind (readi devs ip (offset + i) n s1) (\<lambda>(m, bs, s2).
                let s3 = put_bytes (kfr (ppn_kva (ppn (vpi_at r1 p)))) 0 bs s2
                in if (of_int m :: u32) \<noteq> n then Ret (- 1, r1, s3)
                   else vrloaddata_loop k devs (i + ucast PGSIZE) va ip offset sz r1 s3))))"

definition vrloaddata ::
  "'a fs_scheme devtab \<Rightarrow> u64 \<Rightarrow> iptr \<Rightarrow> u32 \<Rightarrow> u32 \<Rightarrow> vregion \<Rightarrow> 'a fs_scheme \<Rightarrow> (int \<times> vregion \<times> 'a fs_scheme) outcome" where
  "vrloaddata devs va ip offset sz r s =
     assertm (va mod PGSIZE = 0) ''va must be page aligned''
       (vrloaddata_loop (unat sz div 4096 + 2) devs 0 va ip offset sz r s)"

text \<open>
  The loop over the program headers: \<open>k\<close> of them are left.  The loop state is \<open>first_section\<close>,
  \<open>code_end\<close> and \<open>sz\<close>; \<open>None\<close> is the jump to \<open>elf_failure\<close>.
\<close>

primrec load_segments ::
  "nat \<Rightarrow> 'a fs_scheme devtab \<Rightarrow> iptr \<Rightarrow> int \<Rightarrow> bool \<times> u64 \<times> int \<Rightarrow> vregion \<Rightarrow> 'a fs_scheme
     \<Rightarrow> ((bool \<times> u64 \<times> int) option \<times> vregion \<times> 'a fs_scheme) outcome" where
  "load_segments 0 devs ip off st code s = Ret (Some st, code, s)"
| "load_segments (Suc k) devs ip off st code s =
     obind (readi devs ip (of_int off) (of_nat sizeof_proghdr) s) (\<lambda>(r, bs, s1).
       if r \<noteq> int sizeof_proghdr then Ret (None, code, s1)
       else
         let ph = dec_proghdr bs
         in if ph_type ph \<noteq> ELF_PROG_LOAD then load_segments k devs ip (off + int sizeof_proghdr) st code s1
            else if ph_memsz ph < ph_filesz ph then Ret (None, code, s1)
            else if ph_vaddr ph + ph_memsz ph < ph_vaddr ph then Ret (None, code, s1)
            else
              let code1 = (if fst st then code\<lparr>va_base := PGROUNDDOWN (ph_vaddr ph)\<rparr> else code)
              in obind (vregionaddmap code1 (ph_vaddr ph) (ph_memsz ph) True (ph_flags ph AND ELF_PROG_FLAG_WRITE \<noteq> 0) s1) (\<lambda>(sz, code2, s2).
                   if sz < 0 then Ret (None, code2, s2)
                   else if ph_vaddr ph mod PGSIZE \<noteq> 0 then Ret (None, code2, s2)
                   else obind (vrloaddata devs (ph_vaddr ph) ip (ucast (ph_off ph)) (ucast (ph_filesz ph)) code2 s2) (\<lambda>(r, code3, s3).
                     if r < 0 then Ret (None, code3, s3)
                     else load_segments k devs ip (off + int sizeof_proghdr) (False, ph_vaddr ph + ph_memsz ph, sz) code3 s3)))"

text \<open>The result is the size of the last segment and the entry point; size 0 is the failure.\<close>

definition vspaceloadcode ::
  "'a fs_scheme devtab \<Rightarrow> Vspace.vspace \<Rightarrow> u8 list \<Rightarrow> 'a fs_scheme \<Rightarrow> (int \<times> u64 \<times> Vspace.vspace \<times> 'a fs_scheme) outcome" where
  "vspaceloadcode devs vs path s =
     obind (namei devs path s) (\<lambda>(r, s1). case r of
       None \<Rightarrow> Ret (0, 0, vs, s1)
     | Some ip \<Rightarrow>
         obind (locki devs ip s1) (\<lambda>s2.
           let fail = (\<lambda>vs s. obind (unlocki ip s) (\<lambda>s3. obind (irelease ip s3) (\<lambda>s4. Ret (0, 0, vs, s4))))
           in obind (readi devs ip 0 (of_nat sizeof_elfhdr) s2) (\<lambda>(r, bs, s3).
                if r \<noteq> int sizeof_elfhdr then fail vs s3
                else
                  let elf = dec_elfhdr bs
                  in if e_magic elf \<noteq> ELF_MAGIC then fail vs s3
                     else obind (load_segments (unat (e_phnum elf)) devs ip (sint (ucast (e_phoff elf) :: u32)) (True, 0, 0)
                                  (regions vs ! VR_CODE) s3) (\<lambda>(q, code, s4).
                       case q of
                         None \<Rightarrow> fail (reg_upd VR_CODE code vs) s4
                       | Some (first, code_end, sz) \<Rightarrow>
                           assertm (\<not> first) ''!first_section''
                             (let vs1 = reg_upd VR_HEAP ((regions vs ! VR_HEAP)\<lparr>va_base := PGROUNDUP code_end + PGSIZE, vsize := 0\<rparr>)
                                          (reg_upd VR_CODE (code\<lparr>vsize := code_end - va_base code\<rparr>) vs)
                              in obind (unlocki ip s4) (\<lambda>s5. obind (irelease ip s5) (\<lambda>s6.
                                   Ret (sz, e_entry elf, vs1, s6)))))))) "

section \<open>exec\<close>

text \<open>Copying the strings: \<open>Some\<close> gives their addresses in order, \<open>None\<close> a failed write.\<close>

primrec exec_strings ::
  "u8 list list \<Rightarrow> nat \<Rightarrow> u64 \<Rightarrow> Vspace.vspace \<Rightarrow> 'a km_scheme \<Rightarrow> (u64 list option \<times> u64 \<times> Vspace.vspace \<times> 'a km_scheme) outcome" where
  "exec_strings [] i sp vs s = Ret (Some [], sp, vs, s)"
| "exec_strings (a # as) i sp vs s =
     (let sp1 = sp - of_nat (length a + 1)
      in obind (vspacewritetova vs sp1 (a @ [0]) s) (\<lambda>(r, vs1, s1).
           if r = - 1 then Ret (None, sp1, vs1, s1)
           else if MAXARG \<le> i then Fail (BadAccess ''exec: argv_addrs'')
           else obind (exec_strings as (i + 1) sp1 vs1 s1) (\<lambda>(r, sp2, vs2, s2). Ret (map_option ((#) sp1) r, sp2, vs2, s2))))"

primrec exec_ptrs :: "u64 list \<Rightarrow> u64 \<Rightarrow> Vspace.vspace \<Rightarrow> 'a km_scheme \<Rightarrow> (bool \<times> Vspace.vspace \<times> 'a km_scheme) outcome" where
  "exec_ptrs [] a vs s = Ret (True, vs, s)"
| "exec_ptrs (p # ps) a vs s =
     obind (vspacewritetova vs a (enc64 p) s) (\<lambda>(r, vs1, s1).
       if r = - 1 then Ret (False, vs1, s1) else exec_ptrs ps (a + 8) vs1 s1)"

definition exec_fail :: "Vspace.vspace \<Rightarrow> 'a km_scheme \<Rightarrow> (int \<times> 'a km_scheme) outcome" where
  "exec_fail vs s = obind (vspacefree vs s) (\<lambda>(_, s1). Ret (- 1, s1))"

text \<open>The arguments and the terminating null pointer; the result is the new stack pointer, if all went well.\<close>

definition exec_args :: "u8 list list \<Rightarrow> Vspace.vspace \<Rightarrow> 'a km_scheme \<Rightarrow> (u64 option \<times> Vspace.vspace \<times> 'a km_scheme) outcome" where
  "exec_args argv vs s =
     obind (exec_strings argv 0 SZ_2G vs s) (\<lambda>(r, sp, vs1, s1). case r of
       None \<Rightarrow> Ret (None, vs1, s1)
     | Some addrs \<Rightarrow>
         let sp1 = sp - sp mod 8 - 8 * (of_nat (length argv) + 1)
         in obind (exec_ptrs (addrs @ [0]) sp1 vs1 s1) (\<lambda>(ok, vs2, s2). Ret (if ok then Some sp1 else None, vs2, s2)))"

definition exec :: "'a fl_scheme devtab \<Rightarrow> u8 list \<Rightarrow> u8 list list \<Rightarrow> 'a fl_scheme \<Rightarrow> (int \<times> 'a fl_scheme) outcome" where
  "exec devs path argv s =
     obind (myproc s) (\<lambda>i.
       let old = vspace (ptable s ! i)
       in obind (vspaceinit \<lparr>regions = [], pgtbl = 0\<rparr> s) (\<lambda>(r, vs, s1).
            if r = - 1 then Ret (- 1, s1)
            else obind (vspaceloadcode devs vs path s1) (\<lambda>(r, entry, vs1, s2).
              if r = 0 then exec_fail vs1 s2
              else obind (vspaceinitstack vs1 SZ_2G s2) (\<lambda>(r, vs2, s3).
                if r = - 1 then exec_fail vs2 s3
                else obind (vspaceupdate vs2 s3) (\<lambda>(vs3, s4).
                  obind (exec_args argv vs3 s4) (\<lambda>(r, vs4, s5). case r of
                    None \<Rightarrow> exec_fail vs4 s5
                  | Some sp \<Rightarrow>
                      let s6 = proc_upd i (\<lambda>p. p\<lparr>tf := (tf p)\<lparr>rip := entry, rsp := sp - 8, rdi := of_nat (length argv), rsi := sp\<rparr>,
                                                  vspace := vs4\<rparr>) s5
                      in obind (procinstall i s6) (\<lambda>s7. obind (vspacefree old s7) (\<lambda>(_, s8). Ret (0, s8)))))))))"

end
