(* ===== verification/Pgfault.thy ===== *)
theory Pgfault
  imports Proc
begin

text \<open>
  The page fault handling of \<open>kernel/trap.c\<close> (\<open>growstack\<close>, \<open>cowcopy\<close>) and, built on it, the accesses the
  kernel makes to the memory of the running process.

  An access goes through the page table of the process.  Write protection is on in the kernel as well
  (\<open>CR0_WP\<close>), so a store to a present read-only page faults, \<open>trap\<close> calls
  \<open>cowcopy\<close>, and the store is repeated; a fault in the kernel that this does not resolve, in particular on a
  page that is not present, ends in \<open>panic("trap")\<close>.  The translation cache of the processor is not modelled.

  The lemmas show what the copy of a shared page does.
\<close>

definition growstack :: "u64 \<Rightarrow> 'a ps_scheme \<Rightarrow> (int \<times> 'a ps_scheme) outcome" where
  "growstack addr0 s = (case curproc s of
     None \<Rightarrow> Ret (- 1, s)
   | Some i \<Rightarrow>
       let addr = PGROUNDDOWN addr0; vs = vspace (ptable s ! i); stk = regions vs ! VR_USTACK
       in if va_base stk \<le> addr then Ret (- 1, s)
          else if addr < va_base stk - 10 * PGSIZE then Ret (- 1, s)
          else
            let sz = va_base stk - vsize stk - addr
            in obind (vregionaddmap stk addr sz True True s) (\<lambda>(r, stk1, s1).
                 if r = - 1 then Ret (- 1, set_vspace i (reg_upd VR_USTACK stk1 vs) s1)
                 else obind (vspaceupdate (reg_upd VR_USTACK (stk1\<lparr>vsize := vsize stk1 + sz\<rparr>) vs) s1) (\<lambda>(vs1, s2).
                   Ret (0, set_vspace i vs1 s2))))"

text \<open>
  The new descriptor and the new frame of a copied page; \<open>None\<close> when there is nothing to copy or no memory.
\<close>

definition cow_page :: "vpage_info \<Rightarrow> 'a km_scheme \<Rightarrow> (vpage_info option \<times> 'a km_scheme) outcome" where
  "cow_page page s =
     (if \<not> cowpageflag page then Ret (None, s)
      else obind (kalloc s) (\<lambda>(data, s1).
        if data = 0 then Ret (None, s1)
        else obind (kfree (ppn_kva (ppn page)) (s1\<lparr>mem := (mem s1)(kfr data := mem s1 (kfr (ppn_kva (ppn page))))\<rparr>)) (\<lambda>s2.
          Ret (Some \<lparr>used = used page, ppn = PGNUM (V2P data), present = present page, writable = True, cowpageflag = False\<rparr>, s2))))"

definition cowcopy :: "u64 \<Rightarrow> 'a ps_scheme \<Rightarrow> (int \<times> 'a ps_scheme) outcome" where
  "cowcopy addr s = (case curproc s of
     None \<Rightarrow> Ret (- 1, s)
   | Some i \<Rightarrow>
       let vs = vspace (ptable s ! i)
       in case va2vregion vs addr of
            None \<Rightarrow> Fail (BadAccess ''cowcopy: null region'')
          | Some k \<Rightarrow>
              obind (va2vpi_nonnull (regions vs ! k) addr s) (\<lambda>(p, vr1, s1).
                obind (cow_page (vpi_at vr1 p) s1) (\<lambda>(q, s2). case q of
                  None \<Rightarrow> Ret (- 1, set_vspace i (reg_upd k vr1 vs) s2)
                | Some copy \<Rightarrow>
                    obind (vspaceupdate (reg_upd k (vpi_set p copy vr1) vs) s2) (\<lambda>(vs1, s3).
                      let s4 = set_vspace i vs1 s3 in obind (procinstall i s4) (\<lambda>s5. Ret (0, s5))))))"

section \<open>User memory\<close>

definition user_pte :: "u64 \<Rightarrow> 'a ps_scheme \<Rightarrow> u64 option outcome" where
  "user_pte va s = obind (myproc s) (\<lambda>i. Ret (xlate s (kfr (pgtbl (vspace (ptable s ! i)))) va))"

definition uread :: "u64 \<Rightarrow> 'a ps_scheme \<Rightarrow> u8 outcome" where
  "uread va s = obind (user_pte va s) (\<lambda>e. case e of
     None \<Rightarrow> Fail (Panic ''trap'')
   | Some e \<Rightarrow> Ret (mem s (pte_frame e) (unat (va mod PGSIZE))))"

primrec ureads :: "nat \<Rightarrow> u64 \<Rightarrow> 'a ps_scheme \<Rightarrow> u8 list outcome" where
  "ureads 0 va s = Ret []"
| "ureads (Suc n) va s = obind (uread va s) (\<lambda>b. omap ((#) b) (ureads n (va + 1) s))"

text \<open>The bytes from an address on up to the first that cannot be read.\<close>

primrec ureadable :: "nat \<Rightarrow> u64 \<Rightarrow> 'a ps_scheme \<Rightarrow> u8 list" where
  "ureadable 0 va s = []"
| "ureadable (Suc n) va s = (case uread va s of Ret b \<Rightarrow> b # ureadable n (va + 1) s | Fail e \<Rightarrow> [])"

definition ustore :: "nat \<Rightarrow> u64 \<Rightarrow> u8 \<Rightarrow> 'a km_scheme \<Rightarrow> 'a km_scheme" where
  "ustore f va b s = put_bytes f (unat (va mod PGSIZE)) [b] s"

definition uwrite :: "u64 \<Rightarrow> u8 \<Rightarrow> 'a ps_scheme \<Rightarrow> 'a ps_scheme outcome" where
  "uwrite va b s = obind (user_pte va s) (\<lambda>e. case e of
     None \<Rightarrow> Fail (Panic ''trap'')
   | Some e \<Rightarrow>
       if e AND PTE_W \<noteq> 0 then Ret (ustore (pte_frame e) va b s)
       else obind (cowcopy va (s\<lparr>num_page_faults := num_page_faults s + 1\<rparr>)) (\<lambda>(r, s1).
         if r \<noteq> 0 then Fail (Panic ''trap'')
         else obind (user_pte va s1) (\<lambda>e1. case e1 of
           Some e1 \<Rightarrow> if e1 AND PTE_W \<noteq> 0 then Ret (ustore (pte_frame e1) va b s1) else Fail (Panic ''trap'')
         | None \<Rightarrow> Fail (Panic ''trap''))))"

primrec uwrites :: "u64 \<Rightarrow> u8 list \<Rightarrow> 'a ps_scheme \<Rightarrow> 'a ps_scheme outcome" where
  "uwrites va [] s = Ret s"
| "uwrites va (b # bs) s = obind (uwrite va b s) (uwrites (va + 1) bs)"

section \<open>Copying a shared page\<close>

lemma ppn_kva_PGNUM: "i < 2 ^ 19 \<Longrightarrow> ppn_kva (PGNUM (V2P (kva i))) = kva i"
proof -
  assume "i < 2 ^ 19"
  then have "PGNUM (page_addr i) = of_nat i" by (simp add: word_unat_eq_iff PGNUM_page_addr unat_of_nat)
  then show ?thesis by (simp add: ppn_kva_def kva_def page_addr_def)
qed

lemma kfree_mem:
  assumes "kmem_ready s" "0 < rc s v"
  shows "\<exists>s'. kfree v s = Ret s' \<and> kmem_ready s' \<and> rc s' = (rc s)(v := rc s v - 1) \<and>
    mem s' = (if rc s v = 1 then (mem s)(kfr v := (\<lambda>_. 2)) else mem s)"
proof -
  obtain i where i: "managed s i" "v = kva i" "rc s v = refcount (core_map s ! i)" using assms(2) by (rule rc_posD)
  have n: "i < 2 ^ 19" using assms(1) i(1) by (simp add: kmem_ready_def kmem_inv_def managed_def)
  have k: "kfree v s = Ret (put_hw (cyc s) (dropped i s))" using kfree_eq [of s i] assms i by simp
  moreover obtain s' where "kfree v s = Ret s'" "kmem_ready s'" "rc s' = (rc s)(v := rc s v - 1)"
    using kpool.drop_ok [OF assms] by blast
  moreover have "mem (put_hw (cyc s) (dropped i s)) = (if rc s v = 1 then (mem s)(kfr v := (\<lambda>_. 2)) else mem s)"
    using i n by (simp add: dropped_def Let_def)
  ultimately show ?thesis by auto
qed

lemma kalloc_none_iff:
  assumes "kmem_ready s" "kalloc s = Ret (v, s')"
  shows "v = 0 \<longleftrightarrow> free_count s = 0"
  using kalloc_free_count [OF assms] kalloc_some_free [OF assms] by (cases "v = 0") simp_all



end
