(* ===== verification/Console.thy ===== *)
theory Console
  imports Proc
begin

text \<open>
  \<open>kernel/console.c\<close>, \<open>kernel/uart.c\<close>, \<open>kernel/kbd.c\<close> and the tables of
  \<open>inc/kbd.h\<close>: output to the screen and the serial line, formatted printing, line editing of the input and the
  decoding of scan codes.

  The devices are part of the state: \<open>crt\<close> is the screen memory, \<open>cursor\<close> what registers 14 and 15
  of its controller hold; \<open>kbd_data\<close> and \<open>uart_rx\<close> are the bytes waiting in the keyboard controller and in
  the receiver, so a status register reports data exactly when its queue is not empty.  The wait for the transmitter
  in \<open>uartputc\<close> reads the status at most 128 times and has no effect.  Debugging output of
  \<open>procdump\<close> and \<open>panic\<close> is left out.

  The lemmas show that the interrupt handlers of both input devices always return and keep the screen and the input ring in order.
\<close>

section \<open>State\<close>

record con = pr +
  panicked :: bool
  cons_locking :: bool
  crt :: "nat \<Rightarrow> u16"
  cursor :: nat
  input_buf :: "u8 list"
  input_r :: u32
  input_w :: u32
  input_e :: u32
  uart :: bool
  uart_rx :: "u8 list"
  kbd_data :: "u8 list"
  kbd_shift :: u8

definition BACKSPACE :: int where "BACKSPACE = 0x100"
definition CRTPORT :: u16 where "CRTPORT = 0x3d4"
definition COM1 :: u16 where "COM1 = 0x3f8"
definition INPUT_BUF :: nat where "INPUT_BUF = 128"
definition CONSOLE :: int where "CONSOLE = 1"

section \<open>Serial line and screen\<close>

definition uartputc :: "int \<Rightarrow> 'a con_scheme \<Rightarrow> 'a con_scheme" where
  "uartputc c s = (if uart s then outb COM1 (word_of_int c) s else s)"

definition uartinit :: "'a con_scheme \<Rightarrow> 'a con_scheme" where
  "uartinit s =
     (let s1 = outbs [(COM1 + 2, 0), (COM1 + 3, 0x80), (COM1, 12), (COM1 + 1, 0), (COM1 + 3, 3), (COM1 + 4, 0), (COM1 + 1, 1)] s
      in if inb (COM1 + 5) s1 = 0xFF then s1
         else fold uartputc [120, 107, 46, 46, 46, 10] (ioapicenable IRQ_COM1 0 (picenable IRQ_COM1 (s1\<lparr>uart := True\<rparr>))))"

definition cga_scroll :: "nat \<Rightarrow> (nat \<Rightarrow> u16) \<Rightarrow> nat \<Rightarrow> u16" where
  "cga_scroll pos m k = (if pos \<le> k \<and> k < 24 * 80 then 0 else if k < 23 * 80 then m (k + 80) else m k)"

definition cga_move :: "int \<Rightarrow> nat \<Rightarrow> nat" where
  "cga_move c pos =
     (if c = 10 then pos + (80 - pos mod 80) else if c = BACKSPACE then (if pos > 0 then pos - 1 else pos) else pos + 1)"

definition cgaputc :: "int \<Rightarrow> 'a con_scheme \<Rightarrow> 'a con_scheme outcome" where
  "cgaputc c s =
     (let m1 = (if c = 10 \<or> c = BACKSPACE then crt s else (crt s)(cursor s := (word_of_int c AND 0xff) OR 0x0700));
          pos = cga_move c (cursor s)
      in if pos > 25 * 80 then Fail (Panic ''pos under/overflow'')
         else
           let (m2, pos2) = (if pos div 80 \<ge> 24 then (cga_scroll (pos - 80) m1, pos - 80) else (m1, pos))
           in Ret ((outbs [(CRTPORT, 14), (CRTPORT, 15), (CRTPORT, 14), (CRTPORT + 1, of_nat (pos2 div 256)), (CRTPORT, 15), (CRTPORT + 1, of_nat pos2)] s)
                    \<lparr>cursor := pos2, crt := m2(pos2 := 32 OR 0x0700)\<rparr>))"

definition consputc :: "int \<Rightarrow> 'a con_scheme \<Rightarrow> 'a con_scheme outcome" where
  "consputc c s =
     (if panicked s then Fail Spin
      else cgaputc c (if c = BACKSPACE then uartputc 8 (uartputc 32 (uartputc 8 s)) else uartputc c s))"

section \<open>Formatted output\<close>

text \<open>
  The digits of a number as \<open>printint\<close> puts them into its buffer, the last one first.
\<close>

definition digit_char :: "nat \<Rightarrow> u8" where
  "digit_char d = (if d < 10 then of_nat (48 + d) else of_nat (87 + d))"

function digit_loop :: "nat \<Rightarrow> nat \<Rightarrow> u8 list" where
  "digit_loop base x = digit_char (x mod base) # (if base < 2 \<or> x div base = 0 then [] else digit_loop base (x div base))"
  by pat_completeness auto
termination by (relation "measure snd") (auto simp: div_eq_0_iff not_less)

declare digit_loop.simps [simp del]

definition printint :: "int \<Rightarrow> nat \<Rightarrow> bool \<Rightarrow> u8 list" where
  "printint xx base sg =
     (let neg = (sg \<and> xx < 0); x = (word_of_int (if neg then - xx else xx) :: u32)
      in rev (digit_loop base (unat x) @ (if neg then [45] else [])))"

definition printint64 :: "int \<Rightarrow> nat \<Rightarrow> bool \<Rightarrow> u8 list" where
  "printint64 xx base sg =
     (let neg = (sg \<and> xx < 0); x = (word_of_int (if neg then - xx else xx) :: u64)
      in rev (digit_loop base (unat x) @ (if neg then [45] else [])))"

text \<open>
  The arguments of \<open>cprintf\<close>: 64-bit slots, of which a plain \<open>%d\<close> or \<open>%x\<close> uses the low half, and strings.
  The first argument of \<open>cformat\<close> is \<open>None\<close> outside a \<open>%\<close> sequence and the value of
  \<open>lflag\<close> inside one.
\<close>

datatype carg = AInt u64 | AStr "u8 list option"

definition null_text :: "u8 list" where
  "null_text = [40, 110, 117, 108, 108, 41]"

definition arg_int :: "(int \<Rightarrow> u8 list) \<Rightarrow> (int \<Rightarrow> u8 list) \<Rightarrow> bool \<Rightarrow> carg list \<Rightarrow> (u8 list \<times> carg list) outcome" where
  "arg_int p32 p64 l args = (case args of
     AInt w # as \<Rightarrow> Ret (if l then p64 (sint w) else p32 (sint (ucast w :: u32)), as)
   | _ \<Rightarrow> Fail (BadAccess ''va_arg''))"

definition arg_str :: "carg list \<Rightarrow> (u8 list \<times> carg list) outcome" where
  "arg_str args = (case args of
     AStr t # as \<Rightarrow> Ret (case t of None \<Rightarrow> null_text | Some bs \<Rightarrow> takeWhile (\<lambda>b. b \<noteq> 0) bs, as)
   | _ \<Rightarrow> Fail (BadAccess ''va_arg''))"

fun cformat :: "bool option \<Rightarrow> u8 list \<Rightarrow> carg list \<Rightarrow> u8 list outcome" where
  "cformat m [] args = Ret []"
| "cformat None (c # rest) args = (if c = 37 then cformat (Some False) rest args else omap ((#) c) (cformat None rest args))"
| "cformat (Some l) (c # rest) args =
     (let go = (\<lambda>(bs, as). omap ((@) bs) (cformat None rest as))
      in if c = 100 then obind (arg_int (\<lambda>x. printint x 10 True) (\<lambda>x. printint64 x 10 True) l args) go
         else if c = 108 then cformat (Some (\<not> l)) rest args
         else if c = 120 then obind (arg_int (\<lambda>x. printint x 16 False) (\<lambda>x. printint64 x 16 False) l args) go
         else if c = 112 then obind (arg_int (\<lambda>x. printint64 x 16 False) (\<lambda>x. printint64 x 16 False) True args) go
         else if c = 115 then obind (arg_str args) go
         else if c = 37 then go ([37], args)
         else go ([37, c], args))"

definition cputs :: "u8 list \<Rightarrow> 'a con_scheme \<Rightarrow> 'a con_scheme outcome" where
  "cputs bs s = ofold (\<lambda>b. consputc (uint b)) bs s"

definition cprintf :: "u8 list option \<Rightarrow> carg list \<Rightarrow> 'a con_scheme \<Rightarrow> 'a con_scheme outcome" where
  "cprintf fmt args s =
     obind (if cons_locking s then acquire ConsLock s else Ret s) (\<lambda>s1. case fmt of
       None \<Rightarrow> Fail (Panic ''null fmt'')
     | Some f \<Rightarrow>
         obind (cformat None f args) (\<lambda>bs.
           obind (cputs bs s1) (\<lambda>s2. if cons_locking s then release ConsLock s2 else Ret s2)))"

section \<open>Input\<close>

text \<open>The ring of typed characters: \<open>r \<le> w \<le> e\<close> as counters, taken modulo the size.\<close>

definition input_at :: "u32 \<Rightarrow> 'a con_scheme \<Rightarrow> u8" where
  "input_at k s = input_buf s ! (unat k mod INPUT_BUF)"

primrec kill_line :: "nat \<Rightarrow> 'a con_scheme \<Rightarrow> 'a con_scheme outcome" where
  "kill_line 0 s = Ret s"
| "kill_line (Suc k) s =
     (if input_at (input_e s - 1) s = 10 then Ret s
      else obind (consputc BACKSPACE (s\<lparr>input_e := input_e s - 1\<rparr>)) (kill_line k))"

definition input_char :: "int \<Rightarrow> 'a con_scheme \<Rightarrow> 'a con_scheme outcome" where
  "input_char c s =
     (if c \<noteq> 0 \<and> input_e s - input_r s < of_nat INPUT_BUF then
        let d = (if c = 13 then 10 else c)
        in obind (consputc d (s\<lparr>input_buf := (input_buf s)[unat (input_e s) mod INPUT_BUF := word_of_int d], input_e := input_e s + 1\<rparr>)) (\<lambda>s1.
             if d = 10 \<or> d = 4 \<or> input_e s1 = input_r s1 + of_nat INPUT_BUF
             then wakeup InputChan (s1\<lparr>input_w := input_e s1\<rparr>) else Ret s1)
      else Ret s)"

text \<open>One character: the flag asks for a process listing.\<close>

definition console_key :: "int \<Rightarrow> bool \<times> 'a con_scheme \<Rightarrow> (bool \<times> 'a con_scheme) outcome" where
  "console_key c = (\<lambda>(dump, s).
     if c = 16 then Ret (True, s)
     else if c = 21 then omap (Pair dump) (kill_line (unat (input_e s - input_w s)) s)
     else if c = 8 \<or> c = 127 then
       (if input_e s \<noteq> input_w s then omap (Pair dump) (consputc BACKSPACE (s\<lparr>input_e := input_e s - 1\<rparr>)) else Ret (dump, s))
     else omap (Pair dump) (input_char c s))"

text \<open>
  The loop of \<open>consoleintr\<close> until \<open>getc\<close> reports that there is no more data; the fuel bounds the
  characters taken.
\<close>

primrec consoleintr_loop ::
  "nat \<Rightarrow> ('a con_scheme \<Rightarrow> int \<times> 'a con_scheme) \<Rightarrow> bool \<Rightarrow> 'a con_scheme \<Rightarrow> (bool \<times> 'a con_scheme) outcome" where
  "consoleintr_loop 0 getc dump s = Fail Spin"
| "consoleintr_loop (Suc n) getc dump s = (case getc s of (c, s1) \<Rightarrow>
     if c < 0 then Ret (dump, s1)
     else obind (console_key c (dump, s1)) (\<lambda>(dump1, s2). consoleintr_loop n getc dump1 s2))"

definition consoleintr ::
  "nat \<Rightarrow> ('a con_scheme \<Rightarrow> int \<times> 'a con_scheme) \<Rightarrow> 'a con_scheme \<Rightarrow> 'a con_scheme outcome" where
  "consoleintr n getc s =
     obind (acquire ConsLock s) (\<lambda>s1. obind (consoleintr_loop n getc False s1) (\<lambda>(dump, s2). release ConsLock s2))"

definition uartgetc :: "'a con_scheme \<Rightarrow> int \<times> 'a con_scheme" where
  "uartgetc s =
     (if \<not> uart s then (- 1, s)
      else case uart_rx s of [] \<Rightarrow> (- 1, s) | b # bs \<Rightarrow> (uint b, s\<lparr>uart_rx := bs\<rparr>))"

definition uartintr :: "'a con_scheme \<Rightarrow> 'a con_scheme outcome" where
  "uartintr s = consoleintr (Suc (length (uart_rx s))) uartgetc s"

section \<open>Keyboard\<close>

text \<open>
  The tables of \<open>inc/kbd.h\<close>: the listed entries, the entries given by index, and 0 elsewhere.
\<close>

definition SHIFT :: u8 where "SHIFT = 1"
definition CTL :: u8 where "CTL = 2"
definition ALT :: u8 where "ALT = 4"
definition CAPSLOCK :: u8 where "CAPSLOCK = 8"
definition NUMLOCK :: u8 where "NUMLOCK = 16"
definition SCROLLLOCK :: u8 where "SCROLLLOCK = 32"
definition E0ESC :: u8 where "E0ESC = 64"

definition table_at :: "u8 list \<Rightarrow> (u8 \<times> u8) list \<Rightarrow> u8 \<Rightarrow> u8" where
  "table_at listed given k =
     (case map_of given k of Some v \<Rightarrow> v | None \<Rightarrow> if unat k < length listed then listed ! unat k else 0)"

definition shiftcode :: "u8 \<Rightarrow> u8" where
  "shiftcode = table_at [] [(0x1D, CTL), (0x2A, SHIFT), (0x36, SHIFT), (0x38, ALT), (0x9D, CTL), (0xB8, ALT)]"

definition togglecode :: "u8 \<Rightarrow> u8" where
  "togglecode = table_at [] [(0x3A, CAPSLOCK), (0x45, NUMLOCK), (0x46, SCROLLLOCK)]"

definition normalmap :: "u8 \<Rightarrow> u8" where
  "normalmap = table_at
    [0, 27, 49, 50, 51, 52, 53, 54, 55, 56, 57, 48, 45, 61, 8, 9, 113, 119, 101, 114, 116, 121, 117, 105, 111, 112,
     91, 93, 10, 0, 97, 115, 100, 102, 103, 104, 106, 107, 108, 59, 39, 96, 0, 92, 122, 120, 99, 118, 98, 110, 109,
     44, 46, 47, 0, 42, 0, 32, 0, 0, 0, 0, 0, 0, 0, 0, 0, 0, 0, 0, 0, 55, 56, 57, 45, 52, 53, 54, 43, 49, 50, 51,
     48, 46, 0, 0, 0, 0]
    [(0x9c, 10), (0xb5, 47), (0xc8, 226), (0xd0, 227), (0xc9, 230), (0xd1, 231), (0xcb, 228), (0xcd, 229), (0x97, 224), (0xcf, 225), (0xd2, 232), (0xd3, 233)]"

definition shiftmap :: "u8 \<Rightarrow> u8" where
  "shiftmap = table_at
    [0, 27, 33, 64, 35, 36, 37, 94, 38, 42, 40, 41, 95, 43, 8, 9, 81, 87, 69, 82, 84, 89, 85, 73, 79, 80, 123, 125,
     10, 0, 65, 83, 68, 70, 71, 72, 74, 75, 76, 58, 34, 126, 0, 124, 90, 88, 67, 86, 66, 78, 77, 60, 62, 63, 0, 42,
     0, 32, 0, 0, 0, 0, 0, 0, 0, 0, 0, 0, 0, 0, 0, 55, 56, 57, 45, 52, 53, 54, 43, 49, 50, 51, 48, 46, 0, 0, 0, 0]
    [(0x9c, 10), (0xb5, 47), (0xc8, 226), (0xd0, 227), (0xc9, 230), (0xd1, 231), (0xcb, 228), (0xcd, 229), (0x97, 224), (0xcf, 225), (0xd2, 232), (0xd3, 233)]"

definition ctlmap :: "u8 \<Rightarrow> u8" where
  "ctlmap = table_at
    [0, 0, 0, 0, 0, 0, 0, 0, 0, 0, 0, 0, 0, 0, 0, 0, 17, 23, 5, 18, 20, 25, 21, 9, 15, 16, 0, 0, 13, 0, 1, 19, 4,
     6, 7, 8, 10, 11, 12, 0, 0, 0, 0, 28, 26, 24, 3, 22, 2, 14, 13, 0, 0, 239, 0, 0]
    [(0x9c, 13), (0xb5, 239), (0xc8, 226), (0xd0, 227), (0xc9, 230), (0xd1, 231), (0xcb, 228), (0xcd, 229), (0x97, 224), (0xcf, 225), (0xd2, 232), (0xd3, 233)]"

definition charcode :: "u8 \<Rightarrow> u8 \<Rightarrow> u8" where
  "charcode m = (if m = 0 then normalmap else if m = SHIFT then shiftmap else ctlmap)"

text \<open>The shift state and the character for one scan code; 0 stands for no character.\<close>

definition kbd_decode :: "u8 \<Rightarrow> u8 \<Rightarrow> u8 \<times> u8" where
  "kbd_decode shift data =
     (if data = 0xE0 then (shift OR E0ESC, 0)
      else if data AND 0x80 \<noteq> 0 then
        let d = (if shift AND E0ESC \<noteq> 0 then data else data AND 0x7F)
        in (shift AND NOT (shiftcode d OR E0ESC), 0)
      else
        let (d, sh) = (if shift AND E0ESC \<noteq> 0 then (data OR 0x80, shift AND NOT E0ESC) else (data, shift));
            sh2 = (sh OR shiftcode d) XOR togglecode d;
            c = charcode (sh2 AND (CTL OR SHIFT)) d
        in (sh2, if sh2 AND CAPSLOCK \<noteq> 0
                 then if 97 \<le> c \<and> c \<le> 122 then c - 32 else if 65 \<le> c \<and> c \<le> 90 then c + 32 else c
                 else c))"

definition kbdgetc :: "'a con_scheme \<Rightarrow> int \<times> 'a con_scheme" where
  "kbdgetc s = (case kbd_data s of
     [] \<Rightarrow> (- 1, s)
   | b # bs \<Rightarrow> (case kbd_decode (kbd_shift s) b of (sh, c) \<Rightarrow> (uint c, s\<lparr>kbd_data := bs, kbd_shift := sh\<rparr>)))"

definition kbdintr :: "'a con_scheme \<Rightarrow> 'a con_scheme outcome" where
  "kbdintr s = consoleintr (Suc (length (kbd_data s))) kbdgetc s"

section \<open>The console device\<close>

definition consoleread_done ::
  "nat \<Rightarrow> nat \<Rightarrow> u8 list \<Rightarrow> 'a con_scheme \<Rightarrow> (int \<times> u8 list \<times> 'a con_scheme) outcome" where
  "consoleread_done target n acc s = obind (release ConsLock s) (\<lambda>s1. Ret (int target - int n, acc, s1))"

text \<open>
  The loop of \<open>consoleread\<close>, entered with the console lock held: \<open>n\<close> bytes are still wanted, \<open>acc\<close> are those
  delivered.  A reader that finds no complete line is left asleep and goes on in \<open>consoleread_resume\<close>.
\<close>

primrec consoleread_loop ::
  "nat \<Rightarrow> nat \<Rightarrow> u8 list \<Rightarrow> 'a con_scheme \<Rightarrow> (int \<times> u8 list \<times> 'a con_scheme, nat \<times> u8 list \<times> 'a con_scheme) progress outcome" where
  "consoleread_loop 0 target acc s = omap Done (consoleread_done target 0 acc s)"
| "consoleread_loop (Suc n) target acc s =
     (if input_r s = input_w s then
        obind (myproc s) (\<lambda>i.
          if killed (ptable s ! i) then obind (release ConsLock s) (\<lambda>s1. Ret (Done (- 1, acc, s1)))
          else omap (\<lambda>s1. Asleep (Suc n, acc, s1)) (sleep_switch InputChan ConsLock s))
      else
        let c = input_at (input_r s) s; s1 = s\<lparr>input_r := input_r s + 1\<rparr>
        in if c = 4 then omap Done (consoleread_done target (Suc n) acc (if Suc n < target then s1\<lparr>input_r := input_r s1 - 1\<rparr> else s1))
           else if c = 10 then omap Done (consoleread_done target n (acc @ [c]) s1)
           else consoleread_loop n target (acc @ [c]) s1)"

definition consoleread_resume ::
  "bool \<Rightarrow> nat \<Rightarrow> nat \<Rightarrow> u8 list \<Rightarrow> 'a con_scheme \<Rightarrow> (int \<times> u8 list \<times> 'a con_scheme, nat \<times> u8 list \<times> 'a con_scheme) progress outcome" where
  "consoleread_resume ie n target acc s = obind (sleep_resume ie ConsLock s) (consoleread_loop n target acc)"

definition consoleread ::
  "iptr \<Rightarrow> int \<Rightarrow> 'a con_scheme \<Rightarrow> (int \<times> u8 list \<times> 'a con_scheme, nat \<times> u8 list \<times> 'a con_scheme) progress outcome" where
  "consoleread ip n s = obind (acquire ConsLock s) (consoleread_loop (nat n) (nat n) [])"

definition consolewrite :: "iptr \<Rightarrow> u8 list \<Rightarrow> int \<Rightarrow> 'a con_scheme \<Rightarrow> (int \<times> 'a con_scheme) outcome" where
  "consolewrite ip buf n s =
     obind (acquire ConsLock s) (\<lambda>s1.
       if int (length buf) < n then Fail (BadAccess ''consolewrite: buffer'')
       else obind (cputs (take (nat n) buf) s1) (\<lambda>s2. obind (release ConsLock s2) (\<lambda>s3. Ret (n, s3))))"

text \<open>
  \<open>devsw\<close> after \<open>consoleinit\<close>.  A read that has to wait does not come back to the caller in the device
  switch.
\<close>

definition console_devs :: "'a con_scheme devtab" where
  "console_devs d =
     (if d = CONSOLE
      then \<lparr>d_read = Some (\<lambda>ip n s. obind (consoleread ip (sint n) s) run_alone),
            d_write = Some (\<lambda>ip bs n s. consolewrite ip bs (sint n) s)\<rparr>
      else \<lparr>d_read = None, d_write = None\<rparr>)"

definition consoleinit :: "'a con_scheme \<Rightarrow> 'a con_scheme" where
  "consoleinit s = ioapicenable IRQ_KBD 0 (picenable IRQ_KBD ((initlock ConsLock ''console'' s)\<lparr>cons_locking := True\<rparr>))"

section \<open>Interrupts of the console devices\<close>

text \<open>
  The cursor is on the screen, and the counters of the input ring are in order: at most \<open>INPUT_BUF\<close> characters lie
  between the reader and the end of the line being edited, and the complete lines are a part of them.
\<close>

definition con_ok :: "'a con_scheme \<Rightarrow> bool" where
  "con_ok s \<longleftrightarrow> \<not> panicked s \<and> cursor s < 24 * 80 \<and> length (input_buf s) = INPUT_BUF \<and>
     unat (input_w s - input_r s) \<le> unat (input_e s - input_r s) \<and> unat (input_e s - input_r s) \<le> INPUT_BUF"

text \<open>What the code under the console lock keeps: the invariant, the locks and the devices' queues.\<close>

definition con_step :: "'a con_scheme \<Rightarrow> 'a con_scheme \<Rightarrow> bool" where
  "con_step s s' \<longleftrightarrow> con_ok s' \<and> same_hw s' s \<and> uart_rx s' = uart_rx s \<and> kbd_data s' = kbd_data s \<and> uart s' = uart s"

lemma con_step_trans: "con_step s t \<Longrightarrow> con_step t u \<Longrightarrow> con_step s u"
  by (simp add: con_step_def same_hw_def)

lemma cga_move_bound: "pos < 24 * 80 \<Longrightarrow> cga_move c pos \<le> 24 * 80"
proof -
  assume p: "pos < 24 * 80"
  then have "pos div 80 < 24" by (simp add: less_mult_imp_div_less)
  moreover have "pos + (80 - r) = (q + 1) * 80" if "pos = q * 80 + r" "r < 80" for q r using that by simp
  from this [of "pos div 80" "pos mod 80"] have "pos + (80 - pos mod 80) = (pos div 80 + 1) * 80" by simp
  ultimately show ?thesis using p by (auto simp: cga_move_def)
qed

lemma con_outbs [simp]:
  "panicked (outbs ws s) = panicked s" "cursor (outbs ws s) = cursor s" "input_buf (outbs ws s) = input_buf s"
  "input_r (outbs ws s) = input_r s" "input_w (outbs ws s) = input_w s" "input_e (outbs ws s) = input_e s"
  "uart_rx (outbs ws s) = uart_rx s" "kbd_data (outbs ws s) = kbd_data s" "uart (outbs ws s) = uart s"
  "same_hw (outbs ws s) t = same_hw s t"
  by (induction ws arbitrary: s) (auto simp: outbs_def outb_def same_hw_def)

lemma con_uartputc [simp]:
  "panicked (uartputc c s) = panicked s" "cursor (uartputc c s) = cursor s" "input_buf (uartputc c s) = input_buf s"
  "input_r (uartputc c s) = input_r s" "input_w (uartputc c s) = input_w s" "input_e (uartputc c s) = input_e s"
  "uart_rx (uartputc c s) = uart_rx s" "kbd_data (uartputc c s) = kbd_data s" "uart (uartputc c s) = uart s"
  "same_hw (uartputc c s) t = same_hw s t"
  by (simp_all add: uartputc_def outb_def same_hw_def)

lemma cgaputc_shape:
  assumes "cursor s < 24 * 80"
  shows "\<exists>ws p m. cgaputc c s = Ret ((outbs ws s)\<lparr>cursor := p, crt := m\<rparr>) \<and> p < 24 * 80"
proof -
  let ?pos = "cga_move c (cursor s)"
  have p: "?pos \<le> 24 * 80" using cga_move_bound assms by simp
  show ?thesis
  proof (cases "24 \<le> ?pos div 80")
    case True
    have "\<exists>ws m. cgaputc c s = Ret ((outbs ws s)\<lparr>cursor := ?pos - 80, crt := m\<rparr>)"
      using True p by (simp add: cgaputc_def Let_def del: outbs_Cons split del: if_split) (intro exI, rule refl)
    moreover have "?pos - 80 < 24 * 80" using p by simp
    ultimately show ?thesis by blast
  next
    case False
    have "\<exists>ws m. cgaputc c s = Ret ((outbs ws s)\<lparr>cursor := ?pos, crt := m\<rparr>)"
      using False p by (simp add: cgaputc_def Let_def del: outbs_Cons split del: if_split) (intro exI, rule refl)
    moreover have "?pos < 24 * 80" using False by simp
    ultimately show ?thesis by blast
  qed
qed

lemma consputc_ok:
  assumes "con_ok s"
  shows "\<exists>s'. consputc c s = Ret s' \<and> con_step s s' \<and> input_r s' = input_r s \<and> input_w s' = input_w s \<and> input_e s' = input_e s \<and>
    input_buf s' = input_buf s"
proof -
  define t where "t = (if c = BACKSPACE then uartputc 8 (uartputc 32 (uartputc 8 s)) else uartputc c s)"
  have t: "cursor t = cursor s" "panicked t = panicked s" "\<And>u. same_hw t u = same_hw s u" "uart_rx t = uart_rx s" "kbd_data t = kbd_data s"
    "uart t = uart s" "input_r t = input_r s" "input_w t = input_w s" "input_e t = input_e s" "input_buf t = input_buf s"
    by (simp_all add: t_def)
  obtain ws p m where c: "cgaputc c t = Ret ((outbs ws t)\<lparr>cursor := p, crt := m\<rparr>)" "p < 24 * 80"
    using cgaputc_shape [of t c] assms t(1) by (auto simp: con_ok_def)
  have "same_hw ((outbs ws t)\<lparr>cursor := p, crt := m\<rparr>) s = same_hw (outbs ws t) s" by (simp add: same_hw_def)
  then have h: "same_hw ((outbs ws t)\<lparr>cursor := p, crt := m\<rparr>) s" using t(3) by simp
  have "consputc c s = Ret ((outbs ws t)\<lparr>cursor := p, crt := m\<rparr>)" using assms c(1) by (simp add: consputc_def t_def con_ok_def)
  then show ?thesis using assms c(2) h t by (simp add: con_step_def con_ok_def)
qed

lemma con_wakeup:
  assumes "0 < ncli s" "\<not> eflags_IF s" "unheld PtableLock s"
  shows "wakeup c s = Ret (wakeup1 c s)"
proof -
  have "settle s = s" using assms(1) by (simp add: settle_inside)
  then show ?thesis using wakeup_eq [of s c] assms by (simp add: cli_ok_def) (simp add: wakeup1_def put_hw_def)
qed

lemma con_wakeup1 [simp]: "con_ok (wakeup1 c s) = con_ok s" "con_step s (wakeup1 c t) = con_step s t"
  by (simp_all add: con_ok_def con_step_def wakeup1_def same_hw_def)

text \<open>Inside the console's critical section.\<close>

definition con_in :: "'a con_scheme \<Rightarrow> bool" where
  "con_in s \<longleftrightarrow> con_ok s \<and> 0 < ncli s \<and> \<not> eflags_IF s \<and> unheld PtableLock s"

lemma con_in_step: "con_in s \<Longrightarrow> con_step s t \<Longrightarrow> con_in t"
  by (simp add: con_in_def con_step_def same_hw_def unheld_def)

lemma e_minus:
  "(e :: u32) \<noteq> w \<Longrightarrow> unat (w - r) \<le> unat (e - r) \<Longrightarrow>
     unat (w - r) \<le> unat (e - 1 - r) \<and> unat (e - 1 - r) \<le> unat (e - r) \<and> unat (e - 1 - w) = unat (e - w) - 1"
proof -
  assume a: "e \<noteq> w" "unat (w - r) \<le> unat (e - r)"
  then have "w - r \<noteq> e - r" by simp
  then have "unat (w - r) < unat (e - r)" using a(2) by (metis le_neq_implies_less word_unat_eq_iff)
  moreover from this have "unat (e - r - 1) = unat (e - r) - 1" by (intro unat_minus_one) auto
  moreover have "unat (e - w - 1) = unat (e - w) - 1" using a(1) by (intro unat_minus_one) simp
  ultimately show ?thesis by (simp add: diff_right_commute)
qed

lemma erase_ok:
  assumes "con_in s" "input_e s \<noteq> input_w s"
  shows "\<exists>s'. consputc BACKSPACE (s\<lparr>input_e := input_e s - 1\<rparr>) = Ret s' \<and> con_step s s' \<and>
    unat (input_e s' - input_w s') = unat (input_e s - input_w s) - 1"
proof -
  let ?t = "s\<lparr>input_e := input_e s - 1\<rparr>"
  note e = e_minus [OF assms(2), of "input_r s"]
  have t: "con_ok ?t" "same_hw ?t s" using assms(1) e by (auto simp: con_in_def con_ok_def same_hw_def)
  obtain s' where "consputc BACKSPACE ?t = Ret s'" "con_step ?t s'" "input_e s' = input_e s - 1" "input_w s' = input_w s"
    using consputc_ok [OF t(1)] by auto
  moreover have "con_step s ?t" using t by (simp add: con_step_def)
  ultimately show ?thesis using con_step_trans e assms(1) by (auto simp: con_in_def con_ok_def)
qed

lemma kill_line_ok: "con_in s \<Longrightarrow> k = unat (input_e s - input_w s) \<Longrightarrow> \<exists>s'. kill_line k s = Ret s' \<and> con_step s s'"
proof (induction k arbitrary: s)
  case 0
  then show ?case by (simp add: con_step_def con_in_def)
next
  case (Suc k)
  show ?case
  proof (cases "input_at (input_e s - 1) s = 10")
    case True
    then show ?thesis using Suc.prems(1) by (simp add: con_step_def con_in_def)
  next
    case False
    have "input_e s \<noteq> input_w s" using Suc.prems(2) by auto
    then obtain t where t: "consputc BACKSPACE (s\<lparr>input_e := input_e s - 1\<rparr>) = Ret t" "con_step s t" "unat (input_e t - input_w t) = k"
      using erase_ok [OF Suc.prems(1)] Suc.prems(2) by auto
    then obtain s' where "kill_line k t = Ret s'" "con_step t s'" using Suc.IH con_in_step [OF Suc.prems(1)] by blast
    then show ?thesis using False t con_step_trans by auto
  qed
qed

lemma input_char_ok:
  assumes "con_in s"
  shows "\<exists>s'. input_char c s = Ret s' \<and> con_step s s'"
proof (cases "c \<noteq> 0 \<and> input_e s - input_r s < of_nat INPUT_BUF")
  case True
  define d where "d = (if c = 13 then 10 else c)"
  define t where "t = s\<lparr>input_buf := (input_buf s)[unat (input_e s) mod INPUT_BUF := word_of_int d], input_e := input_e s + 1\<rparr>"
  have "unat (input_e s - input_r s) < 128" using True by (simp add: INPUT_BUF_def word_less_nat_alt)
  then have "unat ((input_e s - input_r s) + 1) = unat (input_e s - input_r s) + 1" by (simp add: unat_word_ariths)
  moreover have "input_e s + 1 - input_r s = (input_e s - input_r s) + 1" by simp
  ultimately have "unat (input_e s + 1 - input_r s) = unat (input_e s - input_r s) + 1" by (simp only:)
  then have "con_ok t" "same_hw t s"
    using assms \<open>unat (input_e s - input_r s) < 128\<close> by (auto simp: t_def con_in_def con_ok_def INPUT_BUF_def same_hw_def)
  moreover from this have st: "con_step s t" by (simp add: con_step_def) (simp add: t_def)
  ultimately obtain u where u: "consputc d t = Ret u" "con_step t u" using consputc_ok by blast
  have su: "con_step s u" using st u(2) by (rule con_step_trans)
  have w: "con_step s (u\<lparr>input_w := input_e u\<rparr>)" using su by (simp add: con_step_def con_ok_def same_hw_def)
  then have "wakeup InputChan (u\<lparr>input_w := input_e u\<rparr>) = Ret (wakeup1 InputChan (u\<lparr>input_w := input_e u\<rparr>))"
    using con_in_step [OF assms] con_wakeup by (metis con_in_def)
  then show ?thesis using True u(1) su w by (auto simp: input_char_def Let_def d_def [symmetric] t_def [symmetric])
next
  case False
  then show ?thesis using assms by (auto simp: input_char_def con_step_def con_in_def)
qed

lemma console_key_ok:
  assumes "con_in s"
  shows "\<exists>d s'. console_key c (dump, s) = Ret (d, s') \<and> con_step s s'"
proof -
  have "con_step s s" using assms by (simp add: con_step_def con_in_def)
  then show ?thesis
    using kill_line_ok [OF assms refl] erase_ok [OF assms] input_char_ok [OF assms, of c] by (auto simp: console_key_def)
qed

text \<open>
  A source of characters, as \<open>consoleintr\<close> uses it: it reports the end, or takes one byte from its queue and leaves
  everything that the console code relies on alone.
\<close>

locale key_source =
  fixes getc :: "'a con_scheme \<Rightarrow> int \<times> 'a con_scheme" and waiting :: "'a con_scheme \<Rightarrow> nat"
  assumes ended: "waiting s = 0 \<Longrightarrow> getc s = (- 1, s)"
    and taken: "0 < waiting s \<Longrightarrow> \<exists>c s'. getc s = (c, s') \<and> 0 \<le> c \<and> Suc (waiting s') = waiting s \<and> (con_in s \<longrightarrow> con_in s') \<and>
      (\<forall>l. spin_held l s \<longrightarrow> spin_held l s')"
    and frame: "con_step s s' \<Longrightarrow> waiting s' = waiting s"
begin

lemma loop_ok:
  "con_in s \<Longrightarrow> spin_held ConsLock s \<Longrightarrow> waiting s < n \<Longrightarrow>
    \<exists>d s'. consoleintr_loop n getc dump s = Ret (d, s') \<and> con_in s' \<and> spin_held ConsLock s' \<and> waiting s' = 0"
proof (induction n arbitrary: s dump)
  case (Suc n)
  show ?case
  proof (cases "waiting s = 0")
    case True
    then show ?thesis using ended [OF True] Suc.prems by simp
  next
    case False
    then obtain c t where t: "getc s = (c, t)" "0 \<le> c" "Suc (waiting t) = waiting s" "con_in t" "spin_held ConsLock t"
      using taken [of s] Suc.prems by blast
    then obtain d u where u: "console_key c (dump, t) = Ret (d, u)" "con_step t u" using console_key_ok by blast
    have "con_in u" "waiting u < n" "spin_held ConsLock u"
      using u(2) t(3-5) Suc.prems(3) frame con_in_step by (auto simp: con_step_def same_hw_def spin_held_def cli_ok_def holding_def)
    then show ?thesis using Suc.IH [of u d] t(1,2) u(1) by auto
  qed
qed simp

lemma intr_ok:
  assumes "con_ok s" "spin_free ConsLock s" "spin_free PtableLock s" "waiting (enter ConsLock s) < n"
  shows "\<exists>s'. consoleintr n getc s = Ret s' \<and> con_ok s' \<and> spin_free ConsLock s' \<and> (\<exists>t. waiting t = 0 \<and> release ConsLock t = Ret s')"
proof -
  let ?e = "enter ConsLock s"
  have "acquire ConsLock s = Ret ?e" "spin_held ConsLock ?e" "con_in ?e"
    using assms(1-3) cli_ok_acquire [of s ConsLock ?e]
    by (simp_all add: acquire_enter spin_free_def spin_held_def con_in_def)
      (auto simp: con_ok_def enter_def cli_ok_def unheld_def)
  then obtain d t where t: "consoleintr_loop n getc False ?e = Ret (d, t)" "con_in t" "spin_held ConsLock t" "waiting t = 0"
    using loop_ok assms(4) by blast
  obtain u where u: "release ConsLock t = Ret u" "spin_free ConsLock u" using release_spin_held [OF t(3)] by blast
  have "con_ok u" using u(1) t(2) by (auto simp: release_def popcli_def Let_def con_in_def con_ok_def split: if_splits)
  then show ?thesis using \<open>acquire ConsLock s = Ret ?e\<close> t(1,4) u by (auto simp: consoleintr_def)
qed

end

interpretation serial: key_source uartgetc "\<lambda>s. if uart s then length (uart_rx s) else 0"
proof unfold_locales
  fix s s' :: "'b con_scheme"
  assume "0 < (if uart s then length (uart_rx s) else 0)"
  then obtain b bs where "uart s" "uart_rx s = b # bs" by (cases "uart_rx s") (auto split: if_splits)
  then show "\<exists>c s'. uartgetc s = (c, s') \<and> 0 \<le> c \<and>
      Suc (if uart s' then length (uart_rx s') else 0) = (if uart s then length (uart_rx s) else 0) \<and>
      (con_in s \<longrightarrow> con_in s') \<and> (\<forall>l. spin_held l s \<longrightarrow> spin_held l s')"
    by (simp add: uartgetc_def con_in_def con_ok_def unheld_def spin_held_def holding_def cli_ok_def)
qed (auto simp: uartgetc_def con_step_def split: if_splits)

interpretation keyboard: key_source kbdgetc "\<lambda>s. length (kbd_data s)"
proof unfold_locales
  fix s s' :: "'b con_scheme"
  assume "0 < length (kbd_data s)"
  then obtain b bs where "kbd_data s = b # bs" by (cases "kbd_data s") auto
  then show "\<exists>c s'. kbdgetc s = (c, s') \<and> 0 \<le> c \<and> Suc (length (kbd_data s')) = length (kbd_data s) \<and>
      (con_in s \<longrightarrow> con_in s') \<and> (\<forall>l. spin_held l s \<longrightarrow> spin_held l s')"
    by (simp add: kbdgetc_def con_in_def con_ok_def unheld_def spin_held_def holding_def cli_ok_def split: prod.split)
qed (auto simp: kbdgetc_def con_step_def)


definition demo_con :: con where
  "demo_con = pr.extend (fl.extend demo_pr (pr.fields False))
     (con.fields False True (\<lambda>_. 0) 0 (replicate 128 0) 0 0 0 True [97, 21, 98, 8, 99, 10] [0x1e] 0)"

lemma demo_con_fields: "ptable demo_con = ptable demo_run" "curproc demo_con = Some 0" "\<And>l. spin_free l demo_con" "con_ok demo_con"
  using demo_pr_ok by (simp_all add: demo_con_def con.defs pr.defs fl.defs con_ok_def INPUT_BUF_def)
    (simp_all add: at_rest_def spin_free_def cli_ok_def unheld_def)


end
