(* ===== verification/Syscall.thy ===== *)
theory Syscall
  imports Exec Pgfault Console
begin

text \<open>
  \<open>kernel/syscall.c\<close>, \<open>kernel/sysfile.c\<close>, \<open>kernel/sysproc.c\<close> and \<open>kernel/syscrash.c\<close>:
  fetching and checking the arguments of a system call, the calls themselves and the dispatch.

  A call returns a number, or leaves the process asleep inside the kernel (it then goes on in the
  \<open>_resume\<close> function of the operation it waits in), or, for \<open>exit\<close>, never comes back.

  The lemmas show what the check of a pointer argument guarantees, and where it fails.
\<close>

datatype 's sysres = SysRet int 's | SysSleep 's | SysGone 's

primrec of_progress :: "('s \<Rightarrow> 't) \<Rightarrow> (int \<times> 't, 's) progress \<Rightarrow> 't sysres" where
  "of_progress g (Done r) = SysRet (fst r) (snd r)"
| "of_progress g (Asleep s) = SysSleep (g s)"

section \<open>Arguments\<close>

definition my_regions :: "'a ps_scheme \<Rightarrow> vregion list outcome" where
  "my_regions s = obind (myproc s) (\<lambda>i. Ret (take NREGIONS (regions (vspace (ptable s ! i)))))"

definition in_regions :: "u64 \<Rightarrow> int \<Rightarrow> vregion list \<Rightarrow> bool" where
  "in_regions a sz rs \<longleftrightarrow> (\<exists>r\<in>set rs. vregioncontains r a sz \<noteq> 0)"

definition fetchint :: "u64 \<Rightarrow> 'a ps_scheme \<Rightarrow> int option outcome" where
  "fetchint a s = obind (my_regions s) (\<lambda>rs.
     if in_regions a 4 rs then obind (ureads 4 a s) (\<lambda>bs. Ret (Some (sint (le32 bs 0)))) else Ret None)"

definition fetchint64 :: "u64 \<Rightarrow> 'a ps_scheme \<Rightarrow> u64 option outcome" where
  "fetchint64 a s = obind (my_regions s) (\<lambda>rs.
     if in_regions a 8 rs then obind (ureads 8 a s) (\<lambda>bs. Ret (Some (le64 bs 0))) else Ret None)"

text \<open>The distance to the first zero byte among the next \<open>n\<close>.\<close>

primrec scan_nul :: "nat \<Rightarrow> u64 \<Rightarrow> 'a ps_scheme \<Rightarrow> nat option outcome" where
  "scan_nul 0 a s = Ret None"
| "scan_nul (Suc n) a s =
     obind (uread a s) (\<lambda>b. if b = 0 then Ret (Some 0) else omap (map_option Suc) (scan_nul n (a + 1) s))"

primrec fetchstr_loop :: "vregion list \<Rightarrow> u64 \<Rightarrow> 'a ps_scheme \<Rightarrow> nat option outcome" where
  "fetchstr_loop [] a s = Ret None"
| "fetchstr_loop (r # rs) a s =
     (if vregioncontains r a 0 \<noteq> 0
      then obind (scan_nul (unat (VRTOP r - a)) a s) (\<lambda>x. case x of Some n \<Rightarrow> Ret (Some n) | None \<Rightarrow> fetchstr_loop rs a s)
      else fetchstr_loop rs a s)"

definition fetchstr :: "u64 \<Rightarrow> 'a ps_scheme \<Rightarrow> nat option outcome" where
  "fetchstr a s = obind (my_regions s) (\<lambda>rs. fetchstr_loop rs a s)"

definition fetcharg :: "nat \<Rightarrow> 'a ps_scheme \<Rightarrow> u64 outcome" where
  "fetcharg n s = obind (myproc s) (\<lambda>i. let t = tf (ptable s ! i)
     in if n = 0 then Ret (rdi t) else if n = 1 then Ret (rsi t) else if n = 2 then Ret (rdx t)
        else if n = 3 then Ret (rcx t) else if n = 4 then Ret (r8 t) else if n = 5 then Ret (r9 t)
        else Fail (Panic ''more than 6 arguments for a syscall''))"

definition argint :: "nat \<Rightarrow> 'a ps_scheme \<Rightarrow> int outcome" where
  "argint n s = omap (\<lambda>w. sint (ucast w :: u32)) (fetcharg n s)"

definition argint64 :: "nat \<Rightarrow> 'a ps_scheme \<Rightarrow> u64 outcome" where
  "argint64 n s = fetcharg n s"

definition argptr :: "nat \<Rightarrow> int \<Rightarrow> 'a ps_scheme \<Rightarrow> u64 option outcome" where
  "argptr n sz s =
     obind (argint64 n s) (\<lambda>a.
       if sz < 0 then Ret None
       else obind (my_regions s) (\<lambda>rs. Ret (if in_regions a sz rs then Some a else None)))"

text \<open>The string argument: its address and length.\<close>

definition argstr :: "nat \<Rightarrow> 'a ps_scheme \<Rightarrow> (u64 \<times> nat) option outcome" where
  "argstr n s = obind (argint64 n s) (\<lambda>a. omap (map_option (Pair a)) (fetchstr a s))"

definition argfd :: "nat \<Rightarrow> 'a fl_scheme \<Rightarrow> nat option outcome" where
  "argfd n s = (case curproc s of
     None \<Rightarrow> Ret None
   | Some i \<Rightarrow>
       obind (argint n s) (\<lambda>fd.
         if fd < 0 \<or> int NOFILE \<le> fd then Ret None
         else case fds (ptable s ! i) ! nat fd of
           None \<Rightarrow> Ret None
         | Some f \<Rightarrow> Ret (if ref_count (global_files s ! f) = 0 then None else Some (nat fd))))"

definition pipevalidfd :: "int \<Rightarrow> 'a fl_scheme \<Rightarrow> int outcome" where
  "pipevalidfd fd s = (case curproc s of
     None \<Rightarrow> Ret (- 1)
   | Some i \<Rightarrow>
       if fd < 0 \<or> int NOFILE \<le> fd then Ret (- 1)
       else obind (fd_file i (nat fd) s) (\<lambda>f. Ret (if ref_count (global_files s ! f) \<noteq> 0 then - 1 else 0)))"

section \<open>File system calls\<close>

definition sys_err :: "'s \<Rightarrow> 's sysres outcome" where
  "sys_err s = Ret (SysRet (- 1) s)"

definition sys_val :: "(int \<times> 's) outcome \<Rightarrow> 's sysres outcome" where
  "sys_val m = omap (\<lambda>(r, s). SysRet r s) m"

definition sys_dup :: "'a con_scheme \<Rightarrow> 'a con_scheme sysres outcome" where
  "sys_dup s = obind (argfd 0 s) (\<lambda>fd. case fd of None \<Rightarrow> sys_err s | Some fd \<Rightarrow> sys_val (file_dup fd s))"

definition sys_read :: "'a con_scheme \<Rightarrow> 'a con_scheme sysres outcome" where
  "sys_read s =
     obind (argfd 0 s) (\<lambda>fd. case fd of None \<Rightarrow> sys_err s | Some fd \<Rightarrow>
       obind (argstr 1 s) (\<lambda>b. case b of None \<Rightarrow> sys_err s | Some (buf, _) \<Rightarrow>
         obind (argint 2 s) (\<lambda>n.
           obind (file_read console_devs fd n s) (\<lambda>p. case p of
             Asleep s1 \<Rightarrow> Ret (SysSleep s1)
           | Done (r, bs, s1) \<Rightarrow> obind (uwrites buf bs s1) (\<lambda>s2. Ret (SysRet r s2))))))"

definition sys_write :: "'a con_scheme \<Rightarrow> 'a con_scheme sysres outcome" where
  "sys_write s =
     obind (argfd 0 s) (\<lambda>fd. case fd of None \<Rightarrow> sys_err s | Some fd \<Rightarrow>
       obind (argstr 1 s) (\<lambda>b. case b of None \<Rightarrow> sys_err s | Some (buf, _) \<Rightarrow>
         obind (argint 2 s) (\<lambda>n.
           omap (of_progress snd) (file_write console_devs fd (ureadable (nat n) buf s) n s))))"

definition sys_close :: "'a con_scheme \<Rightarrow> 'a con_scheme sysres outcome" where
  "sys_close s = obind (argfd 0 s) (\<lambda>fd. case fd of None \<Rightarrow> sys_err s | Some fd \<Rightarrow> sys_val (file_close fd s))"

definition sizeof_stat :: int where "sizeof_stat = 16"

text \<open>The fields of \<open>struct stat\<close> are stored one by one; the two bytes of padding stay.\<close>

definition put_stat :: "u64 \<Rightarrow> stat \<Rightarrow> 'a ps_scheme \<Rightarrow> 'a ps_scheme outcome" where
  "put_stat a st s =
     obind (uwrites (a + 4) (enc32 (st_dev st) @ enc32 (st_ino st)) s) (\<lambda>s1.
       obind (uwrites a (enc16 (word_of_int (st_type st))) s1) (uwrites (a + 12) (enc32 (st_size st))))"

definition sys_fstat :: "'a con_scheme \<Rightarrow> 'a con_scheme sysres outcome" where
  "sys_fstat s =
     obind (argfd 0 s) (\<lambda>fd. case fd of None \<Rightarrow> sys_err s | Some fd \<Rightarrow>
       obind (argptr 1 sizeof_stat s) (\<lambda>p. case p of None \<Rightarrow> sys_err s | Some a \<Rightarrow>
         obind (file_stat console_devs fd s) (\<lambda>(r, st, s1). case st of
           None \<Rightarrow> Ret (SysRet r s1)
         | Some st \<Rightarrow> obind (put_stat a st s1) (\<lambda>s2. Ret (SysRet r s2)))))"

definition sys_open :: "'a con_scheme \<Rightarrow> 'a con_scheme sysres outcome" where
  "sys_open s =
     obind (argstr 0 s) (\<lambda>p. case p of None \<Rightarrow> sys_err s | Some (a, n) \<Rightarrow>
       obind (argint 1 s) (\<lambda>mode. obind (ureads n a s) (\<lambda>path. sys_val (file_open console_devs path mode s))))"

text \<open>
  The loop of \<open>sys_exec\<close> over the argument pointers.  Each pointer is read before it is checked;
  \<open>fetchstr\<close> stores the address back into the array.  A round needs eight more bytes of the regions, which
  bounds the rounds.
\<close>

primrec exec_argv :: "nat \<Rightarrow> u64 \<Rightarrow> 'a ps_scheme \<Rightarrow> (u8 list list option \<times> 'a ps_scheme) outcome" where
  "exec_argv 0 argv s = Fail Spin"
| "exec_argv (Suc k) argv s =
     obind (ureads 8 argv s) (\<lambda>bs.
       let p = le64 bs 0
       in if p = 0 then Ret (Some [], s)
          else obind (fetchint64 argv s) (\<lambda>x. case x of None \<Rightarrow> Ret (None, s) | Some _ \<Rightarrow>
            obind (my_regions s) (\<lambda>rs.
              obind (if in_regions p 0 rs then uwrites argv (enc64 p) s else Ret s) (\<lambda>s1.
                obind (fetchstr p s1) (\<lambda>n. case n of None \<Rightarrow> Ret (None, s1) | Some n \<Rightarrow>
                  obind (ureads n p s1) (\<lambda>a.
                    obind (exec_argv k (argv + 8) s1) (\<lambda>(r, s2). Ret (map_option ((#) a) r, s2))))))))"

definition sys_exec :: "'a con_scheme \<Rightarrow> 'a con_scheme sysres outcome" where
  "sys_exec s =
     obind (argstr 0 s) (\<lambda>p. case p of None \<Rightarrow> sys_err s | Some (a, n) \<Rightarrow>
       obind (argptr 1 8 s) (\<lambda>v. case v of None \<Rightarrow> sys_err s | Some argv \<Rightarrow>
         obind (my_regions s) (\<lambda>rs.
           obind (exec_argv (sum_list (map (unat \<circ> vsize) rs) div 8 + 2) argv s) (\<lambda>(r, s1). case r of
             None \<Rightarrow> sys_err s1
           | Some args \<Rightarrow> obind (ureads n a s1) (\<lambda>path. sys_val (exec console_devs path args s1))))))"

definition sys_pipe :: "file_info \<Rightarrow> 'a con_scheme \<Rightarrow> 'a con_scheme sysres outcome" where
  "sys_pipe junk s =
     obind (argptr 0 8 s) (\<lambda>p. case p of None \<Rightarrow> sys_err s | Some a \<Rightarrow>
       obind (pipe_open junk s) (\<lambda>(r, ends, s1). case ends of
         None \<Rightarrow> Ret (SysRet r s1)
       | Some (rd, wr) \<Rightarrow> obind (uwrites a (enc32 (of_nat rd) @ enc32 (of_nat wr)) s1) (\<lambda>s2. Ret (SysRet r s2))))"

definition sys_unlink :: "'a con_scheme \<Rightarrow> 'a con_scheme sysres outcome" where
  "sys_unlink s = sys_err s"

section \<open>Process system calls\<close>

definition sys_fork :: "'a con_scheme \<Rightarrow> 'a con_scheme sysres outcome" where
  "sys_fork s = sys_val (fork s)"

definition sys_exit :: "'a con_scheme \<Rightarrow> 'a con_scheme sysres outcome" where
  "sys_exit s = omap SysGone (exit s)"

definition sys_wait :: "'a con_scheme \<Rightarrow> 'a con_scheme sysres outcome" where
  "sys_wait s = omap (of_progress id) (wait s)"

definition sys_kill :: "'a con_scheme \<Rightarrow> 'a con_scheme sysres outcome" where
  "sys_kill s = obind (argint 0 s) (\<lambda>pd. sys_val (kill pd s))"

definition sys_getpid :: "'a con_scheme \<Rightarrow> 'a con_scheme sysres outcome" where
  "sys_getpid s = obind (mypid s) (\<lambda>me. Ret (SysRet me s))"

definition sys_sbrk :: "'a con_scheme \<Rightarrow> 'a con_scheme sysres outcome" where
  "sys_sbrk s = obind (argint 0 s) (\<lambda>n. sys_val (sbrk n s))"

text \<open>The difference of the ticks is unsigned, so \<open>n\<close> is compared as an unsigned number.\<close>

definition sys_sleep_loop :: "u32 \<Rightarrow> int \<Rightarrow> 'a ps_scheme \<Rightarrow> 'a ps_scheme sysres outcome" where
  "sys_sleep_loop ticks0 n s =
     (if ticks s - ticks0 < word_of_int n then
        obind (myproc s) (\<lambda>i.
          if killed (ptable s ! i) then obind (release TicksLock s) sys_err
          else omap SysSleep (sleep_switch TicksChan TicksLock s))
      else obind (release TicksLock s) (\<lambda>s1. Ret (SysRet 0 s1)))"

definition sys_sleep_resume :: "bool \<Rightarrow> u32 \<Rightarrow> int \<Rightarrow> 'a ps_scheme \<Rightarrow> 'a ps_scheme sysres outcome" where
  "sys_sleep_resume ie ticks0 n s = obind (sleep_resume ie TicksLock s) (sys_sleep_loop ticks0 n)"

definition sys_sleep :: "'a con_scheme \<Rightarrow> 'a con_scheme sysres outcome" where
  "sys_sleep s = obind (argint 0 s) (\<lambda>n. obind (acquire TicksLock s) (\<lambda>s1. sys_sleep_loop (ticks s1) n s1))"

definition sys_uptime :: "'a con_scheme \<Rightarrow> 'a con_scheme sysres outcome" where
  "sys_uptime s = sys_val (with_lock TicksLock (\<lambda>s. Ret (sint (ticks s), s)) s)"

definition sizeof_sys_info :: int where "sizeof_sys_info = 20"

definition sys_sysinfo :: "'a con_scheme \<Rightarrow> 'a con_scheme sysres outcome" where
  "sys_sysinfo s =
     obind (argptr 0 sizeof_sys_info s) (\<lambda>p. case p of None \<Rightarrow> sys_err s | Some a \<Rightarrow>
       obind (uwrites a (enc32 (word_of_int (pages_in_use s))) s) (\<lambda>s1.
         obind (uwrites (a + 4) (enc32 (word_of_int (pages_in_swap s1))) s1) (\<lambda>s2.
           obind (uwrites (a + 8) (enc32 (word_of_int (free_pages s2))) s2) (\<lambda>s3.
             obind (uwrites (a + 12) (enc32 (word_of_int (num_page_faults s3))) s3) (\<lambda>s4.
               obind (uwrites (a + 16) (enc32 (word_of_int (num_disk_reads s4))) s4) (\<lambda>s5. Ret (SysRet 0 s5)))))))"

definition sys_crashn :: "'a con_scheme \<Rightarrow> 'a con_scheme sysres outcome" where
  "sys_crashn s = obind (argint 0 s) (\<lambda>n. Ret (SysRet 0 (enable_crashn n s)))"

section \<open>Dispatch\<close>

definition syscalls :: "file_info \<Rightarrow> (int \<times> ('a con_scheme \<Rightarrow> 'a con_scheme sysres outcome)) list" where
  "syscalls junk =
     [(1, sys_fork), (2, sys_exit), (3, sys_wait), (4, sys_pipe junk), (5, sys_read), (6, sys_kill), (7, sys_exec),
      (8, sys_fstat), (10, sys_dup), (11, sys_getpid), (12, sys_sbrk), (13, sys_sleep), (14, sys_uptime), (15, sys_open),
      (16, sys_write), (21, sys_close), (22, sys_sysinfo), (23, sys_crashn), (18, sys_unlink)]"

definition set_rax :: "nat \<Rightarrow> int \<Rightarrow> 'a ps_scheme \<Rightarrow> 'a ps_scheme" where
  "set_rax i r s = proc_upd i (\<lambda>p. p\<lparr>tf := (tf p)\<lparr>rax := word_of_int r\<rparr>\<rparr>) s"

definition syscall :: "file_info \<Rightarrow> 'a con_scheme \<Rightarrow> 'a con_scheme sysres outcome" where
  "syscall junk s =
     obind (myproc s) (\<lambda>i.
       case map_of (syscalls junk) (sint (ucast (rax (tf (ptable s ! i))) :: u32)) of
         None \<Rightarrow> Ret (SysRet (- 1) (set_rax i (- 1) s))
       | Some f \<Rightarrow> obind (f s) (\<lambda>r. case r of SysRet v s1 \<Rightarrow> Ret (SysRet v (set_rax i v s1)) | x \<Rightarrow> Ret x))"

section \<open>Checking pointers\<close>

text \<open>The addresses of a buffer of \<open>sz\<close> bytes lie in a region, as numbers.\<close>

definition inside :: "vregion \<Rightarrow> u64 \<Rightarrow> int \<Rightarrow> bool" where
  "inside r a sz \<longleftrightarrow> unat (VRBOT r) \<le> unat a \<and> int (unat a) + sz \<le> int (unat (VRTOP r))"

lemma vregioncontains_inside:
  assumes "0 \<le> sz" "int (unat a) + sz < 2 ^ 64" "vregioncontains r a sz \<noteq> 0"
  shows "inside r a sz"
proof -
  have "sz < 2 ^ 64" using assms(2) by linarith
  then have s: "unat (word_of_int sz :: u64) = nat sz" using assms(1) by (simp add: unat_eq_nat_uint uint_word_of_int)
  have "int (unat a + nat sz) < int (2 ^ 64)"
    using assms(1,2) by (simp only: of_nat_add nat_0_le of_nat_power of_nat_numeral)
  then have "unat a + nat sz < 2 ^ 64" by (simp only: of_nat_less_iff)
  then have "unat (a + word_of_int sz) = unat a + nat sz" using s by (simp add: unat_word_ariths)
  moreover have "VRBOT r \<le> a" "a + word_of_int sz \<le> VRTOP r" using assms(3) by (auto simp: vregioncontains_def split: if_splits)
  ultimately have "unat (VRBOT r) \<le> unat a" "unat a + nat sz \<le> unat (VRTOP r)" by (simp_all add: word_le_nat_alt)
  then show ?thesis using assms(1) unfolding inside_def by linarith
qed

text \<open>
  C23. A pointer argument that passes the check lies, with all of its bytes, in one of the regions of the process, provided
  that the buffer does not reach across the end of the address space.
\<close>

theorem argptr_inside:
  assumes "argptr n sz s = Ret (Some a)" "curproc s = Some i" "int (unat a) + sz < 2 ^ 64"
  shows "argint64 n s = Ret a \<and> 0 \<le> sz \<and> (\<exists>r\<in>set (take NREGIONS (regions (vspace (ptable s ! i)))). inside r a sz)"
proof -
  have "argint64 n s = Ret a" "0 \<le> sz" "in_regions a sz (take NREGIONS (regions (vspace (ptable s ! i))))"
    using assms(1,2) by (auto simp: argptr_def my_regions_def myproc_def split: if_splits)
  then show ?thesis using vregioncontains_inside [OF _ assms(3)] by (auto simp: in_regions_def)
qed

text \<open>
  C24. The condition is needed: the check adds the size to the address without regard to overflow, so that an address
  in the last eight bytes of the kernel half passes as a pointer to eight bytes of user memory in every process that has a region
  below the middle of the address space.
\<close>

theorem argptr_wraps:
  assumes "argint64 n s = Ret (- 8)" "curproc s = Some i"
    "r \<in> set (take NREGIONS (regions (vspace (ptable s ! i))))" "VRBOT r < 2 ^ 63"
  shows "argptr n 8 s = Ret (Some (- 8))"
proof -
  have "VRBOT r \<le> - 8" using assms(4) by (simp add: word_le_nat_alt word_less_nat_alt)
  then have "vregioncontains r (- 8) 8 \<noteq> 0" by (simp add: vregioncontains_def)
  then show ?thesis using assms(1-3) by (auto simp: argptr_def my_regions_def myproc_def in_regions_def)
qed

definition demo_arg :: "u64 \<Rightarrow> ps" where
  "demo_arg a = proc_upd 0 (\<lambda>p. p\<lparr>vspace := \<lparr>regions = [zero_region\<lparr>vsize := 4096\<rparr>], pgtbl = kva 3\<rparr>, tf := zero_tf\<lparr>rdi := a\<rparr>\<rparr>) demo_run"

lemma demo_arg_ok:
  "argint64 0 (demo_arg a) = Ret a" "curproc (demo_arg a) = Some 0"
  "take NREGIONS (regions (vspace (ptable (demo_arg a) ! 0))) = [zero_region\<lparr>vsize := 4096\<rparr>]"
  by (simp_all add: demo_arg_def demo_run_def proc_upd_def demo_ps_fields argint64_def fetcharg_def myproc_def Let_def NREGIONS_def)

theorem argptr_inside_witness:
  "argptr 0 8 (demo_arg 16) = Ret (Some 16) \<and> (\<exists>r\<in>set (take NREGIONS (regions (vspace (ptable (demo_arg 16) ! 0)))). inside r 16 8)"
proof -
  have a: "argptr 0 8 (demo_arg 16) = Ret (Some 16)"
    using demo_arg_ok [of 16]
    by (simp add: argptr_def my_regions_def myproc_def in_regions_def vregioncontains_def VRBOT_def VRTOP_def zero_region_def)
  then show ?thesis using argptr_inside [OF a demo_arg_ok(2)] by simp
qed

theorem argptr_wraps_witness: "argptr 0 8 (demo_arg (- 8)) = Ret (Some (- 8))"
  using argptr_wraps [of 0 "demo_arg (- 8)" 0 "zero_region\<lparr>vsize := 4096\<rparr>"] demo_arg_ok [of "- 8"]
  by (simp add: VRBOT_def zero_region_def)

end
