(* ===== verification/Boot.thy ===== *)
theory Boot
  imports Io
begin

text \<open>
  Start-up: the boot loader \<open>kernel/bootmain.c\<close>, the memory map of \<open>kernel/e820.c\<close> and the
  processor tables of \<open>kernel/mp.c\<close>.  They read structures that other software left in
  physical memory, byte by byte; \<open>phys8\<close> and its relatives are those reads.

  The boot loader runs in 32-bit mode on flat memory, before there is a kernel state, and has a
  memory of its own (\<open>bmem\<close>); its disk is the parameter \<open>disk\<close>, a function from sector
  numbers to contents, and is taken to be ready when \<open>waitdisk\<close> asks.
\<close>

section \<open>Reading physical memory\<close>

definition phys8 :: "nat \<Rightarrow> 'a km_scheme \<Rightarrow> u8" where
  "phys8 a s = mem s (a div 4096) (a mod 4096)"

definition phys16 :: "nat \<Rightarrow> 'a km_scheme \<Rightarrow> u16" where
  "phys16 a s = ucast (phys8 a s) OR push_bit 8 (ucast (phys8 (a + 1) s))"

definition phys32 :: "nat \<Rightarrow> 'a km_scheme \<Rightarrow> u32" where
  "phys32 a s = ucast (phys16 a s) OR push_bit 16 (ucast (phys16 (a + 2) s))"

definition phys64 :: "nat \<Rightarrow> 'a km_scheme \<Rightarrow> u64" where
  "phys64 a s = ucast (phys32 a s) OR push_bit 32 (ucast (phys32 (a + 4) s))"

section \<open>e820.c\<close>

definition E820_NR_MAX :: nat where "E820_NR_MAX = 64"

text \<open>The copy loop of \<open>e820_init\<close>; the assertion on \<open>i\<close> bounds it.\<close>

function e820_loop :: "nat \<Rightarrow> u64 \<Rightarrow> u64 \<Rightarrow> e820_entry list \<Rightarrow> 'a km_scheme \<Rightarrow> e820_entry list outcome" where
  "e820_loop i addr addr_end acc s =
     (if \<not> addr < addr_end then Ret acc
      else if \<not> 24 \<le> addr_end - addr then Fail (Panic ''addr_end - addr >= sizeof(*e)'')
      else if \<not> i < E820_NR_MAX then Fail (Panic ''i < E820_NR_MAX'')
      else
        let a = unat addr;
            e = \<lparr>e_addr = phys64 (a + 4) s, e_len = phys64 (a + 12) s, e_type = phys32 (a + 20) s\<rparr>
        in e820_loop (Suc i) (addr + ucast (phys32 a s + 4)) addr_end (acc @ [e]) s)"
  by pat_completeness auto
termination by (relation "measure (\<lambda>(i, addr, addr_end, acc, s). E820_NR_MAX - i)") auto

definition e820_init :: "u64 \<Rightarrow> 'a io_scheme \<Rightarrow> 'a io_scheme outcome" where
  "e820_init mbi_pa s =
     (let mbi = unat mbi_pa;
          len = phys32 (mbi + 44) s;
          addr = phys32 (mbi + 48) s
      in assertm (phys32 mbi s AND 0x40 \<noteq> 0) ''mbi->flags & MULTIBOOT_INFO_MEM_MAP''
           (obind (e820_loop 0 (ucast addr) (ucast (addr + len)) [] s) (\<lambda>es.
              Ret (s\<lparr>mmap_addr := addr, mmap_length := len, e820_map := es\<rparr>))))"

section \<open>mp.c\<close>

definition NCPU :: nat where "NCPU = 8"
definition sizeof_mp :: nat where "sizeof_mp = 16"
definition sizeof_mpconf :: nat where "sizeof_mpconf = 44"
definition sizeof_mpproc :: nat where "sizeof_mpproc = 20"
definition sizeof_mpioapic :: nat where "sizeof_mpioapic = 8"

definition sum_bytes :: "nat \<Rightarrow> nat \<Rightarrow> 'a km_scheme \<Rightarrow> u8" where
  "sum_bytes addr len s = sum_list (map (\<lambda>i. phys8 (addr + i) s) [0..<len])"

definition sig_at :: "nat \<Rightarrow> u8 list \<Rightarrow> 'a km_scheme \<Rightarrow> bool" where
  "sig_at a bs s \<longleftrightarrow> map (\<lambda>i. phys8 (a + i) s) [0..<length bs] = bs"

definition mpsearch1 :: "nat \<Rightarrow> nat \<Rightarrow> 'a km_scheme \<Rightarrow> nat option" where
  "mpsearch1 a len s =
     find (\<lambda>p. sig_at p [0x5f, 0x4d, 0x50, 0x5f] s \<and> sum_bytes p sizeof_mp s = 0)
       (map (\<lambda>i. a + sizeof_mp * i) [0..<(len + 15) div sizeof_mp])"

definition mpsearch :: "'a km_scheme \<Rightarrow> nat option" where
  "mpsearch s =
     (let p = push_bit 4 (push_bit 8 (ucast (phys8 0x40F s)) OR ucast (phys8 0x40E s)) :: u32
      in if p \<noteq> 0
         then case mpsearch1 (unat p) 1024 s of Some mp \<Rightarrow> Some mp | None \<Rightarrow> mpsearch1 0xF0000 0x10000 s
         else
           let q = (push_bit 8 (ucast (phys8 0x414 s)) OR ucast (phys8 0x413 s)) * 1024 :: u32
           in case mpsearch1 (unat (q - 1024)) 1024 s of Some mp \<Rightarrow> Some mp | None \<Rightarrow> mpsearch1 0xF0000 0x10000 s)"

definition mpconfig :: "'a km_scheme \<Rightarrow> (nat \<times> nat) option" where
  "mpconfig s =
     (case mpsearch s of
        None \<Rightarrow> None
      | Some mp \<Rightarrow>
          let conf = unat (phys32 (mp + 4) s)
          in if conf = 0 then None
             else if \<not> sig_at conf [0x50, 0x43, 0x4d, 0x50] s then None
             else if phys8 (conf + 6) s \<noteq> 1 \<and> phys8 (conf + 6) s \<noteq> 4 then None
             else if sum_bytes conf (unat (phys16 (conf + 4) s)) s \<noteq> 0 then None
             else Some (mp, conf))"

text \<open>
  The loop over the table entries.  The \<open>break\<close> of the default case leaves the
  \<open>switch\<close> but not the loop, and does not move \<open>p\<close>: an unknown entry is examined for ever.
\<close>

function mp_entries :: "nat \<Rightarrow> nat \<Rightarrow> 'a io_scheme \<Rightarrow> 'a io_scheme outcome" where
  "mp_entries p e s =
     (if \<not> p < e then Ret s
      else
        let ty = phys8 p s
        in if ty = 0 then
             mp_entries (p + sizeof_mpproc) e
               (if ncpu s < NCPU then s\<lparr>apicids := (apicids s)[ncpu s := phys8 (p + 1) s], ncpu := ncpu s + 1\<rparr> else s)
           else if ty = 2 then mp_entries (p + sizeof_mpioapic) e (s\<lparr>ioapicid := phys8 (p + 1) s\<rparr>)
           else if ty = 1 \<or> ty = 3 \<or> ty = 4 then mp_entries (p + 8) e s
           else Fail Spin)"
  by pat_completeness auto
termination
  by (relation "measure (\<lambda>(p, e, s). e - p)") (auto simp: sizeof_mpproc_def sizeof_mpioapic_def)

text \<open>\<open>IO2V\<close> maps device addresses to the top of the address space.\<close>

definition IO2V :: "u64 \<Rightarrow> u64" where "IO2V a = a + 0xFFFFFFFF00000000"

definition mpinit :: "'a io_scheme \<Rightarrow> 'a io_scheme outcome" where
  "mpinit s =
     (case mpconfig s of
        None \<Rightarrow> Ret s
      | Some (mp, conf) \<Rightarrow>
          obind (mp_entries (conf + sizeof_mpconf) (conf + unat (phys16 (conf + 4) s))
                   (s\<lparr>ismp := True, lapic := IO2V (ucast (phys32 (conf + 36) s))\<rparr>)) (\<lambda>s1.
            if \<not> ismp s1 then Ret (s1\<lparr>ncpu := 1, lapic := 0, ioapicid := 0\<rparr>)
            else if phys8 (mp + 12) s \<noteq> 0
            then Ret (outbs [(0x22, 0x70), (0x23, inb 0x23 s1 OR 1)] s1)
            else Ret s1))"

section \<open>bootmain.c\<close>

type_synonym bmem = "u32 \<Rightarrow> u8"

definition SECTSIZE :: nat where "SECTSIZE = 512"

definition readsect :: "(nat \<Rightarrow> u8 list) \<Rightarrow> u32 \<Rightarrow> u32 \<Rightarrow> bmem \<Rightarrow> bmem" where
  "readsect disk dst offset m =
     (\<lambda>a. let k = unat (a - dst) in if k < SECTSIZE then disk (unat (take_bit 28 offset)) ! k else m a)"

text \<open>
  \<open>readseg\<close>; the loop is bounded by the number of sectors up to the end, and does not end when
  the end address is closer than a sector to the top of memory.
\<close>

primrec readseg_loop :: "nat \<Rightarrow> (nat \<Rightarrow> u8 list) \<Rightarrow> u32 \<Rightarrow> u32 \<Rightarrow> u32 \<Rightarrow> bmem \<Rightarrow> bmem outcome" where
  "readseg_loop 0 disk pa epa offset m = Fail Spin"
| "readseg_loop (Suc n) disk pa epa offset m =
     (if pa < epa then readseg_loop n disk (pa + 512) epa (offset + 1) (readsect disk pa offset m) else Ret m)"

definition readseg :: "(nat \<Rightarrow> u8 list) \<Rightarrow> u32 \<Rightarrow> u32 \<Rightarrow> u32 \<Rightarrow> bmem \<Rightarrow> bmem outcome" where
  "readseg disk pa count offset m =
     (let epa = pa + count;
          pa1 = pa - offset mod 512
      in readseg_loop (unat (epa - pa1) div 512 + 2) disk pa1 epa (offset div 512 + 1) m)"

definition bword :: "bmem \<Rightarrow> u32 \<Rightarrow> u32" where
  "bword m a = ucast (m a) OR push_bit 8 (ucast (m (a + 1))) OR push_bit 16 (ucast (m (a + 2))) OR push_bit 24 (ucast (m (a + 3)))"

definition bword_set :: "u32 \<Rightarrow> u32 \<Rightarrow> bmem \<Rightarrow> bmem" where
  "bword_set a v m = (\<lambda>b. let k = unat (b - a) in if k < 4 then ucast (drop_bit (8 * k) v) else m b)"

text \<open>
  The result is the memory and the registers handed to the kernel: \<open>eax\<close>, \<open>ebx\<close> and the
  entry address; \<open>None\<close> is the failure return when no multiboot header is found.
\<close>

definition bootmain ::
  "(nat \<Rightarrow> u8 list) \<Rightarrow> u32 \<Rightarrow> bmem \<Rightarrow> ((u32 \<times> u32 \<times> u32) option \<times> bmem) outcome" where
  "bootmain disk mbi m =
     (let elf = 0x10000 in
      obind (readseg disk elf 8192 0 m) (\<lambda>m1.
        case find (\<lambda>n. bword m1 (elf + 4 * of_nat n) = 0x1BADB002) [0..<8192 div 4] of
          None \<Rightarrow> Ret (None, m1)
        | Some n \<Rightarrow>
            let hdr = elf + 4 * of_nat n;
                header_addr = (\<lambda>m. bword m (hdr + 12)); load_addr = (\<lambda>m. bword m (hdr + 16));
                load_end = (\<lambda>m. bword m (hdr + 20)); bss_end = (\<lambda>m. bword m (hdr + 24))
            in obind (readseg disk (load_addr m1) (load_end m1 - load_addr m1)
                        (of_nat n * 4 - (header_addr m1 - load_addr m1)) m1) (\<lambda>m2.
                 let m3 = (if load_end m2 < bss_end m2
                           then (\<lambda>a. if unat (a - load_end m2) < unat (bss_end m2 - load_end m2) then 0 else m2 a)
                           else m2);
                     entry = bword m3 (hdr + 28);
                     len = mbi AND 4095;
                     m4 = bword_set (mbi + 48) (mbi - len) (bword_set (mbi + 44) len (bword_set mbi 0x40 m3))
                 in Ret (Some (0x2BADB002, mbi, entry), m4))))"

end
