(* ===== verification/Mkfs.thy ===== *)
theory Mkfs
  imports Fs
begin

text \<open>
  \<open>mkfs.c\<close>, the program that builds the file system image on the host.  The image is the list of its
  sectors.  Opening files and writing to them are taken to succeed, and \<open>read\<close> on an input file to fill
  the buffer up to the end of the file; reading a sector past the end of the image is an error, as in the program,
  and like a failed assertion it ends the run with a \<open>Panic\<close>.  Progress messages are left out.

  The lemmas show that inodes and the superblock read back as they were written, that appending to a file
  extends its contents and nothing else, and that the bitmap marks exactly the blocks in use.
\<close>

section \<open>State\<close>

record mk =
  img :: "u8 list list"
  freeinode :: u32
  freeblock :: u32

definition IPB :: nat where "IPB = BSIZE div sizeof_dinode"
definition nbitmap :: nat where "nbitmap = FSSIZE div (BSIZE * 8) + 1"
definition nmeta :: nat where "nmeta = 2 + nbitmap"
definition CONSOLE_ID :: u16 where "CONSOLE_ID = 1"

text \<open>The byte by byte constructions of little-endian values, read back on the (little-endian) host.\<close>

definition xshort :: "u16 \<Rightarrow> u16" where "xshort x = le16 (enc16 x) 0"
definition xint :: "u32 \<Rightarrow> u32" where "xint x = le32 (enc32 x) 0"

definition mk_sb :: superblock where
  "mk_sb = \<lparr>sb_size = xint (of_nat FSSIZE), nblocks = xint (of_nat (FSSIZE - nmeta)), bmapstart = xint 2,
            inodestart = xint (of_nat (2 + nbitmap))\<rparr>"

definition enc_superblock :: "superblock \<Rightarrow> u8 list" where
  "enc_superblock sbk = enc32 (sb_size sbk) @ enc32 (nblocks sbk) @ enc32 (bmapstart sbk) @ enc32 (inodestart sbk)"

definition enc_dinode :: "dinode \<Rightarrow> u8 list" where
  "enc_dinode di = enc16 (word_of_int (di_type di)) @ enc16 (word_of_int (di_devid di)) @ enc32 (di_size di) @
     enc32 (startblkno (di_data di)) @ enc32 (ext_nblocks (di_data di)) @ replicate 48 0"

definition enc_dirent :: "u16 \<Rightarrow> u8 list \<Rightarrow> u8 list" where
  "enc_dirent n nm = enc16 n @ take DIRSIZ (nm @ replicate DIRSIZ 0)"

section \<open>Sectors and inodes\<close>

text \<open>The offset passed to \<open>lseek\<close> is a 32-bit product.\<close>

definition sect :: "u32 \<Rightarrow> nat" where
  "sect sec = unat (sec * of_nat BSIZE) div BSIZE"

definition wsect :: "u32 \<Rightarrow> u8 list \<Rightarrow> mk \<Rightarrow> mk" where
  "wsect sec buf s =
     s\<lparr>img := (img s @ replicate (sect sec + 1 - length (img s)) (replicate BSIZE 0))[sect sec := buf]\<rparr>"

definition rsect :: "u32 \<Rightarrow> mk \<Rightarrow> u8 list outcome" where
  "rsect sec s = assertm (sect sec < length (img s)) ''read'' (Ret (img s ! sect sec))"

text \<open>Bytes copied into a buffer at an offset.\<close>

definition put_at :: "nat \<Rightarrow> u8 list \<Rightarrow> u8 list \<Rightarrow> u8 list" where
  "put_at off bs buf = take off buf @ bs @ drop (off + length bs) buf"

definition inode_sector :: "u32 \<Rightarrow> u32" where
  "inode_sector i = xint (inodestart mk_sb) + of_nat (unat i * sizeof_dinode div BSIZE)"

definition inode_slot :: "u32 \<Rightarrow> nat" where
  "inode_slot i = unat i mod IPB * sizeof_dinode"

definition winode :: "u32 \<Rightarrow> dinode \<Rightarrow> mk \<Rightarrow> mk outcome" where
  "winode i di s = obind (rsect (inode_sector i) s) (\<lambda>buf.
     Ret (wsect (inode_sector i) (put_at (inode_slot i) (enc_dinode di) buf) s))"

definition rinode :: "u32 \<Rightarrow> mk \<Rightarrow> dinode outcome" where
  "rinode i s = obind (rsect (inode_sector i) s) (\<lambda>buf.
     Ret (dec_dinode (take sizeof_dinode (drop (inode_slot i) buf))))"

definition zero_dinode :: dinode where
  "zero_dinode = \<lparr>di_type = 0, di_devid = 0, di_size = 0, di_data = \<lparr>startblkno = 0, ext_nblocks = 0\<rparr>\<rparr>"

definition ialloc :: "u16 \<Rightarrow> mk \<Rightarrow> (u32 \<times> mk) outcome" where
  "ialloc ty s =
     (let i = freeinode s
      in obind (winode i (zero_dinode\<lparr>di_type := sint (xshort ty), di_size := xint 0\<rparr>) (s\<lparr>freeinode := i + 1\<rparr>))
           (\<lambda>s1. Ret (i, s1)))"

definition iallocblocks :: "u32 \<Rightarrow> u32 \<Rightarrow> u32 \<Rightarrow> mk \<Rightarrow> mk outcome" where
  "iallocblocks i start numblks s = obind (rinode i s) (\<lambda>din.
     winode i (din\<lparr>di_data := \<lparr>startblkno = xint start, ext_nblocks = xint numblks\<rparr>\<rparr>) s)"

lemma sector_room:
  fixes off :: u32
  shows "unat ((off div of_nat BSIZE + 1) * of_nat BSIZE - off) = BSIZE - unat off mod BSIZE"
proof -
  have "(off div of_nat BSIZE + 1) * of_nat BSIZE - off = of_nat BSIZE - off mod of_nat BSIZE"
    using mod_div_mult_eq [of off "of_nat BSIZE :: u32"] by (simp add: algebra_simps)
  moreover have "off mod of_nat BSIZE \<le> (of_nat BSIZE :: u32)"
    by (simp add: word_le_nat_alt unat_mod BSIZE_def)
  ultimately show ?thesis by (simp only: unat_sub unat_mod) (simp add: BSIZE_def)
qed

text \<open>The loop of \<open>iappend\<close>: the data left, the offset, the image.\<close>

function iappend_loop :: "u32 \<Rightarrow> u8 list \<Rightarrow> u32 \<Rightarrow> mk \<Rightarrow> (u32 \<times> mk) outcome" where
  "iappend_loop start p off s =
     (if p = [] then Ret (off, s)
      else
        let fbn = off div of_nat BSIZE;
            n1 = min (length p) (unat ((fbn + 1) * of_nat BSIZE - off))
        in obind (rsect (start + fbn) s) (\<lambda>buf.
             iappend_loop start (drop n1 p) (off + of_nat n1)
               (wsect (start + fbn) (put_at (unat (off - fbn * of_nat BSIZE)) (take n1 p) buf) s)))"
  by pat_completeness auto
termination
  by (relation "measure (\<lambda>(start, p, off, s). length p)") (simp_all only: sector_room, auto simp: BSIZE_def)

declare iappend_loop.simps [simp del]

definition iappend :: "u32 \<Rightarrow> u8 list \<Rightarrow> mk \<Rightarrow> mk outcome" where
  "iappend i p s = obind (rinode i s) (\<lambda>din.
     obind (iappend_loop (xint (startblkno (di_data din))) p (xint (di_size din)) s) (\<lambda>(off, s1).
       winode i (din\<lparr>di_size := xint off\<rparr>) s1))"

text \<open>The bitmap blocks for the first \<open>remaining\<close> blocks.\<close>

definition bitmap_block :: "nat \<Rightarrow> u8 list" where
  "bitmap_block n = fold (\<lambda>i buf. buf[i div 8 := buf ! (i div 8) OR push_bit (i mod 8) 1])
     [0..<min n (BSIZE * 8)] (replicate BSIZE 0)"

function mk_balloc_loop :: "nat \<Rightarrow> u32 \<Rightarrow> mk \<Rightarrow> mk" where
  "mk_balloc_loop remaining nbuf s =
     (if remaining = 0 then s
      else mk_balloc_loop (remaining - BSIZE * 8) (nbuf + 1) (wsect (bmapstart mk_sb + nbuf) (bitmap_block remaining) s))"
  by pat_completeness auto
termination by (relation "measure fst") (auto simp: BSIZE_def)

declare mk_balloc_loop.simps [simp del]

definition mk_balloc :: "int \<Rightarrow> mk \<Rightarrow> mk" where
  "mk_balloc n s = mk_balloc_loop (nat n) 0 s"

section \<open>main\<close>

definition mk_format :: "mk \<Rightarrow> mk" where
  "mk_format s =
     wsect 1 (put_at 0 (enc_superblock mk_sb) (replicate BSIZE 0))
       (fold (\<lambda>i. wsect (of_nat i) (replicate BSIZE 0)) [0..<FSSIZE] (s\<lparr>freeblock := of_nat nmeta\<rparr>))"

definition inodetableblkn :: "nat \<Rightarrow> nat" where
  "inodetableblkn argc = (let inum_count = argc + 1
     in inum_count div IPB + (if inum_count div IPB = 0 \<or> inum_count * sizeof_dinode mod BSIZE \<noteq> 0 then 1 else 0))"

definition mk_inodetable :: "nat \<Rightarrow> mk \<Rightarrow> mk outcome" where
  "mk_inodetable argc s =
     obind (ialloc (word_of_int T_FILE) s) (\<lambda>(i, s1).
       assertm (i = INODETABLEINO) ''inodetableino == INODETABLEINO''
         (obind (rinode i s1) (\<lambda>din.
           obind (winode i (din\<lparr>di_data := \<lparr>startblkno = inodestart mk_sb, ext_nblocks = xint (of_nat (inodetableblkn argc))\<rparr>,
                                di_size := xint (of_nat ((argc + 1) * sizeof_dinode))\<rparr>) s1) (\<lambda>s2.
             Ret (s2\<lparr>freeblock := freeblock s2 + of_nat (inodetableblkn argc)\<rparr>)))))"

definition mk_entry :: "u32 \<Rightarrow> u8 list \<Rightarrow> mk \<Rightarrow> mk outcome" where
  "mk_entry i nm s = iappend ROOTINO (enc_dirent (xshort (ucast i)) nm) s"

definition rootdir_size :: "nat \<Rightarrow> nat" where
  "rootdir_size argc = (argc + 1) * sizeof_dirent"

definition rootdir_blocks :: "nat \<Rightarrow> nat" where
  "rootdir_blocks argc = rootdir_size argc div BSIZE + (if rootdir_size argc mod BSIZE \<noteq> 0 then 1 else 0)"

definition mk_root :: "nat \<Rightarrow> mk \<Rightarrow> mk outcome" where
  "mk_root argc s =
     obind (ialloc (word_of_int T_DIR) s) (\<lambda>(i, s1).
       assertm (i = ROOTINO) ''rootino == ROOTINO''
         (obind (iallocblocks i (freeblock s1) (of_nat (rootdir_blocks argc)) s1) (\<lambda>s2.
           obind (mk_entry i [46] (s2\<lparr>freeblock := freeblock s2 + of_nat (rootdir_blocks argc)\<rparr>)) (mk_entry i [46, 46]))))"

definition mk_console :: "mk \<Rightarrow> mk outcome" where
  "mk_console s =
     obind (ialloc (word_of_int T_DEV) s) (\<lambda>(i, s1).
       obind (rinode i s1) (\<lambda>din.
         obind (winode i (din\<lparr>di_devid := sint (xshort CONSOLE_ID)\<rparr>) s1)
           (mk_entry i [99, 111, 110, 115, 111, 108, 101])))"

text \<open>The input file is read in pieces of one sector.\<close>

function mk_contents :: "u32 \<Rightarrow> u8 list \<Rightarrow> mk \<Rightarrow> mk outcome" where
  "mk_contents i bs s =
     (if bs = [] then Ret s else obind (iappend i (take BSIZE bs) s) (mk_contents i (drop BSIZE bs)))"
  by pat_completeness auto
termination by (relation "measure (\<lambda>(i, bs, s). length bs)") (auto simp: BSIZE_def)

declare mk_contents.simps [simp del]

definition out_user :: "u8 list" where
  "out_user = [111, 117, 116, 47, 117, 115, 101, 114, 47]"

definition stored_name :: "u8 list \<Rightarrow> u8 list" where
  "stored_name path = (let nm = drop 9 path in if nm \<noteq> [] \<and> hd nm = 95 then tl nm else nm)"

definition mk_file :: "u8 list \<times> u8 list \<Rightarrow> mk \<Rightarrow> mk outcome" where
  "mk_file = (\<lambda>(path, contents) s.
     assertm (strncmp_bytes 9 path out_user = 0) ''!strncmp(name, out/user/, 9)''
       (assertm (slash \<notin> set (drop 9 path)) ''index(name, /) == 0''
              (obind (ialloc (word_of_int T_FILE) s) (\<lambda>(i, s1).
                 obind (mk_entry i (stored_name path) s1) (\<lambda>s2.
                 obind (rinode i s2) (\<lambda>d.
                 obind (winode i (d\<lparr>di_data := (di_data d)\<lparr>startblkno := xint (freeblock s2)\<rparr>\<rparr>) s2) (\<lambda>s3.
                 obind (mk_contents i contents s3) (\<lambda>s4.
                 obind (rinode i s4) (\<lambda>din.
                   let sz = xint (di_size din);
                       n = xint (sz div of_nat BSIZE + (if sz mod of_nat BSIZE = 0 then 0 else 1))
                   in winode i (din\<lparr>di_data := (di_data din)\<lparr>ext_nblocks := n\<rparr>\<rparr>)
                        (s4\<lparr>freeblock := freeblock s4 + xint n\<rparr>))))))))))"

text \<open>\<open>files\<close> are the paths and contents of the arguments after the name of the image.\<close>

definition mkfs :: "(u8 list \<times> u8 list) list \<Rightarrow> mk outcome" where
  "mkfs files =
     (let argc = length files + 2
      in obind (mk_inodetable argc (mk_format \<lparr>img = [], freeinode = 0, freeblock = 0\<rparr>)) (\<lambda>s1.
         obind (mk_root argc s1) (\<lambda>s2.
         obind (mk_console s2) (\<lambda>s3.
         obind (ofold mk_file files s3) (\<lambda>s4.
         obind (rinode ROOTINO s4) (\<lambda>din.
         obind (winode ROOTINO (din\<lparr>di_size := xint (of_nat (rootdir_size argc))\<rparr>) s4) (\<lambda>s5.
           Ret (mk_balloc (sint (freeblock s5)) s5)))))))) "

section \<open>Encodings\<close>

lemma le16_enc16 [simp]: "le16 (enc16 w) 0 = w"
  by (rule bit_word_eqI) (auto simp: le16_def enc16_def bit_simps)

lemma le32_enc32 [simp]: "le32 (enc32 w) 0 = w"
proof (rule bit_word_eqI)
  fix n assume "n < LENGTH(32)"
  then consider "n < 8" | "8 \<le> n" "n < 16" | "16 \<le> n" "n < 24" | "24 \<le> n" "n < 32" by fastforce
  then show "bit (le32 (enc32 w) 0) n = bit w n"
    by cases (auto simp: le32_def le16_def enc32_def bit_simps less_diff_conv2)
qed

lemma xshort_id [simp]: "xshort x = x"
  by (simp add: xshort_def)

lemma xint_id [simp]: "xint x = x"
  by (simp add: xint_def)

lemma length_enc [simp]: "length (enc16 w) = 2" "length (enc32 v) = 4"
  by (simp_all add: enc16_def enc32_def)

lemma le16_append:
  "k + 1 < length xs \<Longrightarrow> le16 (xs @ ys) k = le16 xs k"
  "length xs \<le> k \<Longrightarrow> le16 (xs @ ys) k = le16 ys (k - length xs)"
  by (simp_all add: le16_def nth_append Suc_diff_le)

lemma le32_append:
  "k + 3 < length xs \<Longrightarrow> le32 (xs @ ys) k = le32 xs k"
  "length xs \<le> k \<Longrightarrow> le32 (xs @ ys) k = le32 ys (k - length xs)"
  by (simp_all add: le32_def le16_def nth_append Suc_diff_le)

definition dinode_ok :: "dinode \<Rightarrow> bool" where
  "dinode_ok d \<longleftrightarrow> - (2 ^ 15) \<le> di_type d \<and> di_type d < 2 ^ 15 \<and> - (2 ^ 15) \<le> di_devid d \<and> di_devid d < 2 ^ 15"

lemma sint_short [simp]: "- (2 ^ 15) \<le> x \<Longrightarrow> x < 2 ^ 15 \<Longrightarrow> sint (word_of_int x :: u16) = x"
  by (simp add: sint_sbintrunc' signed_take_bit_int_eq_self)

lemma length_enc_dinode [simp]: "length (enc_dinode d) = sizeof_dinode"
  by (simp add: enc_dinode_def sizeof_dinode_def)

lemma dec_enc_dinode [simp]: "dinode_ok d \<Longrightarrow> dec_dinode (enc_dinode d) = d"
  by (simp add: dinode_ok_def dec_dinode_def enc_dinode_def le16_append le32_append)

lemma dec_enc_superblock [simp]: "dec_superblock (enc_superblock b @ rest) = b"
  by (simp add: dec_superblock_def enc_superblock_def le32_append)

lemma length_enc_dirent [simp]: "length (enc_dirent n nm) = sizeof_dirent"
  by (simp add: enc_dirent_def sizeof_dirent_def DIRSIZ_def)

lemma dec_enc_dirent [simp]: "dec_dirent (enc_dirent n nm) = (n, take DIRSIZ (nm @ replicate DIRSIZ 0))"
  by (simp add: dec_dirent_def enc_dirent_def le16_append DIRSIZ_def)

section \<open>The image as one sequence of bytes\<close>

definition bytes_at :: "nat \<Rightarrow> nat \<Rightarrow> 'b list \<Rightarrow> 'b list" where
  "bytes_at a n d = take n (drop a d)"

lemma length_put_at [simp]: "off + length bs \<le> length d \<Longrightarrow> length (put_at off bs d) = length d"
  by (simp add: put_at_def)

lemma bytes_at_put_at_same [simp]: "a + length bs \<le> length d \<Longrightarrow> n = length bs \<Longrightarrow> bytes_at a n (put_at a bs d) = bs"
  by (simp add: bytes_at_def put_at_def)

lemma bytes_at_put_at_before: "a + n \<le> off \<Longrightarrow> off + length bs \<le> length d \<Longrightarrow> bytes_at a n (put_at off bs d) = bytes_at a n d"
  by (simp add: bytes_at_def put_at_def drop_take min_absorb1)

lemma bytes_at_put_at_after: "off + length bs \<le> a \<Longrightarrow> off + length bs \<le> length d \<Longrightarrow> bytes_at a n (put_at off bs d) = bytes_at a n d"
  by (simp add: bytes_at_def put_at_def)

lemma take_drop_append: "take k p @ drop k p @ z = p @ z"
  by (simp flip: append_assoc)

lemma put_at_put_at:
  "k \<le> length p \<Longrightarrow> a + length p \<le> length d \<Longrightarrow> put_at (a + k) (drop k p) (put_at a (take k p) d) = put_at a p d"
  by (simp add: put_at_def take_drop_append add.commute)

lemma bytes_at_add: "bytes_at a (m + n) d = bytes_at a m d @ bytes_at (a + m) n d"
  by (simp add: bytes_at_def take_add add.commute)

lemma put_at_append_left: "off + length bs \<le> length x \<Longrightarrow> put_at off bs (x @ y) = put_at off bs x @ y"
  by (simp add: put_at_def)

lemma put_at_append_right: "put_at (length x + a) q (x @ y) = x @ put_at a q y"
  by (simp add: put_at_def)

lemma concat_put_at:
  assumes "\<forall>b\<in>set xs. length b = n" "i < length xs" "k + length q \<le> n"
  shows "concat (xs[i := put_at k q (xs ! i)]) = put_at (i * n + k) q (concat xs)"
  using assms
proof (induction xs arbitrary: i)
  case (Cons x xs)
  then show ?case
    by (cases i) (use put_at_append_right [of x] in \<open>auto simp: put_at_append_left add.assoc\<close>)
qed simp

lemma concat_bytes_at:
  assumes "\<forall>b\<in>set xs. length b = n" "i < length xs" "k + m \<le> n"
  shows "bytes_at k m (xs ! i) = bytes_at (i * n + k) m (concat xs)"
  using assms
proof (induction xs arbitrary: i)
  case (Cons x xs)
  then show ?case by (cases i) (simp_all add: bytes_at_def add.assoc)
qed simp

definition flat :: "mk \<Rightarrow> u8 list" where
  "flat s = concat (img s)"

definition mk_ok :: "mk \<Rightarrow> bool" where
  "mk_ok s \<longleftrightarrow> (\<forall>b\<in>set (img s). length b = BSIZE) \<and> length (img s) = FSSIZE"

lemma length_flat [simp]: "mk_ok s \<Longrightarrow> length (flat s) = FSSIZE * BSIZE"
proof -
  have "\<forall>b\<in>set xs. length b = BSIZE \<Longrightarrow> length (concat xs) = length xs * BSIZE" for xs :: "u8 list list"
    by (induction xs) auto
  then show "mk_ok s \<Longrightarrow> ?thesis" by (simp add: mk_ok_def flat_def)
qed

lemma sect_small [simp]: "unat sec < FSSIZE \<Longrightarrow> sect sec = unat sec"
  by (simp add: sect_def unat_word_ariths BSIZE_def FSSIZE_def)

lemma rsect_ok: "mk_ok s \<Longrightarrow> unat sec < FSSIZE \<Longrightarrow> rsect sec s = Ret (img s ! unat sec)"
  by (simp add: rsect_def mk_ok_def)

lemma wsect_put_at:
  assumes "mk_ok s" "unat sec < FSSIZE" "k + length q \<le> BSIZE"
  shows "flat (wsect sec (put_at k q (img s ! unat sec)) s) = put_at (unat sec * BSIZE + k) q (flat s)"
    and "mk_ok (wsect sec (put_at k q (img s ! unat sec)) s)"
proof -
  have l: "length (img s ! unat sec) = BSIZE" using assms by (auto simp: mk_ok_def)
  show "flat (wsect sec (put_at k q (img s ! unat sec)) s) = put_at (unat sec * BSIZE + k) q (flat s)"
    using assms by (simp add: flat_def wsect_def mk_ok_def concat_put_at)
  show "mk_ok (wsect sec (put_at k q (img s ! unat sec)) s)"
    using assms l by (auto simp: mk_ok_def wsect_def dest!: set_update_subset_insert [THEN subsetD])
qed

lemma wsect_frame [simp]:
  "freeinode (wsect sec b s) = freeinode s" "freeblock (wsect sec b s) = freeblock s"
  by (simp_all add: wsect_def)

text \<open>The address of an inode, and where an append puts its bytes.\<close>

definition iaddr :: "u32 \<Rightarrow> nat" where
  "iaddr i = unat (inodestart mk_sb) * BSIZE + unat i * sizeof_dinode"

definition inum_ok :: "u32 \<Rightarrow> bool" where
  "inum_ok i \<longleftrightarrow> iaddr i + sizeof_dinode \<le> FSSIZE * BSIZE"

lemma inodestart_mk_sb [simp]: "inodestart mk_sb = 15"
  by (simp add: mk_sb_def nbitmap_def FSSIZE_def BSIZE_def)

lemma inode_sector_nat: "inum_ok i \<Longrightarrow> unat (inode_sector i) = 15 + unat i div 8 \<and> 15 + unat i div 8 < FSSIZE"
  by (simp add: inode_sector_def inum_ok_def iaddr_def sizeof_dinode_def BSIZE_def FSSIZE_def unat_word_ariths unat_of_nat)

lemma inode_place:
  assumes "inum_ok i"
  shows "unat (inode_sector i) < FSSIZE" "inode_slot i + sizeof_dinode \<le> BSIZE"
    "unat (inode_sector i) * BSIZE + inode_slot i = iaddr i"
proof -
  note n = inode_sector_nat [OF assms]
  have d: "x div 8 * 512 + x mod 8 * 64 = x * 64" for x :: nat using div_mult_mod_eq [of x 8] by linarith
  show "unat (inode_sector i) < FSSIZE" using n by simp
  show "inode_slot i + sizeof_dinode \<le> BSIZE"
    by (simp add: inode_slot_def IPB_def sizeof_dinode_def BSIZE_def)
  show "unat (inode_sector i) * BSIZE + inode_slot i = iaddr i"
    using n d by (simp add: inode_slot_def IPB_def iaddr_def sizeof_dinode_def BSIZE_def)
qed

lemma rinode_flat:
  "mk_ok s \<Longrightarrow> inum_ok i \<Longrightarrow> rinode i s = Ret (dec_dinode (bytes_at (iaddr i) sizeof_dinode (flat s)))"
  using concat_bytes_at [of "img s" BSIZE "unat (inode_sector i)" "inode_slot i" sizeof_dinode] inode_place [of i]
  by (simp add: rinode_def rsect_ok mk_ok_def flat_def bytes_at_def)

lemma winode_flat:
  assumes "mk_ok s" "inum_ok i"
  obtains s' where "winode i d s = Ret s'" "mk_ok s'" "flat s' = put_at (iaddr i) (enc_dinode d) (flat s)"
    "freeinode s' = freeinode s" "freeblock s' = freeblock s"
  using assms inode_place [OF assms(2)]
    wsect_put_at [of s "inode_sector i" "inode_slot i" "enc_dinode d"]
  by (simp add: winode_def rsect_ok)

lemma iappend_loop_flat:
  assumes "mk_ok s" "unat start * BSIZE + unat off + length p \<le> FSSIZE * BSIZE"
  shows "\<exists>s'. iappend_loop start p off s = Ret (off + of_nat (length p), s') \<and> mk_ok s' \<and>
    flat s' = put_at (unat start * BSIZE + unat off) p (flat s) \<and> freeinode s' = freeinode s \<and> freeblock s' = freeblock s"
  using assms
proof (induction start p off s rule: iappend_loop.induct)
  case (1 start p off s)
  show ?case
  proof (cases "p = []")
    case True
    then show ?thesis using 1(2) by (simp add: iappend_loop.simps put_at_def)
  next
    case False
    define fbn where "fbn = off div of_nat BSIZE"
    define n1 where "n1 = min (length p) (unat ((fbn + 1) * of_nat BSIZE - off))"
    define k where "k = unat (off - fbn * of_nat BSIZE)"
    define a where "a = unat start * BSIZE + unat off"
    define t where "t = wsect (start + fbn) (put_at k (take n1 p) (img s ! unat (start + fbn))) s"
    have f: "unat fbn = unat off div BSIZE" by (simp add: fbn_def unat_div BSIZE_def)
    have n: "n1 = min (length p) (BSIZE - unat off mod BSIZE)" by (simp only: n1_def fbn_def sector_room)
    have k: "k = unat off mod BSIZE" by (simp add: k_def fbn_def minus_div_mult_eq_mod unat_mod BSIZE_def)
    have sum: "unat start + unat off div BSIZE < FSSIZE"
      using 1(3) False by (cases p) (simp_all add: BSIZE_def FSSIZE_def)
    then have sec: "unat (start + fbn) = unat start + unat off div BSIZE"
      by (simp add: unat_word_ariths f FSSIZE_def)
    have pos: "unat (start + fbn) * BSIZE + k = a"
      unfolding sec k a_def by (simp add: distrib_right add.assoc)
    have fit: "k + length (take n1 p) \<le> BSIZE" by (simp add: k n BSIZE_def)
    have t: "mk_ok t" "flat t = put_at a (take n1 p) (flat s)"
      using wsect_put_at [OF 1(2) _ fit, of "start + fbn"] sum by (simp_all add: t_def sec flip: pos)
    have le: "n1 \<le> length p" by (simp add: n1_def)
    have off: "unat (off + of_nat n1) = unat off + n1"
      using 1(3) le by (simp add: unat_word_ariths unat_of_nat BSIZE_def FSSIZE_def)
    have "\<exists>s'. iappend_loop start (drop n1 p) (off + of_nat n1) t = Ret (off + of_nat n1 + of_nat (length (drop n1 p)), s') \<and>
      mk_ok s' \<and> flat s' = put_at (unat start * BSIZE + unat (off + of_nat n1)) (drop n1 p) (flat t) \<and>
      freeinode s' = freeinode t \<and> freeblock s' = freeblock t"
      using 1(1) [OF False fbn_def n1_def rsect_ok [OF 1(2)], folded k_def] t(1) 1(3) off le sum sec
      by (simp add: t_def)
    moreover have "iappend_loop start p off s = iappend_loop start (drop n1 p) (off + of_nat n1) t"
      using False sum sec
      by (subst iappend_loop.simps) (simp add: rsect_ok [OF 1(2)] t_def Let_def flip: fbn_def n1_def k_def)
    moreover have "off + of_nat n1 + of_nat (length (drop n1 p)) = off + of_nat (length p)"
      using le by (simp add: add.assoc of_nat_diff)
    moreover have "unat start * BSIZE + unat (off + of_nat n1) = a + n1" by (simp add: off a_def)
    moreover have "put_at (a + n1) (drop n1 p) (flat t) = put_at a p (flat s)"
      using put_at_put_at [OF le, of a "flat s"] 1(2,3) t(2) by (simp add: a_def)
    ultimately show ?thesis by (simp add: t_def a_def add.assoc)
  qed
qed

lemma iappend_flat:
  assumes "mk_ok s" "inum_ok i" "d = dec_dinode (bytes_at (iaddr i) sizeof_dinode (flat s))"
    "a = unat (startblkno (di_data d)) * BSIZE + unat (di_size d)" "a + length p \<le> FSSIZE * BSIZE"
  obtains s' where "iappend i p s = Ret s'" "mk_ok s'"
    "flat s' = put_at (iaddr i) (enc_dinode (d\<lparr>di_size := di_size d + of_nat (length p)\<rparr>)) (put_at a p (flat s))"
    "freeinode s' = freeinode s" "freeblock s' = freeblock s"
proof -
  obtain s1 where s1: "iappend_loop (startblkno (di_data d)) p (di_size d) s = Ret (di_size d + of_nat (length p), s1)"
    "mk_ok s1" "flat s1 = put_at a p (flat s)" "freeinode s1 = freeinode s" "freeblock s1 = freeblock s"
    using iappend_loop_flat [OF assms(1), of "startblkno (di_data d)" "di_size d" p] assms(4,5) by auto
  show thesis
    by (rule winode_flat [OF s1(2) assms(2), of "d\<lparr>di_size := di_size d + of_nat (length p)\<rparr>"])
       (use s1 assms that in \<open>simp add: iappend_def rinode_flat\<close>)
qed

section \<open>What an operation leaves alone\<close>

text \<open>The bytes outside \<open>R\<close> are unchanged.\<close>

definition changed :: "nat set \<Rightarrow> 'b list \<Rightarrow> 'b list \<Rightarrow> bool" where
  "changed R d d' \<longleftrightarrow> length d' = length d \<and> (\<forall>k < length d. k \<notin> R \<longrightarrow> d' ! k = d ! k)"

lemma changed_put_at: "a + length p \<le> length d \<Longrightarrow> changed {a..<a + length p} d (put_at a p d)"
  by (auto simp: changed_def put_at_def nth_append)

lemma changed_trans: "changed R d d' \<Longrightarrow> changed S d' d'' \<Longrightarrow> changed (R \<union> S) d d''"
  by (auto simp: changed_def)

lemma changed_mono: "changed R d d' \<Longrightarrow> R \<subseteq> S \<Longrightarrow> changed S d d'"
  by (auto simp: changed_def)

lemma changed_bytes_at: "changed R d d' \<Longrightarrow> {a..<a + n} \<inter> R = {} \<Longrightarrow> bytes_at a n d' = bytes_at a n d"
proof (rule nth_equalityI)
  assume c: "changed R d d'" and disj: "{a..<a + n} \<inter> R = {}"
  show "length (bytes_at a n d') = length (bytes_at a n d)" using c by (simp add: changed_def bytes_at_def)
  fix j assume j: "j < length (bytes_at a n d')"
  then have "a + j \<in> {a..<a + n}" by (simp add: bytes_at_def)
  then have "a + j \<notin> R" using disj by blast
  then show "bytes_at a n d' ! j = bytes_at a n d ! j" using c j by (auto simp: changed_def bytes_at_def)
qed

lemma changed_refl [simp]: "changed R d d"
  by (simp add: changed_def)

abbreviation iregion :: "u32 \<Rightarrow> nat set" where
  "iregion i \<equiv> {iaddr i..<iaddr i + sizeof_dinode}"

definition dinode_of :: "u32 \<Rightarrow> mk \<Rightarrow> dinode" where
  "dinode_of i s = dec_dinode (bytes_at (iaddr i) sizeof_dinode (flat s))"

lemma dinode_of_cong:
  "changed R (flat s) (flat s') \<Longrightarrow> iregion i \<inter> R = {} \<Longrightarrow> dinode_of i s' = dinode_of i s"
  by (simp add: dinode_of_def changed_bytes_at)

lemma rinode_of [simp]: "mk_ok s \<Longrightarrow> inum_ok i \<Longrightarrow> rinode i s = Ret (dinode_of i s)"
  by (simp add: rinode_flat dinode_of_def)

lemma mk_ok_frame [simp]:
  "mk_ok (s\<lparr>freeinode := x\<rparr>) = mk_ok s" "mk_ok (s\<lparr>freeblock := b\<rparr>) = mk_ok s"
  "flat (s\<lparr>freeinode := x\<rparr>) = flat s" "flat (s\<lparr>freeblock := b\<rparr>) = flat s"
  "dinode_of i (s\<lparr>freeinode := x\<rparr>) = dinode_of i s" "dinode_of i (s\<lparr>freeblock := b\<rparr>) = dinode_of i s"
  by (simp_all add: mk_ok_def flat_def dinode_of_def)

lemma winode_spec:
  assumes "mk_ok s" "inum_ok i" "dinode_ok d"
  obtains s' where "winode i d s = Ret s'" "mk_ok s'" "dinode_of i s' = d" "changed (iregion i) (flat s) (flat s')"
    "freeinode s' = freeinode s" "freeblock s' = freeblock s"
proof -
  obtain s' where s': "winode i d s = Ret s'" "mk_ok s'" "flat s' = put_at (iaddr i) (enc_dinode d) (flat s)"
    "freeinode s' = freeinode s" "freeblock s' = freeblock s"
    by (rule winode_flat [OF assms(1,2)])
  have l: "iaddr i + length (enc_dinode d) \<le> length (flat s)" using assms by (simp add: inum_ok_def)
  show thesis
    using that [OF s'(1,2)] changed_put_at [OF l] s'(3-5) assms l by (simp add: dinode_of_def)
qed

lemma iappend_spec:
  assumes "mk_ok s" "inum_ok i" "dinode_ok (dinode_of i s)"
    "a = unat (startblkno (di_data (dinode_of i s))) * BSIZE + unat (di_size (dinode_of i s))"
    "a + length p \<le> FSSIZE * BSIZE" "iaddr i + sizeof_dinode \<le> a"
  obtains s' where "iappend i p s = Ret s'" "mk_ok s'"
    "dinode_of i s' = (dinode_of i s)\<lparr>di_size := di_size (dinode_of i s) + of_nat (length p)\<rparr>"
    "bytes_at a (length p) (flat s') = p" "changed (iregion i \<union> {a..<a + length p}) (flat s) (flat s')"
    "freeinode s' = freeinode s" "freeblock s' = freeblock s"
proof -
  define d where "d = dinode_of i s"
  define d' where "d' = d\<lparr>di_size := di_size d + of_nat (length p)\<rparr>"
  obtain s' where s': "iappend i p s = Ret s'" "mk_ok s'"
    "flat s' = put_at (iaddr i) (enc_dinode d') (put_at a p (flat s))"
    "freeinode s' = freeinode s" "freeblock s' = freeblock s"
    using iappend_flat [OF assms(1,2) _ assms(4,5)] d_def d'_def by (metis dinode_of_def)
  have l: "a + length p \<le> length (flat s)" "iaddr i + length (enc_dinode d') \<le> length (put_at a p (flat s))"
    using assms by (simp_all add: inum_ok_def)
  have "dinode_ok d'" using assms(3) by (simp add: d'_def d_def dinode_ok_def)
  then have "dinode_of i s' = d'" using l s'(3) by (simp add: dinode_of_def)
  moreover have "bytes_at a (length p) (flat s') = p"
    using l s'(3) assms(6) by (simp add: bytes_at_put_at_after)
  moreover have "changed (iregion i \<union> {a..<a + length p}) (flat s) (flat s')"
    using changed_trans [OF changed_put_at [OF l(1)] changed_put_at [OF l(2)]] s'(3) by (simp add: Un_commute)
  ultimately show thesis using that s' by (simp add: d'_def d_def)
qed

lemma mk_contents_spec:
  assumes "mk_ok s" "inum_ok i" "dinode_ok (dinode_of i s)"
    "a = unat (startblkno (di_data (dinode_of i s))) * BSIZE + unat (di_size (dinode_of i s))"
    "a + length bs \<le> FSSIZE * BSIZE" "iaddr i + sizeof_dinode \<le> a"
  shows "\<exists>s'. mk_contents i bs s = Ret s' \<and> mk_ok s' \<and>
    dinode_of i s' = (dinode_of i s)\<lparr>di_size := di_size (dinode_of i s) + of_nat (length bs)\<rparr> \<and>
    bytes_at a (length bs) (flat s') = bs \<and> changed (iregion i \<union> {a..<a + length bs}) (flat s) (flat s') \<and>
    freeinode s' = freeinode s \<and> freeblock s' = freeblock s"
  using assms
proof (induction i bs s arbitrary: a rule: mk_contents.induct)
  case (1 i bs s)
  show ?case
  proof (cases "bs = []")
    case True
    then show ?thesis using 1(2) by (simp add: mk_contents.simps bytes_at_def)
  next
    case False
    let ?p = "take BSIZE bs" and ?q = "drop BSIZE bs"
    have len: "length ?p + length ?q = length bs" by simp
    obtain t where t: "iappend i ?p s = Ret t" "mk_ok t"
      "dinode_of i t = (dinode_of i s)\<lparr>di_size := di_size (dinode_of i s) + of_nat (length ?p)\<rparr>"
      "bytes_at a (length ?p) (flat t) = ?p" "changed (iregion i \<union> {a..<a + length ?p}) (flat s) (flat t)"
      "freeinode t = freeinode s" "freeblock t = freeblock s"
      by (rule iappend_spec [OF 1(2-5), of ?p]) (use 1(6,7) len in \<open>simp_all del: length_take\<close>)
    have sz: "unat (di_size (dinode_of i t)) = unat (di_size (dinode_of i s)) + length ?p"
      using 1(5,6) t(3) by (simp add: unat_word_ariths unat_of_nat BSIZE_def FSSIZE_def)
    obtain u where u: "mk_contents i ?q t = Ret u" "mk_ok u"
      "dinode_of i u = (dinode_of i t)\<lparr>di_size := di_size (dinode_of i t) + of_nat (length ?q)\<rparr>"
      "bytes_at (a + length ?p) (length ?q) (flat u) = ?q"
      "changed (iregion i \<union> {a + length ?p..<a + length ?p + length ?q}) (flat t) (flat u)"
      "freeinode u = freeinode t" "freeblock u = freeblock t"
      using 1(1) [OF False t(1,2) 1(3), of "a + length ?p"] 1(4-7) t(3) sz len
      by (auto simp: dinode_ok_def)
    have "bytes_at a (length ?p) (flat u) = ?p"
      using changed_bytes_at [OF u(5), of a "length ?p"] t(4) 1(7) by (auto simp: disjoint_iff)
    then have "bytes_at a (length bs) (flat u) = bs"
      using bytes_at_add [of a "length ?p" "length ?q" "flat u"] u(4) len by simp
    moreover have "changed (iregion i \<union> {a..<a + length bs}) (flat s) (flat u)"
      by (rule changed_mono [OF changed_trans [OF t(5) u(5)]]) (use len in auto)
    moreover have "of_nat (length ?p) + of_nat (length ?q) = (of_nat (length bs) :: u32)"
      by (metis len of_nat_add)
    ultimately show ?thesis using False t u by (subst mk_contents.simps) (simp add: add.assoc del: length_take length_drop)
  qed
qed

section \<open>One file\<close>

lemma iregion_disjoint: "i \<noteq> j \<Longrightarrow> iregion i \<inter> iregion j = {}"
proof -
  assume "i \<noteq> j"
  then have "unat i < unat j \<or> unat j < unat i" by (metis linorder_neqE_nat word_unat_eq_iff)
  then show ?thesis by (auto simp: iaddr_def sizeof_dinode_def)
qed

lemma ialloc_spec:
  assumes "mk_ok s" "inum_ok (freeinode s)"
  obtains s' where "ialloc ty s = Ret (freeinode s, s')" "mk_ok s'"
    "dinode_of (freeinode s) s' = zero_dinode\<lparr>di_type := sint ty\<rparr>" "changed (iregion (freeinode s)) (flat s) (flat s')"
    "freeinode s' = freeinode s + 1" "freeblock s' = freeblock s"
proof -
  have "dinode_ok (zero_dinode\<lparr>di_type := sint ty\<rparr>)"
    using sint_ge [of ty] sint_lt [of ty] by (simp add: dinode_ok_def zero_dinode_def)
  then obtain s' where "winode (freeinode s) (zero_dinode\<lparr>di_type := sint ty\<rparr>) (s\<lparr>freeinode := freeinode s + 1\<rparr>) = Ret s'"
    "mk_ok s'" "dinode_of (freeinode s) s' = zero_dinode\<lparr>di_type := sint ty\<rparr>"
    "changed (iregion (freeinode s)) (flat s) (flat s')" "freeinode s' = freeinode s + 1" "freeblock s' = freeblock s"
    using assms by (rule_tac winode_spec [of "s\<lparr>freeinode := freeinode s + 1\<rparr>"]) auto
  moreover have "zero_dinode\<lparr>di_type := sint ty, di_size := 0\<rparr> = zero_dinode\<lparr>di_type := sint ty\<rparr>"
    by (simp add: zero_dinode_def)
  ultimately show thesis using that by (simp add: ialloc_def Let_def)
qed

definition nblk :: "nat \<Rightarrow> nat" where
  "nblk n = n div BSIZE + (if n mod BSIZE = 0 then 0 else 1)"

definition file_dinode :: "u32 \<Rightarrow> nat \<Rightarrow> dinode" where
  "file_dinode start n = \<lparr>di_type = T_FILE, di_devid = 0, di_size = of_nat n,
     di_data = \<lparr>startblkno = start, ext_nblocks = of_nat (nblk n)\<rparr>\<rparr>"

definition path_ok :: "u8 list \<Rightarrow> bool" where
  "path_ok path \<longleftrightarrow> strncmp_bytes 9 path out_user = 0 \<and> slash \<notin> set (drop 9 path)"

lemma nblk_word:
  assumes "n < 2 ^ 32"
  shows "(of_nat n :: u32) div of_nat BSIZE + (if (of_nat n :: u32) mod of_nat BSIZE = 0 then 0 else 1) = of_nat (nblk n)"
proof -
  have "(of_nat n :: u32) div of_nat BSIZE = of_nat (n div BSIZE)"
    using assms by (simp add: word_unat_eq_iff unat_div unat_of_nat BSIZE_def)
  moreover have "(of_nat n :: u32) mod of_nat BSIZE = 0 \<longleftrightarrow> n mod BSIZE = 0"
    using assms by (simp add: word_unat_eq_iff unat_mod unat_of_nat BSIZE_def)
  ultimately show ?thesis by (simp add: nblk_def)
qed

lemma mk_entry_spec:
  assumes "mk_ok s" "dinode_ok (dinode_of ROOTINO s)"
    "a = unat (startblkno (di_data (dinode_of ROOTINO s))) * BSIZE + unat (di_size (dinode_of ROOTINO s))"
    "a + sizeof_dirent \<le> FSSIZE * BSIZE" "iaddr ROOTINO + sizeof_dinode \<le> a"
  obtains s' where "mk_entry i nm s = Ret s'" "mk_ok s'"
    "dinode_of ROOTINO s' = (dinode_of ROOTINO s)\<lparr>di_size := di_size (dinode_of ROOTINO s) + of_nat sizeof_dirent\<rparr>"
    "bytes_at a sizeof_dirent (flat s') = enc_dirent (ucast i) nm"
    "changed (iregion ROOTINO \<union> {a..<a + sizeof_dirent}) (flat s) (flat s')"
    "freeinode s' = freeinode s" "freeblock s' = freeblock s"
proof -
  have "inum_ok ROOTINO"
    by (simp add: inum_ok_def iaddr_def ROOTINO_def sizeof_dinode_def BSIZE_def FSSIZE_def)
  then show thesis
    by (rule iappend_spec [OF assms(1) _ assms(2,3), of "enc_dirent (ucast i) nm"])
       (use that assms(4,5) in \<open>simp_all add: mk_entry_def\<close>)
qed

lemma mk_file_spec:
  fixes s :: mk and contents :: "u8 list" and i :: u32
  defines "i \<equiv> freeinode s" and "r \<equiv> dinode_of ROOTINO s"
  defines "a \<equiv> unat (startblkno (di_data r)) * BSIZE + unat (di_size r)" and "f \<equiv> unat (freeblock s) * BSIZE"
  assumes ok: "mk_ok s" "inum_ok i" "dinode_ok r" "path_ok path" "i \<noteq> ROOTINO"
    and room: "iaddr i + sizeof_dinode \<le> a" "iaddr ROOTINO + sizeof_dinode \<le> a" "a + sizeof_dirent \<le> f"
      "f + length contents \<le> FSSIZE * BSIZE"
  obtains s' where "mk_file (path, contents) s = Ret s'" "mk_ok s'" "freeinode s' = i + 1"
    "freeblock s' = freeblock s + of_nat (nblk (length contents))"
    "dinode_of i s' = file_dinode (freeblock s) (length contents)"
    "dinode_of ROOTINO s' = r\<lparr>di_size := di_size r + of_nat sizeof_dirent\<rparr>"
    "bytes_at a sizeof_dirent (flat s') = enc_dirent (ucast i) (stored_name path)"
    "bytes_at f (length contents) (flat s') = contents"
    "changed (iregion i \<union> iregion ROOTINO \<union> {a..<a + sizeof_dirent} \<union> {f..<f + length contents}) (flat s) (flat s')"
proof -
  note disj = iregion_disjoint [OF ok(5)]
  obtain s1 where s1: "ialloc (word_of_int T_FILE) s = Ret (i, s1)" "mk_ok s1"
    "dinode_of i s1 = zero_dinode\<lparr>di_type := T_FILE\<rparr>" "changed (iregion i) (flat s) (flat s1)"
    "freeinode s1 = i + 1" "freeblock s1 = freeblock s"
    using ialloc_spec [OF ok(1), of "word_of_int T_FILE"] ok(2) by (auto simp: i_def T_FILE_def)
  have r1: "dinode_of ROOTINO s1 = r" using dinode_of_cong [OF s1(4), of ROOTINO] disj by (simp add: r_def Int_commute)
  obtain s2 where s2: "mk_entry i (stored_name path) s1 = Ret s2" "mk_ok s2"
    "dinode_of ROOTINO s2 = r\<lparr>di_size := di_size r + of_nat sizeof_dirent\<rparr>"
    "bytes_at a sizeof_dirent (flat s2) = enc_dirent (ucast i) (stored_name path)"
    "changed (iregion ROOTINO \<union> {a..<a + sizeof_dirent}) (flat s1) (flat s2)"
    "freeinode s2 = i + 1" "freeblock s2 = freeblock s"
    by (rule mk_entry_spec [OF s1(2), of a i "stored_name path"]) (use r1 ok room s1 a_def in auto)
  have i2: "dinode_of i s2 = zero_dinode\<lparr>di_type := T_FILE\<rparr>"
    using dinode_of_cong [OF s2(5), of i] disj s1(3) room(1) by (simp add: Int_Un_distrib)
  define d where "d = zero_dinode\<lparr>di_type := T_FILE, di_data := \<lparr>startblkno = freeblock s, ext_nblocks = 0\<rparr>\<rparr>"
  have dok: "dinode_ok d" by (simp add: d_def zero_dinode_def dinode_ok_def T_FILE_def)
  obtain s3 where s3: "winode i d s2 = Ret s3" "mk_ok s3" "dinode_of i s3 = d" "changed (iregion i) (flat s2) (flat s3)"
    "freeinode s3 = i + 1" "freeblock s3 = freeblock s"
    using winode_spec [OF s2(2) ok(2) dok] s2(6,7) by metis
  have f3: "f = unat (startblkno (di_data (dinode_of i s3))) * BSIZE + unat (di_size (dinode_of i s3))"
    by (simp add: s3(3) d_def f_def zero_dinode_def)
  obtain s4 where s4: "mk_contents i contents s3 = Ret s4" "mk_ok s4"
    "dinode_of i s4 = d\<lparr>di_size := of_nat (length contents)\<rparr>" "bytes_at f (length contents) (flat s4) = contents"
    "changed (iregion i \<union> {f..<f + length contents}) (flat s3) (flat s4)" "freeinode s4 = i + 1" "freeblock s4 = freeblock s"
    using mk_contents_spec [OF s3(2) ok(2) _ f3 room(4)] s3(3,5,6) dok room by (auto simp: d_def zero_dinode_def)
  define n :: u32 where "n = of_nat (nblk (length contents))"
  have n: "(of_nat (length contents) :: u32) div of_nat BSIZE
      + (if (of_nat (length contents) :: u32) mod of_nat BSIZE = 0 then 0 else 1) = n"
    unfolding n_def by (rule nblk_word) (use room(4) in \<open>simp add: BSIZE_def FSSIZE_def\<close>)
  have fd: "dinode_ok (file_dinode (freeblock s) (length contents))"
    by (simp add: file_dinode_def dinode_ok_def T_FILE_def)
  obtain s5 where s5: "winode i (file_dinode (freeblock s) (length contents)) (s4\<lparr>freeblock := freeblock s + n\<rparr>) = Ret s5"
    "mk_ok s5" "dinode_of i s5 = file_dinode (freeblock s) (length contents)" "changed (iregion i) (flat s4) (flat s5)"
    "freeinode s5 = i + 1" "freeblock s5 = freeblock s + n"
    by (rule winode_spec [OF _ ok(2) fd, of "s4\<lparr>freeblock := freeblock s + n\<rparr>"]) (use s4 in auto)
  have c: "changed (iregion i \<union> {f..<f + length contents}) (flat s2) (flat s5)"
    by (rule changed_mono [OF changed_trans [OF s3(4) changed_trans [OF s4(5) s5(4)]]]) auto
  have "mk_file (path, contents) s = Ret s5"
    using ok(4) s1 s2 i2 s3(1) s4 s5(1) ok(2) n
    by (simp add: mk_file_def path_ok_def d_def zero_dinode_def file_dinode_def n_def Let_def)
  moreover have "dinode_of ROOTINO s5 = r\<lparr>di_size := di_size r + of_nat sizeof_dirent\<rparr>"
    using dinode_of_cong [OF c, of ROOTINO] disj s2(3) room by (simp add: Int_Un_distrib Int_commute)
  moreover have "bytes_at a sizeof_dirent (flat s5) = enc_dirent (ucast i) (stored_name path)"
    using changed_bytes_at [OF c, of a sizeof_dirent] s2(4) room by (simp add: Int_Un_distrib)
  moreover have "bytes_at f (length contents) (flat s5) = contents"
    using changed_bytes_at [OF s5(4), of f "length contents"] s4(4) room by simp
  moreover have "changed (iregion i \<union> iregion ROOTINO \<union> {a..<a + sizeof_dirent} \<union> {f..<f + length contents}) (flat s) (flat s5)"
    by (rule changed_mono [OF changed_trans [OF s1(4) changed_trans [OF s2(5) c]]]) auto
  ultimately show thesis using that s5 by (simp add: n_def)
qed

section \<open>The steps before the files\<close>

lemma mk_format_img:
  "n \<le> FSSIZE \<Longrightarrow> img s = [] \<Longrightarrow>
   img (fold (\<lambda>i. wsect (of_nat i) (replicate BSIZE 0)) [0..<n] s) = replicate n (replicate BSIZE 0)"
proof (induction n)
  case (Suc n)
  have "unat (of_nat n :: u32) = n" using Suc(2) by (simp add: unat_of_nat FSSIZE_def)
  then have "sect (of_nat n) = n" using Suc(2) by simp
  then show ?case using Suc by (simp add: wsect_def list_update_append replicate_append_same)
qed simp

lemma fold_wsect_frame [simp]:
  "freeinode (fold (\<lambda>i. wsect (g i) b) xs s) = freeinode s" "freeblock (fold (\<lambda>i. wsect (g i) b) xs s) = freeblock s"
  by (induction xs arbitrary: s) simp_all

lemma concat_replicate_zero: "concat (replicate n (replicate m 0)) = replicate (n * m) (0 :: u8)"
  by (induction n) (simp_all add: replicate_add)

lemma mk_format_spec:
  fixes t :: mk
  defines "t \<equiv> mk_format \<lparr>img = [], freeinode = 0, freeblock = 0\<rparr>"
  shows "mk_ok t" "flat t = put_at BSIZE (enc_superblock mk_sb) (replicate (FSSIZE * BSIZE) 0)"
    "freeinode t = 0" "freeblock t = of_nat nmeta"
proof -
  define u where "u = fold (\<lambda>i. wsect (of_nat i) (replicate BSIZE 0)) [0..<FSSIZE] \<lparr>img = [], freeinode = 0, freeblock = of_nat nmeta\<rparr>"
  have i: "img u = replicate FSSIZE (replicate BSIZE 0)" by (simp add: u_def mk_format_img)
  then have u: "mk_ok u" "flat u = replicate (FSSIZE * BSIZE) 0" "img u ! unat (1 :: u32) = replicate BSIZE 0"
    by (simp_all add: mk_ok_def flat_def concat_replicate_zero) (simp add: FSSIZE_def)
  have t: "t = wsect 1 (put_at 0 (enc_superblock mk_sb) (img u ! unat (1 :: u32))) u"
    unfolding u(3) by (simp add: t_def mk_format_def u_def)
  have "unat (1 :: u32) < FSSIZE" "0 + length (enc_superblock mk_sb) \<le> BSIZE"
    by (simp_all add: enc_superblock_def FSSIZE_def BSIZE_def)
  note w = wsect_put_at [OF u(1) this]
  show "mk_ok t" "flat t = put_at BSIZE (enc_superblock mk_sb) (replicate (FSSIZE * BSIZE) 0)"
    using w u(2) by (simp_all add: t)
  show "freeinode t = 0" "freeblock t = of_nat nmeta" by (simp_all add: t u_def)
qed

definition table_dinode :: "nat \<Rightarrow> dinode" where
  "table_dinode argc = \<lparr>di_type = T_FILE, di_devid = 0, di_size = of_nat ((argc + 1) * sizeof_dinode),
     di_data = \<lparr>startblkno = 15, ext_nblocks = of_nat (inodetableblkn argc)\<rparr>\<rparr>"

definition root_start :: "nat \<Rightarrow> nat" where
  "root_start argc = nmeta + inodetableblkn argc"

definition root_dinode :: "nat \<Rightarrow> nat \<Rightarrow> dinode" where
  "root_dinode argc n = \<lparr>di_type = T_DIR, di_devid = 0, di_size = of_nat (n * sizeof_dirent),
     di_data = \<lparr>startblkno = of_nat (root_start argc), ext_nblocks = of_nat (rootdir_blocks argc)\<rparr>\<rparr>"

definition console_dinode :: dinode where
  "console_dinode = zero_dinode\<lparr>di_type := T_DEV, di_devid := 1\<rparr>"

definition data_start :: "nat \<Rightarrow> nat" where
  "data_start argc = root_start argc + rootdir_blocks argc"

lemma dinode_ok_consts [simp]:
  "dinode_ok (table_dinode argc)" "dinode_ok (root_dinode argc n)" "dinode_ok console_dinode"
  by (simp_all add: dinode_ok_def table_dinode_def root_dinode_def console_dinode_def zero_dinode_def
      T_FILE_def T_DIR_def T_DEV_def)

lemma ceil_div: "0 < m \<Longrightarrow> n \<le> (n div m + (if n mod m = 0 then 0 else 1)) * m" for n m :: nat
proof -
  assume "0 < m"
  then have "n = n div m * m + n mod m" "n mod m < m" by simp_all
  then have "n \<le> n div m * m + m" by linarith
  then show ?thesis by (auto simp: distrib_right)
qed

lemma table_fits: "(argc + 1) * sizeof_dinode \<le> inodetableblkn argc * BSIZE"
proof -
  have "(n * 64) mod 512 = 0 \<longleftrightarrow> n mod 8 = 0" for n :: nat
    using mult_mod_left [of n 8 64, symmetric] by simp
  then show ?thesis
    using ceil_div [of 8 "argc + 1"] by (auto simp: inodetableblkn_def IPB_def sizeof_dinode_def BSIZE_def Let_def)
qed

lemma root_fits: "(argc + 1) * sizeof_dirent \<le> rootdir_blocks argc * BSIZE"
  using ceil_div [of BSIZE "(argc + 1) * sizeof_dirent"]
  by (simp add: rootdir_blocks_def rootdir_size_def BSIZE_def split: if_splits)

lemma nmeta_15: "nmeta = 15"
  by (simp add: nmeta_def nbitmap_def FSSIZE_def BSIZE_def)

lemma iaddr_below_root:
  assumes "unat i \<le> argc"
  shows "iaddr i + sizeof_dinode \<le> root_start argc * BSIZE"
proof -
  have "(unat i + 1) * sizeof_dinode \<le> (argc + 1) * sizeof_dinode" using assms by (rule_tac mult_le_mono1) simp
  from order_trans [OF this table_fits] show ?thesis
    by (simp add: iaddr_def root_start_def nmeta_15 distrib_right)
qed

lemma inum_ok_table: "unat i \<le> argc \<Longrightarrow> root_start argc \<le> FSSIZE \<Longrightarrow> inum_ok i"
  unfolding inum_ok_def by (rule order_trans [OF iaddr_below_root [of i argc]]) (auto intro: mult_le_mono1)

lemma mk_inodetable_spec:
  assumes "mk_ok s" "freeinode s = 0" "freeblock s = of_nat nmeta" "root_start argc \<le> FSSIZE"
  obtains s' where "mk_inodetable argc s = Ret s'" "mk_ok s'" "freeinode s' = 1" "freeblock s' = of_nat (root_start argc)"
    "dinode_of 0 s' = table_dinode argc" "changed (iregion 0) (flat s) (flat s')"
proof -
  have io: "inum_ok 0" using inum_ok_table [of 0 argc] assms(4) by simp
  obtain s1 where s1: "ialloc (word_of_int T_FILE) s = Ret (0, s1)" "mk_ok s1"
    "dinode_of 0 s1 = zero_dinode\<lparr>di_type := T_FILE\<rparr>" "changed (iregion 0) (flat s) (flat s1)"
    "freeinode s1 = 1" "freeblock s1 = of_nat nmeta"
    using ialloc_spec [OF assms(1), of "word_of_int T_FILE"] io assms(2,3) by (auto simp: T_FILE_def)
  obtain s2 where s2: "winode 0 (table_dinode argc) s1 = Ret s2" "mk_ok s2" "dinode_of 0 s2 = table_dinode argc"
    "changed (iregion 0) (flat s1) (flat s2)" "freeinode s2 = 1" "freeblock s2 = of_nat nmeta"
    using winode_spec [OF s1(2) io dinode_ok_consts(1), of argc] s1(5,6) by metis
  have "mk_inodetable argc s = Ret (s2\<lparr>freeblock := of_nat (root_start argc)\<rparr>)"
    using s1 s2 io
    by (simp add: mk_inodetable_def INODETABLEINO_def zero_dinode_def table_dinode_def root_start_def)
  then show thesis
    by (rule that) (use s2 changed_trans [OF s1(4) s2(4)] in simp_all)
qed

lemma mk_root_spec:
  fixes f :: nat
  assumes "mk_ok s" "freeinode s = 1" "freeblock s = of_nat (root_start argc)" "data_start argc \<le> FSSIZE" "2 \<le> argc"
  defines "f \<equiv> root_start argc * BSIZE"
  obtains s' where "mk_root argc s = Ret s'" "mk_ok s'" "freeinode s' = 2" "freeblock s' = of_nat (data_start argc)"
    "dinode_of ROOTINO s' = root_dinode argc 2"
    "bytes_at f (2 * sizeof_dirent) (flat s') = enc_dirent 1 [46] @ enc_dirent 1 [46, 46]"
    "changed (iregion ROOTINO \<union> {f..<f + 2 * sizeof_dirent}) (flat s) (flat s')"
proof -
  have le: "root_start argc \<le> FSSIZE" "unat (of_nat (root_start argc) :: u32) = root_start argc"
    using assms(4) by (simp_all add: data_start_def unat_of_nat FSSIZE_def)
  have io: "inum_ok ROOTINO" using inum_ok_table [of ROOTINO argc] le assms(5) by (simp add: ROOTINO_def)
  have below: "iaddr ROOTINO + sizeof_dinode \<le> f" unfolding f_def by (rule iaddr_below_root) (use assms(5) in \<open>simp add: ROOTINO_def\<close>)
  have room: "f + 3 * sizeof_dirent \<le> FSSIZE * BSIZE"
  proof -
    have "3 * sizeof_dirent \<le> (argc + 1) * sizeof_dirent" using assms(5) by (rule_tac mult_le_mono1) simp
    from order_trans [OF this root_fits] have "f + 3 * sizeof_dirent \<le> data_start argc * BSIZE"
      by (simp add: f_def data_start_def distrib_right)
    also have "\<dots> \<le> FSSIZE * BSIZE" using assms(4) by simp
    finally show ?thesis .
  qed
  obtain s1 where s1: "ialloc (word_of_int T_DIR) s = Ret (ROOTINO, s1)" "mk_ok s1"
    "dinode_of ROOTINO s1 = zero_dinode\<lparr>di_type := T_DIR\<rparr>" "changed (iregion ROOTINO) (flat s) (flat s1)"
    "freeinode s1 = 2" "freeblock s1 = of_nat (root_start argc)"
    using ialloc_spec [OF assms(1), of "word_of_int T_DIR"] io assms(2,3) by (auto simp: T_DIR_def ROOTINO_def)
  obtain s2 where s2: "winode ROOTINO (root_dinode argc 0) s1 = Ret s2" "mk_ok s2" "dinode_of ROOTINO s2 = root_dinode argc 0"
    "changed (iregion ROOTINO) (flat s1) (flat s2)" "freeinode s2 = 2" "freeblock s2 = of_nat (root_start argc)"
    using winode_spec [OF s1(2) io dinode_ok_consts(2), of argc 0] s1(5,6) by metis
  define s2' where "s2' = s2\<lparr>freeblock := of_nat (data_start argc)\<rparr>"
  obtain s3 where s3: "mk_entry ROOTINO [46] s2' = Ret s3" "mk_ok s3" "dinode_of ROOTINO s3 = root_dinode argc 1"
    "bytes_at f sizeof_dirent (flat s3) = enc_dirent 1 [46]"
    "changed (iregion ROOTINO \<union> {f..<f + sizeof_dirent}) (flat s2) (flat s3)"
    "freeinode s3 = 2" "freeblock s3 = of_nat (data_start argc)"
    by (rule mk_entry_spec [of s2' f ROOTINO "[46]"])
       (use s2 below room le in \<open>auto simp: s2'_def root_dinode_def f_def ROOTINO_def dinode_ok_def T_DIR_def\<close>)
  obtain s4 where s4: "mk_entry ROOTINO [46, 46] s3 = Ret s4" "mk_ok s4" "dinode_of ROOTINO s4 = root_dinode argc 2"
    "bytes_at (f + sizeof_dirent) sizeof_dirent (flat s4) = enc_dirent 1 [46, 46]"
    "changed (iregion ROOTINO \<union> {f + sizeof_dirent..<f + sizeof_dirent + sizeof_dirent}) (flat s3) (flat s4)"
    "freeinode s4 = 2" "freeblock s4 = of_nat (data_start argc)"
    by (rule mk_entry_spec [of s3 "f + sizeof_dirent" ROOTINO "[46, 46]"])
       (use s3 below room le in \<open>auto simp: root_dinode_def f_def ROOTINO_def sizeof_dirent_def dinode_ok_def T_DIR_def\<close>)
  have "bytes_at f sizeof_dirent (flat s4) = enc_dirent 1 [46]"
    using changed_bytes_at [OF s4(5), of f sizeof_dirent] s3(4) below by (simp add: Int_Un_distrib)
  then have "bytes_at f (2 * sizeof_dirent) (flat s4) = enc_dirent 1 [46] @ enc_dirent 1 [46, 46]"
    using bytes_at_add [of f sizeof_dirent sizeof_dirent "flat s4"] s4(4) by (simp add: mult_2)
  moreover have "changed (iregion ROOTINO \<union> {f..<f + 2 * sizeof_dirent}) (flat s) (flat s4)"
    by (rule changed_mono [OF changed_trans [OF s1(4) changed_trans [OF s2(4) changed_trans [OF s3(5) s4(5)]]]]) auto
  moreover have "mk_root argc s = Ret s4"
    using s1 s2(1,2,6) s3(1) s4(1) io
    by (simp add: mk_root_def iallocblocks_def zero_dinode_def root_dinode_def s2'_def data_start_def)
  ultimately show thesis using that s4 by simp
qed

lemma mk_console_spec:
  assumes "mk_ok s" "freeinode s = 2" "dinode_of ROOTINO s = root_dinode argc 2" "data_start argc \<le> FSSIZE" "2 \<le> argc"
    "a = root_start argc * BSIZE + 2 * sizeof_dirent"
  obtains s' where "mk_console s = Ret s'" "mk_ok s'" "freeinode s' = 3" "freeblock s' = freeblock s"
    "dinode_of 2 s' = console_dinode" "dinode_of ROOTINO s' = root_dinode argc 3"
    "bytes_at a sizeof_dirent (flat s') = enc_dirent 2 [99, 111, 110, 115, 111, 108, 101]"
    "changed (iregion 2 \<union> iregion ROOTINO \<union> {a..<a + sizeof_dirent}) (flat s) (flat s')"
proof -
  have le: "root_start argc \<le> FSSIZE" "unat (of_nat (root_start argc) :: u32) = root_start argc"
    using assms(4) by (simp_all add: data_start_def unat_of_nat FSSIZE_def)
  have io: "inum_ok 2" "inum_ok ROOTINO" using inum_ok_table [of _ argc] le assms(5) by (simp_all add: ROOTINO_def)
  have below: "iaddr 2 + sizeof_dinode \<le> a" "iaddr ROOTINO + sizeof_dinode \<le> a"
    using iaddr_below_root [of _ argc] assms(5,6) by (simp_all add: ROOTINO_def trans_le_add1)
  have room: "a + sizeof_dirent \<le> FSSIZE * BSIZE"
  proof -
    have "3 * sizeof_dirent \<le> (argc + 1) * sizeof_dirent" using assms(5) by (rule_tac mult_le_mono1) simp
    from order_trans [OF this root_fits] have "a + sizeof_dirent \<le> data_start argc * BSIZE"
      by (simp add: assms(6) data_start_def distrib_right)
    also have "\<dots> \<le> FSSIZE * BSIZE" using assms(4) by simp
    finally show ?thesis .
  qed
  have disj: "iregion ROOTINO \<inter> iregion 2 = {}" by (rule iregion_disjoint) (simp add: ROOTINO_def)
  obtain s1 where s1: "ialloc (word_of_int T_DEV) s = Ret (2, s1)" "mk_ok s1"
    "dinode_of 2 s1 = zero_dinode\<lparr>di_type := T_DEV\<rparr>" "changed (iregion 2) (flat s) (flat s1)"
    "freeinode s1 = 3" "freeblock s1 = freeblock s"
    using ialloc_spec [OF assms(1), of "word_of_int T_DEV"] io assms(2) by (auto simp: T_DEV_def)
  obtain s2 where s2: "winode 2 console_dinode s1 = Ret s2" "mk_ok s2" "dinode_of 2 s2 = console_dinode"
    "changed (iregion 2) (flat s1) (flat s2)" "freeinode s2 = 3" "freeblock s2 = freeblock s"
    using winode_spec [OF s1(2) io(1) dinode_ok_consts(3)] s1(5,6) by metis
  have c: "changed (iregion 2) (flat s) (flat s2)" using changed_trans [OF s1(4) s2(4)] by simp
  have r: "dinode_of ROOTINO s2 = root_dinode argc 2" using dinode_of_cong [OF c disj] assms(3) by simp
  obtain s3 where s3: "mk_entry 2 [99, 111, 110, 115, 111, 108, 101] s2 = Ret s3" "mk_ok s3"
    "dinode_of ROOTINO s3 = root_dinode argc 3"
    "bytes_at a sizeof_dirent (flat s3) = enc_dirent 2 [99, 111, 110, 115, 111, 108, 101]"
    "changed (iregion ROOTINO \<union> {a..<a + sizeof_dirent}) (flat s2) (flat s3)"
    "freeinode s3 = 3" "freeblock s3 = freeblock s"
    by (rule mk_entry_spec [of s2 a 2 "[99, 111, 110, 115, 111, 108, 101]"])
       (use s2 r below room le in \<open>auto simp: root_dinode_def assms(6) sizeof_dirent_def dinode_ok_def T_DIR_def\<close>)
  have "dinode_of 2 s3 = console_dinode"
    using dinode_of_cong [OF s3(5), of 2] disj below s2(3) by (simp add: Int_Un_distrib Int_commute)
  moreover have "mk_console s = Ret s3"
    using s1 s2 s3 io by (simp add: mk_console_def zero_dinode_def console_dinode_def CONSOLE_ID_def)
  moreover have "changed (iregion 2 \<union> iregion ROOTINO \<union> {a..<a + sizeof_dirent}) (flat s) (flat s3)"
    by (rule changed_mono [OF changed_trans [OF c s3(5)]]) auto
  ultimately show thesis using that s3 by simp
qed

section \<open>The whole image\<close>

type_synonym input = "u8 list \<times> u8 list"

text \<open>The first block after the given files, the directory's contents, and the state after some of the files.\<close>

definition file_start :: "nat \<Rightarrow> input list \<Rightarrow> nat" where
  "file_start argc fs = data_start argc + sum_list (map (nblk \<circ> length \<circ> snd) fs)"

definition dir_bytes :: "input list \<Rightarrow> u8 list" where
  "dir_bytes fs = enc_dirent 1 [46] @ enc_dirent 1 [46, 46] @ enc_dirent 2 [99, 111, 110, 115, 111, 108, 101] @
     concat (map (\<lambda>j. enc_dirent (of_nat (3 + j)) (stored_name (fst (fs ! j)))) [0..<length fs])"

definition holds_file :: "nat \<Rightarrow> input list \<Rightarrow> nat \<Rightarrow> mk \<Rightarrow> bool" where
  "holds_file argc fs j s \<longleftrightarrow>
     (let b = file_start argc (take j fs); contents = snd (fs ! j)
      in dinode_of (of_nat (3 + j)) s = file_dinode (of_nat b) (length contents) \<and>
         bytes_at (b * BSIZE) (length contents) (flat s) = contents)"

definition built :: "nat \<Rightarrow> input list \<Rightarrow> mk \<Rightarrow> bool" where
  "built argc fs s \<longleftrightarrow>
     mk_ok s \<and> freeinode s = of_nat (3 + length fs) \<and> freeblock s = of_nat (file_start argc fs) \<and>
     dinode_of INODETABLEINO s = table_dinode argc \<and> dinode_of ROOTINO s = root_dinode argc (3 + length fs) \<and>
     dinode_of 2 s = console_dinode \<and>
     bytes_at (root_start argc * BSIZE) ((3 + length fs) * sizeof_dirent) (flat s) = dir_bytes fs \<and>
     bytes_at BSIZE 16 (flat s) = enc_superblock mk_sb \<and>
     bytes_at (2 * BSIZE) (13 * BSIZE) (flat s) = replicate (13 * BSIZE) 0 \<and>
     (\<forall>j < length fs. holds_file argc fs j s)"

lemma file_start_append: "file_start argc (fs @ [f]) = file_start argc fs + nblk (length (snd f))"
  by (simp add: file_start_def)

lemma file_start_mono: "file_start argc (take j fs) \<le> file_start argc fs" "data_start argc \<le> file_start argc fs"
  by (induction fs arbitrary: j) (auto simp: file_start_def take_Cons' split: nat.splits)

lemma file_end:
  assumes "j < length fs"
  shows "file_start argc (take j fs) * BSIZE + length (snd (fs ! j)) \<le> file_start argc fs * BSIZE"
proof -
  have "file_start argc (take j fs) + nblk (length (snd (fs ! j))) = file_start argc (take (Suc j) fs)"
    using assms by (simp add: take_Suc_conv_app_nth file_start_append)
  moreover have "length (snd (fs ! j)) \<le> nblk (length (snd (fs ! j))) * BSIZE"
    using ceil_div [of BSIZE] by (simp add: nblk_def BSIZE_def)
  ultimately have "file_start argc (take j fs) * BSIZE + length (snd (fs ! j)) \<le> file_start argc (take (Suc j) fs) * BSIZE"
    by (metis add_mult_distrib add_left_mono)
  also have "\<dots> \<le> file_start argc fs * BSIZE" by (rule mult_le_mono1) (rule file_start_mono(1))
  finally show ?thesis .
qed

lemma unat_small: "m < 2 ^ 32 \<Longrightarrow> unat (of_nat m :: u32) = m"
  by (simp add: unat_of_nat)

lemma data_start_entry:
  assumes "n \<le> argc"
  shows "root_start argc * BSIZE + n * sizeof_dirent + sizeof_dirent \<le> data_start argc * BSIZE"
proof -
  have "(n + 1) * sizeof_dirent \<le> (argc + 1) * sizeof_dirent" using assms by (rule_tac mult_le_mono1) simp
  from order_trans [OF this root_fits] show ?thesis by (simp add: data_start_def distrib_right)
qed

lemma built_step:
  assumes b: "built argc fs s" and f: "path_ok (fst f)" "length fs + 2 < argc" "file_start argc (fs @ [f]) \<le> FSSIZE"
  shows "\<exists>s'. mk_file f s = Ret s' \<and> built argc (fs @ [f]) s'"
proof -
  obtain path contents where ff: "f = (path, contents)" by (cases f)
  define n where "n = length fs"
  define i :: u32 where "i = of_nat (3 + n)"
  define A where "A = root_start argc * BSIZE + (3 + n) * sizeof_dirent"
  define F where "F = file_start argc fs * BSIZE"
  have fits: "file_start argc fs + nblk (length contents) \<le> FSSIZE" "data_start argc \<le> FSSIZE"
    using f(3) file_start_mono(2) [of argc fs] by (simp_all add: file_start_append ff)
  have rs: "root_start argc \<le> data_start argc" by (simp add: data_start_def)
  have small: "argc < 2 ^ 20"
    using table_fits [of argc] rs fits(2) by (simp add: root_start_def sizeof_dinode_def BSIZE_def FSSIZE_def)
  have ui: "unat i = 3 + n" unfolding i_def by (rule unat_small) (use f(2) small in \<open>simp add: n_def\<close>)
  have inums: "unat j \<le> argc \<Longrightarrow> iaddr j + sizeof_dinode \<le> root_start argc * BSIZE" for j :: u32
    by (rule iaddr_below_root)
  have io: "inum_ok i" by (rule inum_ok_table [of i argc]) (use ui f(2) rs fits in \<open>simp_all add: n_def\<close>)
  have fb: "unat (of_nat (file_start argc fs) :: u32) = file_start argc fs" "unat (of_nat (root_start argc) :: u32) = root_start argc"
    using fits rs by (simp_all add: unat_of_nat FSSIZE_def)
  have sz: "unat (of_nat ((3 + n) * sizeof_dirent) :: u32) = (3 + n) * sizeof_dirent"
    by (rule unat_small) (use f(2) small in \<open>simp add: n_def sizeof_dirent_def\<close>)
  have ent: "A + sizeof_dirent \<le> data_start argc * BSIZE"
    unfolding A_def by (rule data_start_entry) (use f(2) n_def in simp)
  have ds: "data_start argc * BSIZE \<le> F" unfolding F_def by (rule mult_le_mono1) (rule file_start_mono)
  have end_F: "F + length contents \<le> FSSIZE * BSIZE"
  proof -
    have "F + length contents \<le> (file_start argc fs + nblk (length contents)) * BSIZE"
      using ceil_div [of BSIZE "length contents"] by (simp add: F_def nblk_def distrib_right BSIZE_def)
    also have "\<dots> \<le> FSSIZE * BSIZE" using fits(1) by (rule mult_le_mono1)
    finally show ?thesis .
  qed
  have fr: "freeinode s = i" "freeblock s = of_nat (file_start argc fs)" "dinode_of ROOTINO s = root_dinode argc (3 + n)" "mk_ok s"
    using b by (simp_all add: built_def i_def n_def)
  have A: "unat (startblkno (di_data (dinode_of ROOTINO s))) * BSIZE + unat (di_size (dinode_of ROOTINO s)) = A"
    unfolding fr by (simp add: root_dinode_def A_def fb) (use sz in simp)
  have F: "unat (freeblock s) * BSIZE = F" unfolding fr by (simp add: F_def fb)
  have neq: "i \<noteq> j" if "unat j < 3 + n" for j using that ui by auto
  let ?R = "iregion i \<union> iregion ROOTINO \<union> {A..<A + sizeof_dirent} \<union> {F..<F + length contents}"
  have room: "iaddr i + sizeof_dinode \<le> A" "iaddr ROOTINO + sizeof_dinode \<le> A" "A + sizeof_dirent \<le> F"
    using inums [of i] inums [of ROOTINO] ui f(2) ent ds by (simp_all add: A_def n_def ROOTINO_def)
  have ner: "i \<noteq> ROOTINO" by (rule neq) (simp add: ROOTINO_def)
  obtain s' where s': "mk_file f s = Ret s'" "mk_ok s'" "freeinode s' = i + 1"
    "freeblock s' = freeblock s + of_nat (nblk (length contents))"
    "dinode_of i s' = file_dinode (freeblock s) (length contents)"
    "dinode_of ROOTINO s' = (root_dinode argc (3 + n))\<lparr>di_size := di_size (root_dinode argc (3 + n)) + of_nat sizeof_dirent\<rparr>"
    "bytes_at A sizeof_dirent (flat s') = enc_dirent (ucast i) (stored_name path)"
    "bytes_at F (length contents) (flat s') = contents" "changed ?R (flat s) (flat s')"
    using mk_file_spec [of s path contents] f(1) A F fr io room end_F ner unfolding ff by (auto simp: dinode_ok_consts)
  note keep = changed_bytes_at [OF s'(9)]
  have tab: "15 * BSIZE \<le> iaddr j" for j by (simp add: iaddr_def)
  have low: "bytes_at a k (flat s') = bytes_at a k (flat s)" if "a + k \<le> 15 * BSIZE" for a k
    by (rule keep) (use that tab [of i] tab [of ROOTINO] room in auto)
  have dir: "bytes_at a k (flat s') = bytes_at a k (flat s)" if "root_start argc * BSIZE \<le> a" "a + k \<le> A" for a k
    by (rule keep) (use that inums [of i] inums [of ROOTINO] ui f(2) room in \<open>auto simp: n_def ROOTINO_def\<close>)
  have data: "bytes_at a k (flat s') = bytes_at a k (flat s)" if "A + sizeof_dirent \<le> a" "a + k \<le> F" for a k
    by (rule keep) (use that room in auto)
  have ino: "dinode_of j s' = dinode_of j s" if "j \<noteq> i" "j \<noteq> ROOTINO" "unat j \<le> argc" for j
    by (rule dinode_of_cong [OF s'(9)])
       (use that inums [of j] room iregion_disjoint [of j] A_def in \<open>auto simp: Int_Un_distrib\<close>)
  have "holds_file argc (fs @ [f]) j s'" if j: "j < Suc n" for j
  proof (cases "j = n")
    case True
    then show ?thesis
      using s'(5,8) fr(2) by (simp add: holds_file_def n_def i_def F_def ff)
  next
    case False
    then have jn: "j < n" using j by simp
    let ?j = "of_nat (3 + j) :: u32"
    have uj: "unat ?j = 3 + j" by (rule unat_small) (use jn f(2) small in \<open>simp add: n_def\<close>)
    have "dinode_of ?j s' = dinode_of ?j s"
    proof (rule ino)
      have "unat ?j \<noteq> unat ROOTINO" "unat ?j \<noteq> unat i" unfolding uj ui using jn by (simp_all add: ROOTINO_def)
      then show "?j \<noteq> i" "?j \<noteq> ROOTINO" by metis+
      show "unat ?j \<le> argc" unfolding uj using jn f(2) by (simp add: n_def)
    qed
    moreover have "bytes_at (file_start argc (take j fs) * BSIZE) (length (snd (fs ! j))) (flat s')
      = bytes_at (file_start argc (take j fs) * BSIZE) (length (snd (fs ! j))) (flat s)"
    proof (rule data)
      have "data_start argc * BSIZE \<le> file_start argc (take j fs) * BSIZE" by (rule mult_le_mono1) (rule file_start_mono(2))
      with ent show "A + sizeof_dirent \<le> file_start argc (take j fs) * BSIZE" by linarith
      show "file_start argc (take j fs) * BSIZE + length (snd (fs ! j)) \<le> F"
        using file_end [of j fs argc] jn by (simp add: F_def n_def)
    qed
    moreover have "holds_file argc fs j s" using b jn by (simp add: built_def n_def)
    ultimately show ?thesis using jn by (simp add: holds_file_def n_def nth_append del: of_nat_add)
  qed
  moreover have "dinode_of INODETABLEINO s' = table_dinode argc" "dinode_of 2 s' = console_dinode"
    using ino [of INODETABLEINO] ino [of 2] neq [of INODETABLEINO] neq [of 2] b f(2)
    by (simp_all add: built_def INODETABLEINO_def ROOTINO_def) 
  moreover have "dinode_of ROOTINO s' = root_dinode argc (3 + Suc n)"
    using s'(6) by (simp add: root_dinode_def algebra_simps)
  moreover have "bytes_at (root_start argc * BSIZE) ((3 + Suc n) * sizeof_dirent) (flat s') = dir_bytes (fs @ [f])"
  proof -
    have "bytes_at (root_start argc * BSIZE) ((3 + n) * sizeof_dirent) (flat s') = dir_bytes fs"
      using dir [of "root_start argc * BSIZE" "(3 + n) * sizeof_dirent"] b by (simp add: built_def A_def n_def)
    moreover have "(3 + Suc n) * sizeof_dirent = (3 + n) * sizeof_dirent + sizeof_dirent"
      by (simp add: distrib_right)
    moreover have "ucast i = (of_nat (3 + n) :: u16)"
      unfolding i_def unsigned_of_nat by (simp add: word_of_nat_eq_iff del: of_nat_add)
    moreover have "dir_bytes (fs @ [f]) = dir_bytes fs @ enc_dirent (of_nat (3 + n)) (stored_name path)"
      by (auto simp: dir_bytes_def n_def ff nth_append intro!: arg_cong [of _ _ concat])
    ultimately show ?thesis using s'(7) by (simp only: bytes_at_add A_def)
  qed
  moreover have "bytes_at BSIZE 16 (flat s') = enc_superblock mk_sb"
    "bytes_at (2 * BSIZE) (13 * BSIZE) (flat s') = replicate (13 * BSIZE) 0"
    using low [of BSIZE 16] low [of "2 * BSIZE" "13 * BSIZE"] b by (simp_all add: built_def BSIZE_def)
  moreover have "freeinode s' = of_nat (3 + Suc n)" using s'(3) by (simp add: i_def)
  moreover have "freeblock s' = of_nat (file_start argc (fs @ [f]))" using s'(4) fr(2) by (simp add: file_start_append ff)
  ultimately show ?thesis using s'(1,2) by (simp add: built_def n_def)
qed

section \<open>The bitmap\<close>

definition marked :: "mk \<Rightarrow> nat \<Rightarrow> bool" where
  "marked s b \<longleftrightarrow> bit (img s ! (2 + b div BPB) ! (b mod BPB div 8)) (b mod 8)"

lemma set_bit_list:
  assumes "length b = n" "m < n * 8" "j < n * 8"
  shows "bit (b[m div 8 := b ! (m div 8) OR push_bit (m mod 8) (1 :: u8)] ! (j div 8)) (j mod 8)
    \<longleftrightarrow> bit (b ! (j div 8)) (j mod 8) \<or> j = m"
proof (cases "j div 8 = m div 8")
  case True
  then have "j = m \<longleftrightarrow> j mod 8 = m mod 8" by (metis div_mult_mod_eq)
  moreover have "m div 8 < length b" using assms by (simp add: less_mult_imp_div_less)
  moreover have "bit (push_bit (m mod 8) (1 :: u8)) (j mod 8) \<longleftrightarrow> j mod 8 = m mod 8" by (auto simp: bit_simps)
  ultimately show ?thesis using True by (simp only: nth_list_update_eq bit_or_iff)
qed (auto)

lemma bitmap_fold:
  fixes m :: nat
  defines "buf \<equiv> fold (\<lambda>i buf. buf[i div 8 := buf ! (i div 8) OR push_bit (i mod 8) 1]) [0..<m] (replicate BSIZE (0 :: u8))"
  assumes "m \<le> BSIZE * 8"
  shows "length buf = BSIZE \<and> (\<forall>j < BSIZE * 8. bit (buf ! (j div 8)) (j mod 8) \<longleftrightarrow> j < m)"
  using assms(2) unfolding assms(1)
proof (induction m)
  case 0
  then show ?case by (simp add: less_mult_imp_div_less)
next
  case (Suc m)
  let ?b = "fold (\<lambda>i buf. buf[i div 8 := buf ! (i div 8) OR push_bit (i mod 8) 1]) [0..<m] (replicate BSIZE (0 :: u8))"
  have IH: "length ?b = BSIZE" "\<And>j. j < BSIZE * 8 \<Longrightarrow> bit (?b ! (j div 8)) (j mod 8) \<longleftrightarrow> j < m" using Suc by simp_all
  have "bit ((?b[m div 8 := ?b ! (m div 8) OR push_bit (m mod 8) 1]) ! (j div 8)) (j mod 8) \<longleftrightarrow> j < Suc m"
    if "j < BSIZE * 8" for j
    using set_bit_list [OF IH(1) _ that, of m] Suc(2) IH(2) [OF that] by (simp only: less_Suc_eq)
  then show ?case using IH(1) by simp
qed

lemma bitmap_block_bits:
  "length (bitmap_block n) = BSIZE"
  "j < BSIZE * 8 \<Longrightarrow> bit (bitmap_block n ! (j div 8)) (j mod 8) \<longleftrightarrow> j < n"
  using bitmap_fold [of "min n (BSIZE * 8)"] by (auto simp: bitmap_block_def)

lemma mk_balloc_loop_spec:
  assumes "mk_ok s" "remaining \<le> (13 - k) * BPB" "k \<le> 13" "nbuf = of_nat k"
  shows "mk_ok (mk_balloc_loop remaining nbuf s) \<and>
    changed {2 * BSIZE..<15 * BSIZE} (flat s) (flat (mk_balloc_loop remaining nbuf s)) \<and>
    (\<forall>j. img (mk_balloc_loop remaining nbuf s) ! j =
       (if 2 + k \<le> j \<and> (j - 2 - k) * BPB < remaining then bitmap_block (remaining - (j - 2 - k) * BPB) else img s ! j))"
  using assms
proof (induction remaining nbuf s arbitrary: k rule: mk_balloc_loop.induct)
  case (1 remaining nbuf s)
  show ?case
  proof (cases "remaining = 0")
    case True
    then show ?thesis using 1(2) by (simp add: mk_balloc_loop.simps)
  next
    case False
    define sec where "sec = bmapstart mk_sb + nbuf"
    have k: "k < 13" using 1(3,4) False by (cases "k = 13") auto
    have sec: "unat sec = 2 + k" using k 1(5) by (simp add: sec_def mk_sb_def unat_word_ariths unat_of_nat)
    have lt: "unat sec < FSSIZE" using sec k by (simp add: FSSIZE_def)
    define t where "t = wsect sec (bitmap_block remaining) s"
    have len: "length (img s ! unat sec) = BSIZE" using 1(2) lt by (auto simp: mk_ok_def)
    then have t': "t = wsect sec (put_at 0 (bitmap_block remaining) (img s ! unat sec)) s"
      by (simp add: t_def put_at_def bitmap_block_bits)
    have t: "mk_ok t" "flat t = put_at (unat sec * BSIZE) (bitmap_block remaining) (flat s)"
      using wsect_put_at [OF 1(2) lt, of 0 "bitmap_block remaining"] by (simp_all add: t' bitmap_block_bits)
    have im: "img t = (img s)[2 + k := bitmap_block remaining]" using 1(2) lt sec by (simp add: t_def wsect_def mk_ok_def)
    have e: "mk_balloc_loop remaining nbuf s = mk_balloc_loop (remaining - BSIZE * 8) (nbuf + 1) t"
      using False by (subst mk_balloc_loop.simps) (simp add: t_def sec_def)
    have "13 - k = Suc (13 - Suc k)" using k by simp
    then have rem: "remaining - BSIZE * 8 \<le> (13 - Suc k) * BPB" using 1(3) by (simp add: BPB_def)
    have IH: "mk_ok (mk_balloc_loop remaining nbuf s)" "changed {2 * BSIZE..<15 * BSIZE} (flat t) (flat (mk_balloc_loop remaining nbuf s))"
      "\<And>j. img (mk_balloc_loop remaining nbuf s) ! j =
       (if 2 + Suc k \<le> j \<and> (j - 2 - Suc k) * BPB < remaining - BPB then bitmap_block (remaining - BPB - (j - 2 - Suc k) * BPB) else img t ! j)"
      using 1(1) [OF False t(1) [unfolded t_def sec_def], of "Suc k", folded sec_def t_def] rem k 1(5)
      unfolding e by (simp_all add: BPB_def)
    have "unat sec * BSIZE + length (bitmap_block remaining) \<le> length (flat s)"
      using lt 1(2) sec k by (simp add: bitmap_block_bits FSSIZE_def BSIZE_def)
    from changed_put_at [OF this] have "changed {2 * BSIZE..<15 * BSIZE} (flat s) (flat t)"
      unfolding t(2) by (rule changed_mono) (use sec k in \<open>auto simp: bitmap_block_bits BSIZE_def\<close>)
    from changed_trans [OF this IH(2)] have c: "changed {2 * BSIZE..<15 * BSIZE} (flat s) (flat (mk_balloc_loop remaining nbuf s))"
      by simp
    have "img (mk_balloc_loop remaining nbuf s) ! j =
       (if 2 + k \<le> j \<and> (j - 2 - k) * BPB < remaining then bitmap_block (remaining - (j - 2 - k) * BPB) else img s ! j)" for j
    proof -
      consider "j < 2 + k" | "j = 2 + k" | m where "j = 3 + k + m"
        using le_Suc_ex [of "3 + k" j] by force
      then show ?thesis
      proof cases
        case 3
        then show ?thesis by (simp add: IH(3) im algebra_simps less_diff_conv)
      qed (use False lt sec 1(2) in \<open>auto simp: IH(3) im mk_ok_def\<close>)
    qed
    then show ?thesis using IH(1) c by blast
  qed
qed

lemma mk_balloc_spec:
  assumes "mk_ok s" "n \<le> FSSIZE" "bytes_at (2 * BSIZE) (13 * BSIZE) (flat s) = replicate (13 * BSIZE) 0"
  shows "mk_ok (mk_balloc (int n) s)" "changed {2 * BSIZE..<15 * BSIZE} (flat s) (flat (mk_balloc (int n) s))"
    "b < FSSIZE \<Longrightarrow> marked (mk_balloc (int n) s) b \<longleftrightarrow> b < n"
proof -
  have "n \<le> (13 - 0) * BPB" using assms(2) by (simp add: FSSIZE_def BPB_def BSIZE_def)
  note l = mk_balloc_loop_spec [of s n 0 0, OF assms(1) this, simplified]
  show "mk_ok (mk_balloc (int n) s)" "changed {2 * BSIZE..<15 * BSIZE} (flat s) (flat (mk_balloc (int n) s))"
    using l by (simp_all add: mk_balloc_def)
  assume b: "b < FSSIZE"
  let ?q = "b div BPB" and ?r = "b mod BPB"
  have r: "?r < BSIZE * 8" "b = ?q * BPB + ?r" "?r mod 8 = b mod 8"
    by (simp_all add: BPB_def BSIZE_def mod_mod_cancel)
  have q: "?q < 13" using b by (simp add: FSSIZE_def BPB_def BSIZE_def)
  have i: "img (mk_balloc (int n) s) ! (2 + ?q) = (if ?q * BPB < n then bitmap_block (n - ?q * BPB) else img s ! (2 + ?q))"
    using l by (simp add: mk_balloc_def)
  show "marked (mk_balloc (int n) s) b \<longleftrightarrow> b < n"
  proof (cases "?q * BPB < n")
    case True
    then have "?r < n - ?q * BPB \<longleftrightarrow> b < n" using r(2) by linarith
    then show ?thesis
      using bitmap_block_bits(2) [OF r(1), of "n - ?q * BPB"] True r(3) unfolding marked_def i by simp
  next
    case False
    have w: "?r div 8 < BSIZE" using r(1) by (simp add: less_mult_imp_div_less)
    have "bytes_at (?r div 8) 1 (img s ! (2 + ?q)) = bytes_at ((2 + ?q) * BSIZE + ?r div 8) 1 (flat s)"
      unfolding flat_def
      by (rule concat_bytes_at) (use assms(1) q w in \<open>auto simp: mk_ok_def FSSIZE_def\<close>)
    also have "\<dots> = bytes_at (?q * BSIZE + ?r div 8) 1 (bytes_at (2 * BSIZE) (13 * BSIZE) (flat s))"
      using q w by (simp add: bytes_at_def drop_take min_def algebra_simps BSIZE_def)
    also have "\<dots> = [0]" using q w unfolding assms(3) by (simp add: bytes_at_def BSIZE_def)
    finally have "img s ! (2 + ?q) ! (?r div 8) = 0"
      using assms(1) q w by (simp add: bytes_at_def mk_ok_def FSSIZE_def take_Suc_conv_app_nth hd_drop_conv_nth take_Suc)
    moreover have "\<not> b < n" using False r(2) by linarith
    ultimately show ?thesis using False unfolding marked_def i by simp
  qed
qed

section \<open>mkfs\<close>

lemma built_init:
  assumes "data_start argc \<le> FSSIZE" "2 \<le> argc"
  obtains s3 where "obind (mk_inodetable argc (mk_format \<lparr>img = [], freeinode = 0, freeblock = 0\<rparr>))
    (\<lambda>s1. obind (mk_root argc s1) mk_console) = Ret s3" "built argc [] s3"
proof -
  define s0 where "s0 = mk_format \<lparr>img = [], freeinode = 0, freeblock = 0\<rparr>"
  note s0 = mk_format_spec [folded s0_def]
  define f where "f = root_start argc * BSIZE"
  have rs: "root_start argc \<le> FSSIZE" using assms(1) by (simp add: data_start_def)
  obtain s1 where s1: "mk_inodetable argc s0 = Ret s1" "mk_ok s1" "freeinode s1 = 1" "freeblock s1 = of_nat (root_start argc)"
    "dinode_of 0 s1 = table_dinode argc" "changed (iregion 0) (flat s0) (flat s1)"
    by (rule mk_inodetable_spec [OF s0(1,3,4) rs])
  obtain s2 where s2: "mk_root argc s1 = Ret s2" "mk_ok s2" "freeinode s2 = 2" "freeblock s2 = of_nat (data_start argc)"
    "dinode_of ROOTINO s2 = root_dinode argc 2"
    "bytes_at f (2 * sizeof_dirent) (flat s2) = enc_dirent 1 [46] @ enc_dirent 1 [46, 46]"
    "changed (iregion ROOTINO \<union> {f..<f + 2 * sizeof_dirent}) (flat s1) (flat s2)"
    by (rule mk_root_spec [OF s1(2-4) assms]) (simp add: f_def)
  obtain s3 where s3: "mk_console s2 = Ret s3" "mk_ok s3" "freeinode s3 = 3" "freeblock s3 = freeblock s2"
    "dinode_of 2 s3 = console_dinode" "dinode_of ROOTINO s3 = root_dinode argc 3"
    "bytes_at (f + 2 * sizeof_dirent) sizeof_dirent (flat s3) = enc_dirent 2 [99, 111, 110, 115, 111, 108, 101]"
    "changed (iregion 2 \<union> iregion ROOTINO \<union> {f + 2 * sizeof_dirent..<f + 2 * sizeof_dirent + sizeof_dirent}) (flat s2) (flat s3)"
    by (rule mk_console_spec [OF s2(2,3,5) assms, of "f + 2 * sizeof_dirent"]) (simp_all add: f_def)
  have below: "unat i \<le> 2 \<Longrightarrow> iaddr i + sizeof_dinode \<le> f" for i :: u32
    unfolding f_def by (rule iaddr_below_root) (use assms(2) in simp)
  have tab: "15 * BSIZE \<le> iaddr j" for j by (simp add: iaddr_def)
  note c12 = changed_trans [OF s2(7) s3(8)]
  note c = changed_trans [OF s1(6) c12]
  have low: "bytes_at a k (flat s3) = bytes_at a k (flat s0)" if "a + k \<le> 15 * BSIZE" for a k
    by (rule changed_bytes_at [OF c])
       (use that tab [of 0] tab [of 1] tab [of 2] below [of 0] in \<open>auto simp: ROOTINO_def\<close>)
  have "bytes_at BSIZE 16 (flat s0) = enc_superblock mk_sb"
    unfolding s0(2) by (rule bytes_at_put_at_same) (simp_all add: enc_superblock_def FSSIZE_def BSIZE_def)
  then have sb: "bytes_at BSIZE 16 (flat s3) = enc_superblock mk_sb"
    using low [of BSIZE 16] by (simp add: BSIZE_def)
  have "bytes_at (2 * BSIZE) (13 * BSIZE) (flat s0) = bytes_at (2 * BSIZE) (13 * BSIZE) (replicate (FSSIZE * BSIZE) 0)"
    unfolding s0(2) by (rule bytes_at_put_at_after) (simp_all add: enc_superblock_def FSSIZE_def BSIZE_def)
  then have bm: "bytes_at (2 * BSIZE) (13 * BSIZE) (flat s3) = replicate (13 * BSIZE) 0"
    using low [of "2 * BSIZE" "13 * BSIZE"] by (simp add: BSIZE_def bytes_at_def FSSIZE_def)
  have "iregion 0 \<inter> iregion ROOTINO = {}" "iregion 0 \<inter> iregion 2 = {}"
    by (rule iregion_disjoint, simp add: ROOTINO_def)+
  then have t0: "dinode_of 0 s3 = table_dinode argc"
    using dinode_of_cong [OF c12, of 0] below [of 0] s1(5) by (simp add: Int_Un_distrib)
  have "bytes_at f (2 * sizeof_dirent) (flat s3) = enc_dirent 1 [46] @ enc_dirent 1 [46, 46]"
    using changed_bytes_at [OF s3(8), of f "2 * sizeof_dirent"] below [of 2] below [of ROOTINO] s2(6)
    by (simp add: Int_Un_distrib ROOTINO_def)
  then have d: "bytes_at f (3 * sizeof_dirent) (flat s3) = dir_bytes []"
    using bytes_at_add [of f "2 * sizeof_dirent" sizeof_dirent "flat s3"] s3(7) by (simp add: dir_bytes_def)
  show thesis
    by (rule that [of s3]) (use s1 s2 s3 t0 sb bm d in \<open>simp_all add: built_def file_start_def INODETABLEINO_def f_def flip: s0_def\<close>)
qed

lemma built_files:
  assumes "built argc done s" "\<forall>f\<in>set fs. path_ok (fst f)" "length done + length fs + 2 \<le> argc"
    "file_start argc (done @ fs) \<le> FSSIZE"
  shows "\<exists>s'. ofold mk_file fs s = Ret s' \<and> built argc (done @ fs) s'"
  using assms
proof (induction fs arbitrary: "done" s)
  case (Cons f fs)
  have "file_start argc (done @ [f]) \<le> FSSIZE"
    using Cons.prems(4) file_start_mono(1) [of argc "Suc (length done)" "done @ f # fs"] by simp
  then obtain t where "mk_file f s = Ret t" "built argc (done @ [f]) t"
    using built_step [OF Cons.prems(1), of f] Cons.prems(2,3) by auto
  then show ?case using Cons.IH [of "done @ [f]" t] Cons.prems by simp
qed simp

lemma built_keep:
  assumes b: "built argc fs s" and c: "changed (iregion ROOTINO \<union> {2 * BSIZE..<15 * BSIZE}) (flat s) (flat s')"
    and n: "length fs + 2 \<le> argc" "file_start argc fs \<le> FSSIZE"
  shows "dinode_of INODETABLEINO s' = table_dinode argc" "dinode_of 2 s' = console_dinode"
    "bytes_at (root_start argc * BSIZE) ((3 + length fs) * sizeof_dirent) (flat s') = dir_bytes fs"
    "bytes_at BSIZE 16 (flat s') = enc_superblock mk_sb" "j < length fs \<Longrightarrow> holds_file argc fs j s'"
proof -
  have tab: "15 * BSIZE \<le> iaddr j" for j by (simp add: iaddr_def)
  have up: "iaddr ROOTINO + sizeof_dinode \<le> root_start argc * BSIZE" by (rule iaddr_below_root) (use n(1) in \<open>simp add: ROOTINO_def\<close>)
  have ino: "dinode_of i s' = dinode_of i s" if "i \<noteq> ROOTINO" for i
    by (rule dinode_of_cong [OF c]) (use iregion_disjoint [OF that] tab [of i] in \<open>auto simp: Int_Un_distrib\<close>)
  have data: "bytes_at a k (flat s') = bytes_at a k (flat s)" if "root_start argc * BSIZE \<le> a" for a k
    by (rule changed_bytes_at [OF c]) (use that up tab [of ROOTINO] in auto)
  show "dinode_of INODETABLEINO s' = table_dinode argc" "dinode_of 2 s' = console_dinode"
    using b ino [of INODETABLEINO] ino [of 2] by (simp_all add: built_def ROOTINO_def INODETABLEINO_def)
  show "bytes_at (root_start argc * BSIZE) ((3 + length fs) * sizeof_dirent) (flat s') = dir_bytes fs"
    using b data by (simp add: built_def)
  show "bytes_at BSIZE 16 (flat s') = enc_superblock mk_sb"
    using b changed_bytes_at [OF c, of BSIZE 16] tab [of ROOTINO] by (simp add: built_def Int_Un_distrib BSIZE_def)
  assume j: "j < length fs"
  have "root_start argc \<le> file_start argc (take j fs)"
    using file_start_mono(2) [of argc "take j fs"] by (simp add: data_start_def)
  then have "root_start argc * BSIZE \<le> file_start argc (take j fs) * BSIZE" by (rule mult_le_mono1)
  moreover have "argc < 2 ^ 20"
    using table_fits [of argc] file_start_mono(2) [of argc fs] n(2)
    by (simp add: data_start_def root_start_def sizeof_dinode_def BSIZE_def FSSIZE_def)
  then have "unat (of_nat (3 + j) :: u32) = 3 + j" using j n(1) by (rule_tac unat_small) simp
  then have "of_nat (3 + j) \<noteq> ROOTINO" by (metis ROOTINO_def unat_1 add_eq_if numeral_3_eq_3 add_Suc nat.inject Suc_neq_Zero One_nat_def)
  ultimately show "holds_file argc fs j s'"
    using b j ino data by (simp add: built_def holds_file_def Let_def del: of_nat_add)
qed

text \<open>
  C1. For input files with admissible names that fit on the disk, \<open>mkfs\<close> succeeds and writes an image
  on which the kernel's own decoders find: the superblock in sector 1; the inode table, the root directory and
  the console device under inode numbers 0, 1 and 2; the root directory's contents, one entry per name; for the
  \<open>j\<close>-th file an inode whose extent holds exactly the contents of the file; and a bitmap in which exactly
  the blocks below the end of the last file are marked.
\<close>

theorem mkfs_image:
  fixes files :: "input list"
  defines "argc \<equiv> length files + 2"
  assumes "\<forall>f\<in>set files. path_ok (fst f)" "file_start argc files \<le> FSSIZE"
  shows "\<exists>s. mkfs files = Ret s \<and> mk_ok s \<and>
    dec_superblock (bytes_at BSIZE 16 (flat s)) = mk_sb \<and>
    dinode_of INODETABLEINO s = table_dinode argc \<and> dinode_of ROOTINO s = root_dinode argc (3 + length files) \<and>
    dinode_of 2 s = console_dinode \<and>
    bytes_at (root_start argc * BSIZE) ((3 + length files) * sizeof_dirent) (flat s) = dir_bytes files \<and>
    (\<forall>j < length files. holds_file argc files j s) \<and>
    (\<forall>b < FSSIZE. marked s b \<longleftrightarrow> b < file_start argc files)"
proof -
  have ds: "data_start argc \<le> FSSIZE" using assms(3) file_start_mono(2) [of argc files] by linarith
  obtain s3 where s3: "obind (mk_inodetable argc (mk_format \<lparr>img = [], freeinode = 0, freeblock = 0\<rparr>))
    (\<lambda>s1. obind (mk_root argc s1) mk_console) = Ret s3" "built argc [] s3"
    by (rule built_init [OF ds]) (simp add: argc_def)
  obtain s4 where s4: "ofold mk_file files s3 = Ret s4" "built argc files s4"
    using built_files [OF s3(2) assms(2)] assms(3) by (auto simp: argc_def)
  have io: "inum_ok ROOTINO" by (rule inum_ok_table [of _ argc]) (use ds in \<open>simp_all add: data_start_def ROOTINO_def argc_def\<close>)
  have ok4: "mk_ok s4" "dinode_of ROOTINO s4 = root_dinode argc (3 + length files)"
    "freeblock s4 = of_nat (file_start argc files)" using s4(2) by (simp_all add: built_def)
  obtain s5 where s5: "winode ROOTINO (root_dinode argc (3 + length files)) s4 = Ret s5" "mk_ok s5"
    "dinode_of ROOTINO s5 = root_dinode argc (3 + length files)" "changed (iregion ROOTINO) (flat s4) (flat s5)"
    "freeblock s5 = of_nat (file_start argc files)"
    using winode_spec [OF ok4(1) io dinode_ok_consts(2)] ok4(3) by metis
  have tab: "15 * BSIZE \<le> iaddr j" for j by (simp add: iaddr_def)
  have z: "bytes_at (2 * BSIZE) (13 * BSIZE) (flat s5) = replicate (13 * BSIZE) 0"
    using changed_bytes_at [OF s5(4), of "2 * BSIZE" "13 * BSIZE"] tab [of ROOTINO] s4(2) by (simp add: built_def)
  have fb: "sint (of_nat (file_start argc files) :: u32) = int (file_start argc files)"
    using assms(3) sint_sbintrunc' [of "int (file_start argc files)", where ?'a = 32]
    by (simp add: signed_take_bit_int_eq_self FSSIZE_def)
  define s6 where "s6 = mk_balloc (int (file_start argc files)) s5"
  note s6 = mk_balloc_spec [OF s5(2) assms(3) z, folded s6_def]
  have c: "changed (iregion ROOTINO \<union> {2 * BSIZE..<15 * BSIZE}) (flat s4) (flat s6)"
    by (rule changed_trans [OF s5(4) s6(2)])
  note k = built_keep [OF s4(2) c _ assms(3)]
  have "(root_dinode argc (3 + length files))\<lparr>di_size := of_nat (rootdir_size argc)\<rparr> = root_dinode argc (3 + length files)"
    by (simp add: root_dinode_def rootdir_size_def argc_def distrib_right add.commute)
  then have "mkfs files = Ret s6"
    using s3(1) s4(1) s5(1,5) ok4 io fb unfolding mkfs_def Let_def argc_def [symmetric] by (auto simp: s6_def)
  moreover have "dinode_of ROOTINO s6 = root_dinode argc (3 + length files)"
    using dinode_of_cong [OF s6(2), of ROOTINO] tab [of ROOTINO] s5(3) by simp
  moreover have "dec_superblock (bytes_at BSIZE 16 (flat s6)) = mk_sb"
    using k(4) dec_enc_superblock [of mk_sb "[]"] by (simp add: argc_def)
  ultimately show ?thesis using k s6 by (simp add: argc_def)
qed

definition demo_inputs :: "input list" where
  "demo_inputs = [(out_user @ [95, 99, 97, 116], replicate 700 7), (out_user @ [97], [1, 2, 3])]"

lemma demo_inputs_length: "length demo_inputs = 2"
  by (simp add: demo_inputs_def)

lemma demo_inputs_paths: "\<forall>f\<in>set demo_inputs. path_ok (fst f)"
  by (simp add: demo_inputs_def) code_simp

lemma demo_inputs_fit: "file_start (length demo_inputs + 2) demo_inputs \<le> FSSIZE"
  by (simp add: demo_inputs_def file_start_def data_start_def root_start_def nmeta_15 inodetableblkn_def rootdir_blocks_def
      rootdir_size_def IPB_def sizeof_dinode_def sizeof_dirent_def BSIZE_def FSSIZE_def nblk_def Let_def)

theorem mkfs_image_witness:
  "\<exists>s. mkfs demo_inputs = Ret s \<and> holds_file 4 demo_inputs 1 s"
  using mkfs_image [OF demo_inputs_paths demo_inputs_fit] by (auto simp: demo_inputs_length)

end
