(* ===== verification/Grep.thy ===== *)
theory Grep
  imports Prelude
begin

text \<open>
  \<open>user/grep.c\<close>: the pattern matcher and the loop that splits the input into lines.  Strings are lists of
  bytes without their terminating zero, which is what reading at the end of the list gives.

  The matcher is shown to decide the language of its pattern, and the loop to print exactly the matching lines
  as long as every read delivers the end of some line.
\<close>

section \<open>The matcher\<close>

definition at :: "u8 list \<Rightarrow> nat \<Rightarrow> u8" where
  "at t k = (if k < length t then t ! k else 0)"

lemma at_Nil [simp]: "at [] k = 0"
  by (simp add: at_def)

lemma at_Cons [simp]: "at (x # t) 0 = x" "at (x # t) (Suc k) = at t k"
  by (simp_all add: at_def)

function matchhere :: "u8 list \<Rightarrow> u8 list \<Rightarrow> bool" and matchstar :: "u8 \<Rightarrow> u8 list \<Rightarrow> u8 list \<Rightarrow> bool" where
  "matchhere re t =
     (if at re 0 = 0 then True
      else if at re 1 = 42 then matchstar (at re 0) (drop 2 re) t
      else if at re 0 = 36 \<and> at re 1 = 0 then at t 0 = 0
      else if at t 0 \<noteq> 0 \<and> (at re 0 = 46 \<or> at re 0 = at t 0) then matchhere (drop 1 re) (drop 1 t)
      else False)"
| "matchstar c re t =
     (if matchhere re t then True
      else if at t 0 \<noteq> 0 \<and> (at t 0 = c \<or> c = 46) then matchstar c re (drop 1 t)
      else False)"
  by pat_completeness auto
termination
  by (relation "measure (\<lambda>x. case x of Inl (re, t) \<Rightarrow> 2 * (length re + length t) | Inr (c, re, t) \<Rightarrow> 2 * (length re + length t) + 1)")
     (auto simp: at_def neq_Nil_conv split: if_splits)

declare matchhere.simps [simp del] matchstar.simps [simp del]

function match_loop :: "u8 list \<Rightarrow> u8 list \<Rightarrow> bool" where
  "match_loop re t =
     (if matchhere re t then True else if at t 0 \<noteq> 0 then match_loop re (drop 1 t) else False)"
  by pat_completeness auto
termination by (relation "measure (\<lambda>(re, t). length t)") (auto simp: at_def split: if_splits)

declare match_loop.simps [simp del]

definition match_re :: "u8 list \<Rightarrow> u8 list \<Rightarrow> bool" where
  "match_re re t = (if at re 0 = 94 then matchhere (drop 1 re) t else match_loop re t)"

section \<open>Lines\<close>

text \<open>The complete lines of the buffer that match, and what is left behind the last of them.\<close>

definition nl_at :: "u8 list \<Rightarrow> nat" where
  "nl_at d = length (takeWhile (\<lambda>b. b \<noteq> 10 \<and> b \<noteq> 0) d)"

function grep_scan :: "u8 list \<Rightarrow> u8 list \<Rightarrow> u8 list list \<times> u8 list" where
  "grep_scan pat d =
     (if at d (nl_at d) = 10
      then case grep_scan pat (drop (nl_at d + 1) d) of (ws, rest) \<Rightarrow>
        (if match_re pat (take (nl_at d) d) then take (nl_at d + 1) d # ws else ws, rest)
      else ([], d))"
  by pat_completeness auto
termination by (relation "measure (\<lambda>(pat, d). length d)") (auto simp: at_def split: if_splits)

declare grep_scan.simps [simp del]

text \<open>One round with the bytes kept from the last one and those just read, and the loop over the reads.\<close>

definition grep_round :: "u8 list \<Rightarrow> u8 list \<Rightarrow> u8 list \<Rightarrow> u8 list list \<times> u8 list" where
  "grep_round pat kept chunk =
     (case grep_scan pat (kept @ chunk) of (ws, rest) \<Rightarrow>
        (ws, if length rest = length (kept @ chunk) then [] else rest))"

primrec grep :: "u8 list \<Rightarrow> u8 list list \<Rightarrow> u8 list \<Rightarrow> u8 list list" where
  "grep pat [] kept = []"
| "grep pat (chunk # chunks) kept = (case grep_round pat kept chunk of (ws, kept') \<Rightarrow> ws @ grep pat chunks kept')"

section \<open>The language of a pattern\<close>

datatype item = One u8 | Rep u8 | Eol

fun items :: "u8 list \<Rightarrow> item list" where
  "items [] = []"
| "items [c] = [if c = 36 then Eol else One c]"
| "items (c # d # r) = (if d = 42 then Rep c # items r else One c # items (d # r))"

definition fits :: "u8 \<Rightarrow> u8 \<Rightarrow> bool" where
  "fits c x \<longleftrightarrow> c = 46 \<or> c = x"

text \<open>\<open>lang is u v\<close>: the items match \<open>u\<close>, with \<open>v\<close> behind it.\<close>

inductive lang :: "item list \<Rightarrow> u8 list \<Rightarrow> u8 list \<Rightarrow> bool" where
  Empty: "lang [] [] v"
| One: "fits c x \<Longrightarrow> lang r u v \<Longrightarrow> lang (One c # r) (x # u) v"
| Rep: "\<forall>x\<in>set w. fits c x \<Longrightarrow> lang r u v \<Longrightarrow> lang (Rep c # r) (w @ u) v"
| Eol: "lang [Eol] [] []"

inductive_simps lang_Nil [simp]: "lang [] u v"
inductive_simps lang_One: "lang (One c # r) u v"
inductive_simps lang_Rep: "lang (Rep c # r) u v"
inductive_simps lang_Eol [simp]: "lang [Eol] u v"

definition starts :: "item list \<Rightarrow> u8 list \<Rightarrow> bool" where
  "starts r t \<longleftrightarrow> (\<exists>u v. t = u @ v \<and> lang r u v)"

lemma starts_Nil [simp]: "starts [] t"
  by (simp add: starts_def)

lemma starts_Eol [simp]: "starts [Eol] t \<longleftrightarrow> t = []"
  by (simp add: starts_def)

lemma starts_One: "starts (One c # r) t \<longleftrightarrow> (\<exists>x t'. t = x # t' \<and> fits c x \<and> starts r t')"
  unfolding starts_def lang_One by (auto simp: append_eq_Cons_conv) (metis append_Cons)+

lemma starts_Rep: "starts (Rep c # r) t \<longleftrightarrow> (\<exists>w t'. t = w @ t' \<and> (\<forall>x\<in>set w. fits c x) \<and> starts r t')"
  unfolding starts_def lang_Rep by (metis append.assoc)

lemma starts_Rep_step:
  "starts (Rep c # r) t \<longleftrightarrow> starts r t \<or> (\<exists>x t'. t = x # t' \<and> fits c x \<and> starts (Rep c # r) t')"
proof
  assume "starts (Rep c # r) t"
  then obtain w t' where w: "t = w @ t'" "\<forall>x\<in>set w. fits c x" "starts r t'" unfolding starts_Rep by blast
  then show "starts r t \<or> (\<exists>x t'. t = x # t' \<and> fits c x \<and> starts (Rep c # r) t')"
    by (cases w) (auto simp: starts_Rep)
next
  assume "starts r t \<or> (\<exists>x t'. t = x # t' \<and> fits c x \<and> starts (Rep c # r) t')"
  then show "starts (Rep c # r) t"
  proof
    assume "starts r t"
    then show ?thesis unfolding starts_Rep by (intro exI [of _ "[]"] exI [of _ t]) simp
  next
    assume "\<exists>x t'. t = x # t' \<and> fits c x \<and> starts (Rep c # r) t'"
    then obtain x w t' where "t = x # w @ t'" "fits c x" "\<forall>y\<in>set w. fits c y" "starts r t'" unfolding starts_Rep by blast
    then show ?thesis unfolding starts_Rep by (intro exI [of _ "x # w"] exI [of _ t']) auto
  qed
qed

lemma at_0_nonzero: "0 \<notin> set t \<Longrightarrow> at t 0 = 0 \<longleftrightarrow> t = []"
  by (cases t) auto

lemma matchhere_starts:
  "0 \<notin> set re \<Longrightarrow> 0 \<notin> set t \<Longrightarrow> matchhere re t \<longleftrightarrow> starts (items re) t"
  "0 \<notin> set re' \<Longrightarrow> 0 \<notin> set t' \<Longrightarrow> matchstar c re' t' \<longleftrightarrow> starts (Rep c # items re') t'"
proof (induction re t and c re' t' rule: matchhere_matchstar.induct)
  case (1 re t)
  consider "re = []" | c where "re = [c]" | c d r where "re = c # d # r" by (metis neq_Nil_conv)
  then show ?case
  proof cases
    case 1
    then show ?thesis by (simp add: matchhere.simps)
  next
    case 2
    then show ?thesis using 1 by (subst matchhere.simps, cases t) (auto simp: starts_One fits_def)
  next
    case 3
    then show ?thesis using 1 by (subst matchhere.simps, cases t) (auto simp: starts_One fits_def)
  qed
next
  case (2 c re t)
  then show ?case
    by (subst matchstar.simps, subst starts_Rep_step, cases t) (auto simp: fits_def)
qed

lemma match_loop_suffix: "0 \<notin> set t \<Longrightarrow> match_loop re t \<longleftrightarrow> (\<exists>s u. t = s @ u \<and> matchhere re u)"
proof (induction re t rule: match_loop.induct)
  case (1 re t)
  show ?case
  proof (cases t)
    case Nil
    then show ?thesis by (simp add: match_loop.simps)
  next
    case (Cons x t')
    then have "match_loop re t \<longleftrightarrow> matchhere re t \<or> (\<exists>s u. t' = s @ u \<and> matchhere re u)"
      using 1 by (subst match_loop.simps) auto
    then show ?thesis by (auto simp: Cons Cons_eq_append_conv)
  qed
qed

text \<open>
  C5. The matcher decides the language of the pattern: a pattern that begins with \<open>^\<close> matches a text exactly
  when the rest of the pattern describes a prefix of the text, any other pattern exactly when it describes some part
  of it.
\<close>

theorem match_decides_language:
  assumes "0 \<notin> set re" "0 \<notin> set t"
  shows "match_re re t \<longleftrightarrow>
    (if re \<noteq> [] \<and> hd re = 94 then \<exists>u v. t = u @ v \<and> lang (items (tl re)) u v
     else \<exists>s u v. t = s @ u @ v \<and> lang (items re) u v)"
proof (cases "re \<noteq> [] \<and> hd re = 94")
  case True
  then have "at re 0 = 94" "drop 1 re = tl re" "0 \<notin> set (tl re)" using assms(1) by (cases re; simp)+
  then show ?thesis using True assms(2) by (simp add: match_re_def matchhere_starts starts_def)
next
  case False
  then have "at re 0 \<noteq> 94" by (cases re) auto
  moreover have "matchhere re u \<longleftrightarrow> starts (items re) u" if "t = s @ u" for s u
    using that assms by (intro matchhere_starts) auto
  then have "(\<exists>s u. t = s @ u \<and> matchhere re u) \<longleftrightarrow> (\<exists>s u. t = s @ u \<and> starts (items re) u)" by metis
  ultimately have "match_re re t \<longleftrightarrow> (\<exists>s u. t = s @ u \<and> starts (items re) u)"
    using assms(2) by (simp add: match_re_def match_loop_suffix)
  also have "\<dots> \<longleftrightarrow> (\<exists>s u v. t = s @ u @ v \<and> lang (items re) u v)" unfolding starts_def by metis
  finally show ?thesis using False by argo
qed

theorem match_decides_language_witness:
  "match_re [97, 46, 42, 98, 36] [120, 97, 99, 98] \<and>
   (\<exists>s u v. [120, 97, 99, 98] = s @ u @ v \<and> lang (items [97, 46, 42, 98, 36]) u v)"
proof -
  have "match_re [97, 46, 42, 98, 36] [120, 97, 99, 98]" by code_simp
  then show ?thesis using match_decides_language [of "[97, 46, 42, 98, 36]" "[120, 97, 99, 98]"] by simp
qed

section \<open>Printing the matching lines\<close>

text \<open>The complete lines of the input and the bytes behind the last of them.\<close>

fun lines_of :: "u8 list \<Rightarrow> u8 list \<Rightarrow> u8 list list \<times> u8 list" where
  "lines_of acc [] = ([], acc)"
| "lines_of acc (b # bs) =
     (if b = 10 then case lines_of [] bs of (ls, r) \<Rightarrow> (acc # ls, r) else lines_of (acc @ [b]) bs)"

definition wanted :: "u8 list \<Rightarrow> u8 list list \<Rightarrow> u8 list list" where
  "wanted pat ls = map (\<lambda>l. l @ [10]) (filter (match_re pat) ls)"

lemma lines_of_acc: "10 \<notin> set p \<Longrightarrow> lines_of acc (p @ bs) = lines_of (acc @ p) bs"
  by (induction p arbitrary: acc) auto

lemma lines_of_app:
  "lines_of acc (xs @ ys) = (case lines_of acc xs of (ls, r) \<Rightarrow> case lines_of r ys of (ls', r') \<Rightarrow> (ls @ ls', r'))"
  by (induction acc xs rule: lines_of.induct) (auto split: prod.splits)

lemma nl_at_split:
  assumes "0 \<notin> set d" "10 \<in> set d"
  shows "at d (nl_at d) = 10" "10 \<notin> set (take (nl_at d) d)"
    "d = take (nl_at d) d @ 10 # drop (nl_at d + 1) d" "nl_at d < length d"
proof -
  obtain p q where d: "d = p @ 10 # q" "10 \<notin> set p" using assms(2) by (meson split_list_first)
  then have "takeWhile (\<lambda>b. b \<noteq> 10 \<and> b \<noteq> 0) d = p" using assms(1) by (auto simp: takeWhile_append)
  then have "nl_at d = length p" by (simp add: nl_at_def)
  then show "at d (nl_at d) = 10" "10 \<notin> set (take (nl_at d) d)" "d = take (nl_at d) d @ 10 # drop (nl_at d + 1) d" "nl_at d < length d"
    using d by (simp_all add: at_def)
qed

lemma nl_at_none: "10 \<notin> set d \<Longrightarrow> at d (nl_at d) \<noteq> 10"
proof
  assume d: "10 \<notin> set d" and a: "at d (nl_at d) = 10"
  then have "nl_at d < length d" "d ! nl_at d = 10" by (auto simp: at_def split: if_splits)
  then have "10 \<in> set d" using nth_mem by metis
  with d show False by simp
qed

lemma grep_scan_lines:
  "0 \<notin> set d \<Longrightarrow> lines_of [] d = (ls, r) \<Longrightarrow> grep_scan pat d = (wanted pat ls, r) \<and> (10 \<in> set d \<longrightarrow> length r < length d)"
proof (induction pat d arbitrary: ls r rule: grep_scan.induct)
  case (1 pat d)
  show ?case
  proof (cases "10 \<in> set d")
    case True
    define p q where "p = take (nl_at d) d" and "q = drop (nl_at d + 1) d"
    note n = nl_at_split [OF 1(2) True, folded p_def q_def]
    obtain ls' where ls: "lines_of [] q = (ls', r)" "ls = p # ls'"
      using 1(3) lines_of_acc [OF n(2), of "[]" "10 # q"] n(3) by (auto split: prod.splits)
    have "0 \<notin> set q" using 1(2) n(3) by (metis Un_iff set_append list.set_intros(2))
    then have IH: "grep_scan pat q = (wanted pat ls', r) \<and> (10 \<in> set q \<longrightarrow> length r < length q)"
      using 1(1) [OF n(1)] ls(1) by (simp add: q_def)
    have "take (nl_at d + 1) d = p @ [10]" using n(1,4) by (simp add: take_Suc_conv_app_nth p_def at_def)
    moreover have "length r \<le> length q"
      using IH lines_of_acc [of q "[]" "[]"] ls(1) by (cases "10 \<in> set q") auto
    moreover have "length q < length d" using n(4) by (simp add: q_def)
    ultimately show ?thesis
      using n(1) IH ls(2) by (subst grep_scan.simps) (simp add: wanted_def p_def q_def)
  next
    case False
    then have "ls = []" "r = d" using 1(3) lines_of_acc [of d "[]" "[]"] by auto
    then show ?thesis using False nl_at_none by (subst grep_scan.simps) (simp add: wanted_def)
  qed
qed

text \<open>
  C29. If no zero byte is read and every read delivers at least one line end, \<open>grep\<close> prints exactly the
  complete lines that match, in order and each with its line end, however the input is cut into reads.
\<close>

theorem grep_prints_matching_lines:
  assumes "\<forall>c\<in>set chunks. 0 \<notin> set c \<and> 10 \<in> set c"
  shows "grep pat chunks [] = wanted pat (fst (lines_of [] (concat chunks)))"
proof -
  have "grep pat chunks kept = wanted pat (fst (lines_of kept (concat chunks)))"
    if "\<forall>c\<in>set chunks. 0 \<notin> set c \<and> 10 \<in> set c" "0 \<notin> set kept" "10 \<notin> set kept" for chunks kept
    using that
  proof (induction chunks arbitrary: kept)
    case (Cons c chunks)
    obtain ls r where l: "lines_of [] (kept @ c) = (ls, r)" by (cases "lines_of [] (kept @ c)")
    have s: "grep_scan pat (kept @ c) = (wanted pat ls, r)" "length r < length (kept @ c)"
      using grep_scan_lines [of "kept @ c" ls r pat] l Cons.prems by auto
    have r: "0 \<notin> set r \<and> 10 \<notin> set r"
    proof -
      have "lines_of acc bs = (ls, r) \<Longrightarrow> 10 \<notin> set acc \<Longrightarrow> 0 \<notin> set acc \<Longrightarrow> 0 \<notin> set bs \<Longrightarrow> 0 \<notin> set r \<and> 10 \<notin> set r"
        for acc bs ls r
        by (induction acc bs arbitrary: ls rule: lines_of.induct) (auto split: if_splits prod.splits)
      then show ?thesis using l Cons.prems by auto
    qed
    have k: "lines_of kept c = (ls, r)" using l lines_of_acc [OF Cons.prems(3), of "[]" c] by simp
    show ?case
      using Cons.IH [of r] Cons.prems(1) s r k
      by (auto simp: grep_round_def lines_of_app wanted_def split: prod.splits)
  qed (simp add: wanted_def)
  from this [of chunks "[]"] assms show ?thesis by simp
qed

theorem grep_prints_matching_lines_witness:
  "grep [97] [[97, 10, 98], [97, 10]] [] = [[97, 10], [98, 97, 10]]"
proof -
  have "wanted [97] (fst (lines_of [] (concat [[97, 10, 98], [97, 10]]))) = [[97, 10], [98, 97, 10]]" by code_simp
  then show ?thesis using grep_prints_matching_lines [of "[[97, 10, 98], [97, 10]]" "[97]"] by simp
qed

text \<open>
  C33. The condition on the reads is needed: a read that delivers no line end while nothing is buffered is
  dropped altogether, so that a line arriving in two reads is matched and printed without its beginning.
\<close>

theorem grep_drops_partial_line:
  assumes "10 \<notin> set c"
  shows "grep pat (c # chunks) [] = grep pat chunks []"
  using nl_at_none [OF assms] by (simp add: grep_round_def grep_scan.simps)

theorem grep_drops_partial_line_witness:
  "grep [97] [[97], [98, 10]] [] = [] \<and> wanted [97] (fst (lines_of [] (concat [[97], [98, 10]]))) = [[97, 98, 10]]"
proof -
  have "grep [97] [[98, 10]] [] = []" by code_simp
  moreover have "wanted [97] (fst (lines_of [] (concat [[97], [98, 10]]))) = [[97, 98, 10]]" by code_simp
  ultimately show ?thesis using grep_drops_partial_line [of "[97]" "[97]" "[[98, 10]]"] by simp
qed

end
