(* ===== verification/Sh.thy ===== *)
theory Sh
  imports Layout
begin

text \<open>
  The command parser of the shell, \<open>user/sh.c\<close>.  The line is a list of bytes without zeros; pointers into it are
  positions, and reading at its end gives the terminating zero.  A word is kept as its start and end positions,
  as in the source, and \<open>nulterminate\<close> writes the zeros into the line.  Allocation of the nodes is
  taken to succeed (otherwise the shell process exits with a message, as it does on a syntax error).

  The lemmas show that parsing always ends, that the strings seen through the start pointers after
  \<open>nulterminate\<close> are the words of the line, and that every command is the result of parsing its printed form.
\<close>

section \<open>Tokens\<close>

definition whitespace :: "u8 list" where "whitespace = [32, 9, 13, 10, 11]"
definition symbols :: "u8 list" where "symbols = [60, 124, 62, 38, 59, 40, 41]"
definition MAXARGS :: nat where "MAXARGS = 10"

definition ch :: "u8 list \<Rightarrow> nat \<Rightarrow> u8" where
  "ch buf p = (if p < length buf then buf ! p else 0)"

text \<open>Advance while the predicate holds and the end is not reached.\<close>

definition skip_while :: "(u8 \<Rightarrow> bool) \<Rightarrow> u8 list \<Rightarrow> nat \<Rightarrow> nat" where
  "skip_while f buf p = p + length (takeWhile f (drop p buf))"

definition skip_ws :: "u8 list \<Rightarrow> nat \<Rightarrow> nat" where
  "skip_ws buf p = skip_while (\<lambda>c. c \<in> set whitespace) buf p"

definition word_char :: "u8 \<Rightarrow> bool" where
  "word_char c \<longleftrightarrow> c \<notin> set whitespace \<and> c \<notin> set symbols"

text \<open>The token, its start and end, and the new position.\<close>

definition gettoken :: "u8 list \<Rightarrow> nat \<Rightarrow> u8 \<times> nat \<times> nat \<times> nat" where
  "gettoken buf ps =
     (let q = skip_ws buf ps; c = ch buf q;
          (ret, eq) =
            (if c = 0 then (0, q)
             else if c \<in> {124, 40, 41, 59, 38, 60} then (c, q + 1)
             else if c = 62 then (if ch buf (q + 1) = 62 then (43, q + 2) else (62, q + 1))
             else (97, skip_while word_char buf q))
      in (ret, q, eq, skip_ws buf eq))"

definition peek :: "u8 list \<Rightarrow> nat \<Rightarrow> u8 list \<Rightarrow> bool \<times> nat" where
  "peek buf ps toks = (let p = skip_ws buf ps in (ch buf p \<noteq> 0 \<and> ch buf p \<in> set toks, p))"

section \<open>Commands\<close>

text \<open>Commands over some representation of words: the parser uses pairs of positions.\<close>

datatype 'w command =
    EXEC "'w list"
  | REDIR "'w command" 'w int int
  | PIPE "'w command" "'w command"
  | LIST "'w command" "'w command"
  | BACK "'w command"

type_synonym cmd = "(nat \<times> nat) command"

lemma takeWhile_pos: "xs \<noteq> [] \<Longrightarrow> f (hd xs) \<Longrightarrow> 0 < length (takeWhile f xs)"
  by (cases xs) auto

lemma skip_while_bounds: "p \<le> skip_while f buf p" "p \<le> length buf \<Longrightarrow> skip_while f buf p \<le> length buf"
  using length_takeWhile_le [of f "drop p buf"] by (auto simp: skip_while_def)

lemma skip_ws_bounds: "p \<le> skip_ws buf p" "p \<le> length buf \<Longrightarrow> skip_ws buf p \<le> length buf"
  by (simp_all add: skip_ws_def skip_while_bounds)

lemma skip_ws_stops: "skip_ws buf p < length buf \<Longrightarrow> p \<le> length buf \<Longrightarrow> ch buf (skip_ws buf p) \<notin> set whitespace"
  using nth_length_takeWhile [of "\<lambda>c. c \<in> set whitespace" "drop p buf"]
  by (simp add: ch_def skip_ws_def skip_while_def)

lemma ch_nonzero: "ch buf p \<noteq> 0 \<Longrightarrow> p < length buf"
  by (simp add: ch_def split: if_splits)

lemma gettoken_advance:
  assumes "gettoken buf p = (t, q, eq, p')" "p \<le> length buf"
  shows "p \<le> q" "q \<le> eq" "eq \<le> p'" "p' \<le> length buf" "t \<noteq> 0 \<Longrightarrow> q < eq"
proof -
  let ?q = "skip_ws buf p"
  have q: "p \<le> ?q" "?q \<le> length buf" using skip_ws_bounds assms(2) by auto
  have w: "?q < skip_while word_char buf ?q"
    if "ch buf ?q \<noteq> 0" "ch buf ?q \<notin> {124, 40, 41, 59, 38, 60, 62}"
  proof -
    have "?q < length buf" using that(1) by (rule ch_nonzero)
    moreover from this have "ch buf ?q \<notin> set whitespace" using skip_ws_stops assms(2) by blast
    ultimately have "word_char (hd (drop ?q buf))" "drop ?q buf \<noteq> []"
      using that(2) by (auto simp: word_char_def symbols_def ch_def hd_drop_conv_nth)
    then show ?thesis using takeWhile_pos [where xs = "drop ?q buf" and f = word_char] by (simp add: skip_while_def)
  qed
  have e: "q = ?q" "?q \<le> eq" "eq \<le> length buf" "t \<noteq> 0 \<Longrightarrow> ?q < eq" "p' = skip_ws buf eq"
    using assms(1) q w skip_while_bounds [where p = ?q and f = word_char and buf = buf] ch_nonzero [of buf ?q] ch_nonzero [of buf "Suc ?q"]
    by (auto simp: gettoken_def Let_def split: if_splits)
  then show "p \<le> q" "q \<le> eq" "eq \<le> p'" "p' \<le> length buf" "t \<noteq> 0 \<Longrightarrow> q < eq"
    using q skip_ws_bounds [of eq buf] by auto
qed

section \<open>The parser\<close>

text \<open>
  Loops and recursion take fuel; \<open>parsecmd\<close> provides enough of it for every line, as shown below.  The
  nodes are built as in the source.  While its arguments are still being read, an \<open>execcmd\<close> is already
  wrapped by the redirections seen so far; the model keeps these in a list and wraps them around it at the end.
\<close>

type_synonym redir = "(nat \<times> nat) \<times> int \<times> int"

definition redir_of :: "u8 \<Rightarrow> nat \<Rightarrow> nat \<Rightarrow> redir" where
  "redir_of tok q eq = (if tok = 60 then ((q, eq), O_RDONLY, 0) else ((q, eq), O_WRONLY OR O_CREATE, 1))"

definition wrap :: "redir list \<Rightarrow> cmd \<Rightarrow> cmd" where
  "wrap rs c = foldl (\<lambda>d (f, mode, fd). REDIR d f mode fd) c rs"

primrec parseredirs :: "nat \<Rightarrow> u8 list \<Rightarrow> nat \<Rightarrow> (redir list \<times> nat) outcome" where
  "parseredirs 0 buf p = Fail Spin"
| "parseredirs (Suc n) buf p = (case peek buf p [60, 62] of (b, p1) \<Rightarrow>
     if \<not> b then Ret ([], p1)
     else case gettoken buf p1 of (tok, _, _, p2) \<Rightarrow> case gettoken buf p2 of (t, q, eq, p3) \<Rightarrow>
       if t \<noteq> 97 then Fail (Panic ''missing file for redirection'')
       else omap (\<lambda>(rs, p4). (redir_of tok q eq # rs, p4)) (parseredirs n buf p3))"

primrec parse_backs :: "nat \<Rightarrow> u8 list \<Rightarrow> cmd \<Rightarrow> nat \<Rightarrow> (cmd \<times> nat) outcome" where
  "parse_backs 0 buf c p = Fail Spin"
| "parse_backs (Suc n) buf c p = (case peek buf p [38] of (b, p1) \<Rightarrow>
     if \<not> b then Ret (c, p1)
     else case gettoken buf p1 of (_, _, _, p2) \<Rightarrow> parse_backs n buf (BACK c) p2)"

primrec parse_args :: "nat \<Rightarrow> u8 list \<Rightarrow> (nat \<times> nat) list \<Rightarrow> redir list \<Rightarrow> nat \<Rightarrow> (cmd \<times> nat) outcome" where
  "parse_args 0 buf args rs p = Fail Spin"
| "parse_args (Suc n) buf args rs p = (case peek buf p [124, 41, 38, 59] of (b, p1) \<Rightarrow>
     if b then Ret (wrap rs (EXEC args), p1)
     else case gettoken buf p1 of (tok, q, eq, p2) \<Rightarrow>
       if tok = 0 then Ret (wrap rs (EXEC args), p2)
       else if tok \<noteq> 97 then Fail (Panic ''syntax'')
       else if MAXARGS \<le> length args + 1 then Fail (Panic ''too many args'')
       else obind (parseredirs n buf p2) (\<lambda>(rs', p3). parse_args n buf (args @ [(q, eq)]) (rs @ rs') p3))"

fun parseline :: "nat \<Rightarrow> u8 list \<Rightarrow> nat \<Rightarrow> (cmd \<times> nat) outcome"
  and parsepipe :: "nat \<Rightarrow> u8 list \<Rightarrow> nat \<Rightarrow> (cmd \<times> nat) outcome"
  and parseexec :: "nat \<Rightarrow> u8 list \<Rightarrow> nat \<Rightarrow> (cmd \<times> nat) outcome"
  and parseblock :: "nat \<Rightarrow> u8 list \<Rightarrow> nat \<Rightarrow> (cmd \<times> nat) outcome" where
  "parseline 0 buf p = Fail Spin"
| "parseline (Suc n) buf p =
     obind (parsepipe n buf p) (\<lambda>(c, p1).
       obind (parse_backs n buf c p1) (\<lambda>(c2, p2).
         case peek buf p2 [59] of (b, p3) \<Rightarrow>
           if \<not> b then Ret (c2, p3)
           else case gettoken buf p3 of (_, _, _, p4) \<Rightarrow> omap (\<lambda>(d, p5). (LIST c2 d, p5)) (parseline n buf p4)))"
| "parsepipe 0 buf p = Fail Spin"
| "parsepipe (Suc n) buf p =
     obind (parseexec n buf p) (\<lambda>(c, p1).
       case peek buf p1 [124] of (b, p2) \<Rightarrow>
         if \<not> b then Ret (c, p2)
         else case gettoken buf p2 of (_, _, _, p3) \<Rightarrow> omap (\<lambda>(d, p4). (PIPE c d, p4)) (parsepipe n buf p3))"
| "parseexec 0 buf p = Fail Spin"
| "parseexec (Suc n) buf p = (case peek buf p [40] of (b, p1) \<Rightarrow>
     if b then parseblock n buf p1
     else obind (parseredirs n buf p1) (\<lambda>(rs, p2). parse_args n buf [] rs p2))"
| "parseblock 0 buf p = Fail Spin"
| "parseblock (Suc n) buf p = (case peek buf p [40] of (b, p1) \<Rightarrow>
     if \<not> b then Fail (Panic ''parseblock'')
     else case gettoken buf p1 of (_, _, _, p2) \<Rightarrow>
       obind (parseline n buf p2) (\<lambda>(c, p3).
         case peek buf p3 [41] of (b2, p4) \<Rightarrow>
           if \<not> b2 then Fail (Panic ''syntax - missing )'')
           else case gettoken buf p4 of (_, _, _, p5) \<Rightarrow> omap (\<lambda>(rs, p6). (wrap rs c, p6)) (parseredirs n buf p5)))"

primrec nulterminate :: "cmd \<Rightarrow> u8 list \<Rightarrow> u8 list" where
  "nulterminate (EXEC args) b = fold (\<lambda>(q, eq) m. m[eq := 0]) args b"
| "nulterminate (REDIR c f mode fd) b = (nulterminate c b)[snd f := 0]"
| "nulterminate (PIPE c d) b = nulterminate d (nulterminate c b)"
| "nulterminate (LIST c d) b = nulterminate d (nulterminate c b)"
| "nulterminate (BACK c) b = nulterminate c b"

text \<open>The result is the command and the line, with its terminating zero, after \<open>nulterminate\<close>.\<close>

definition parsecmd :: "u8 list \<Rightarrow> (cmd \<times> u8 list) outcome" where
  "parsecmd buf =
     obind (parseline (4 * length buf + 4) buf 0) (\<lambda>(c, p).
       case peek buf p [] of (_, p1) \<Rightarrow>
         if p1 \<noteq> length buf then Fail (Panic ''syntax'') else Ret (c, nulterminate c (buf @ [0])))"

section \<open>Progress and words\<close>

definition word_ok :: "u8 list \<Rightarrow> nat \<times> nat \<Rightarrow> bool" where
  "word_ok buf = (\<lambda>(q, eq). q < eq \<and> eq \<le> length buf \<and> (\<forall>k. q \<le> k \<and> k < eq \<longrightarrow> word_char (buf ! k)) \<and>
     (eq < length buf \<longrightarrow> \<not> word_char (buf ! eq)))"

primrec words :: "'w command \<Rightarrow> 'w list" where
  "words (EXEC args) = args"
| "words (REDIR c f mode fd) = words c @ [f]"
| "words (PIPE c d) = words c @ words d"
| "words (LIST c d) = words c @ words d"
| "words (BACK c) = words c"

definition cmd_ok :: "u8 list \<Rightarrow> cmd \<Rightarrow> bool" where
  "cmd_ok buf c \<longleftrightarrow> (\<forall>w\<in>set (words c). word_ok buf w)"

lemma cmd_ok_simps [simp]:
  "cmd_ok buf (EXEC args) \<longleftrightarrow> (\<forall>w\<in>set args. word_ok buf w)"
  "cmd_ok buf (REDIR c f mode fd) \<longleftrightarrow> cmd_ok buf c \<and> word_ok buf f"
  "cmd_ok buf (PIPE c d) \<longleftrightarrow> cmd_ok buf c \<and> cmd_ok buf d"
  "cmd_ok buf (LIST c d) \<longleftrightarrow> cmd_ok buf c \<and> cmd_ok buf d"
  "cmd_ok buf (BACK c) \<longleftrightarrow> cmd_ok buf c"
  by (auto simp: cmd_ok_def)

lemma cmd_ok_wrap: "cmd_ok buf c \<Longrightarrow> \<forall>r\<in>set rs. word_ok buf (fst r) \<Longrightarrow> cmd_ok buf (wrap rs c)"
  by (induction rs arbitrary: c) (auto simp: wrap_def)

lemma skip_ws_idle: "ch buf p \<notin> set whitespace \<Longrightarrow> skip_ws buf p = p"
  by (cases "p < length buf") (auto simp: skip_ws_def skip_while_def ch_def takeWhile_eq_Nil_iff hd_drop_conv_nth)

lemma peek_bounds:
  assumes "peek buf p toks = (b, p1)" "p \<le> length buf"
  shows "p \<le> p1" "p1 \<le> length buf" "b \<Longrightarrow> p1 < length buf \<and> ch buf p1 \<in> set toks \<and> skip_ws buf p1 = p1"
proof -
  have e: "p1 = skip_ws buf p" "b = (ch buf p1 \<noteq> 0 \<and> ch buf p1 \<in> set toks)" using assms(1) by (auto simp: peek_def Let_def)
  then show "p \<le> p1" "p1 \<le> length buf" using skip_ws_bounds assms(2) by auto
  assume b
  then have "p1 < length buf" using e(2) ch_nonzero by blast
  then show "p1 < length buf \<and> ch buf p1 \<in> set toks \<and> skip_ws buf p1 = p1"
    using e \<open>b\<close> skip_ws_stops assms(2) skip_ws_idle by blast
qed

lemma gettoken_zero: "gettoken buf p = (t, q, eq, p') \<Longrightarrow> t = 0 \<longleftrightarrow> ch buf (skip_ws buf p) = 0"
  by (auto simp: gettoken_def Let_def split: if_splits)

lemma peek_gettoken:
  assumes "peek buf p toks = (True, p1)" "gettoken buf p1 = (t, q, eq, p2)" "p \<le> length buf"
  shows "p < p2" "p2 \<le> length buf"
proof -
  note b = peek_bounds [OF assms(1,3)]
  have "ch buf p1 \<noteq> 0" using assms(1) by (auto simp: peek_def Let_def)
  then have "t \<noteq> 0" using gettoken_zero [OF assms(2)] b(3) by simp
  then show "p < p2" "p2 \<le> length buf" using gettoken_advance [OF assms(2) b(2)] b(1) by auto
qed

lemma skip_while_word:
  assumes "q < length buf" "word_char (buf ! q)"
  shows "word_ok buf (q, skip_while word_char buf q)"
proof -
  let ?n = "length (takeWhile word_char (drop q buf))"
  have n: "?n \<le> length buf - q" using length_takeWhile_le [of word_char "drop q buf"] by simp
  have "0 < ?n" using takeWhile_pos [where xs = "drop q buf" and f = word_char] assms by (simp add: hd_drop_conv_nth)
  moreover have "word_char (buf ! k)" if "q \<le> k" "k < q + ?n" for k
  proof -
    have k: "k - q < ?n" using that by simp
    then have "takeWhile word_char (drop q buf) ! (k - q) = buf ! k"
      using that n by (simp add: takeWhile_nth)
    then show ?thesis using nth_mem [OF k] set_takeWhileD by metis
  qed
  moreover have "\<not> word_char (buf ! (q + ?n))" if "q + ?n < length buf"
    using nth_length_takeWhile [of word_char "drop q buf"] that by simp
  ultimately show ?thesis using n assms(1) by (simp add: word_ok_def skip_while_def)
qed

lemma gettoken_word:
  assumes "gettoken buf p = (97, q, eq, p')" "p \<le> length buf"
  shows "word_ok buf (q, eq)"
proof -
  let ?q = "skip_ws buf p"
  have e: "q = ?q" "eq = skip_while word_char buf ?q" "ch buf ?q \<noteq> 0" "ch buf ?q \<notin> {124, 40, 41, 59, 38, 60, 62}"
    using assms(1) by (auto simp: gettoken_def Let_def split: if_splits)
  have "?q < length buf" using e(3) by (rule ch_nonzero)
  then have "word_char (buf ! ?q)"
    using skip_ws_stops [of buf p] assms(2) e(4) by (auto simp: word_char_def symbols_def ch_def)
  then show ?thesis using skip_while_word \<open>?q < length buf\<close> by (simp add: e)
qed

text \<open>
  What a parsing function promises when it is entered at \<open>p\<close>: the position moves forward, the words are words of the
  line, and it only runs out of fuel when it was given less than \<open>k * (length buf - p) + m\<close>.
\<close>

definition parses :: "u8 list \<Rightarrow> ('c \<Rightarrow> bool) \<Rightarrow> nat \<Rightarrow> nat \<Rightarrow> nat \<Rightarrow> nat \<Rightarrow> ('c \<times> nat) outcome \<Rightarrow> bool" where
  "parses buf ok p k m n r \<longleftrightarrow> (case r of
     Ret (c, p') \<Rightarrow> p \<le> p' \<and> p' \<le> length buf \<and> ok c
   | Fail f \<Rightarrow> (\<exists>msg. f = Panic msg) \<or> f = Spin \<and> n < k * (length buf - p) + m)"

lemma parses_Ret [simp]: "parses buf ok p k m n (Ret (c, p')) \<longleftrightarrow> p \<le> p' \<and> p' \<le> length buf \<and> ok c"
  by (simp add: parses_def)

lemma parses_Panic [simp]: "parses buf ok p k m n (Fail (Panic msg))"
  by (simp add: parses_def)

lemma parses_later:
  assumes "parses buf ok p1 k1 m1 n1 r" "p \<le> p1" "n1 < k1 * (length buf - p1) + m1 \<Longrightarrow> n < k * (length buf - p) + m"
  shows "parses buf ok p k m n r"
  using assms by (auto simp: parses_def split: outcome.splits prod.splits)

lemma parses_bind:
  assumes "parses buf ok1 p1 k1 m1 n1 r" "p \<le> p1" "n1 < k1 * (length buf - p1) + m1 \<Longrightarrow> n < k * (length buf - p) + m"
    and "\<And>c p2. ok1 c \<Longrightarrow> p1 \<le> p2 \<Longrightarrow> p2 \<le> length buf \<Longrightarrow> parses buf ok p k m n (f (c, p2))"
  shows "parses buf ok p k m n (obind r f)"
proof (cases r)
  case (Ret x)
  then show ?thesis using assms by (cases x) simp
next
  case (Fail e)
  then show ?thesis using assms(1,3) by (auto simp: parses_def)
qed

lemma parses_map:
  assumes "parses buf ok1 p1 k1 m1 n1 r" "p \<le> p1" "n1 < k1 * (length buf - p1) + m1 \<Longrightarrow> n < k * (length buf - p) + m"
    and "\<And>c. ok1 c \<Longrightarrow> ok (g c)"
  shows "parses buf ok p k m n (omap (\<lambda>(c, p'). (g c, p')) r)"
  using assms by (cases r) (auto simp: parses_def split: prod.splits)

lemma parseredirs_parses:
  "p \<le> length buf \<Longrightarrow> parses buf (\<lambda>rs. \<forall>r\<in>set rs. word_ok buf (fst r)) p 1 1 n (parseredirs n buf p)"
proof (induction n arbitrary: p)
  case 0
  then show ?case by (simp add: parses_def)
next
  case (Suc n)
  obtain b p1 where pk: "peek buf p [60, 62] = (b, p1)" by (cases "peek buf p [60, 62]")
  note pb = peek_bounds [OF pk Suc.prems]
  show ?case
  proof (cases b)
    case False
    then show ?thesis using pk pb by simp
  next
    case True
    obtain tok q0 e0 p2 where g: "gettoken buf p1 = (tok, q0, e0, p2)" by (cases "gettoken buf p1")
    obtain t q eq p3 where h: "gettoken buf p2 = (t, q, eq, p3)" by (cases "gettoken buf p2")
    have p2: "p < p2" "p2 \<le> length buf" using peek_gettoken [OF _ g Suc.prems] pk True by auto
    note p3 = gettoken_advance [OF h p2(2)]
    show ?thesis
    proof (cases "t = 97")
      case True
      have "word_ok buf (fst (redir_of tok q eq))"
        using gettoken_word [of buf p2] h p2(2) True by (simp add: redir_of_def)
      then have "parses buf (\<lambda>rs. \<forall>r\<in>set rs. word_ok buf (fst r)) p 1 1 (Suc n)
          (omap (\<lambda>(rs, p4). (redir_of tok q eq # rs, p4)) (parseredirs n buf p3))"
        using p2 p3 by (intro parses_map [OF Suc.IH [OF p3(4)]]) auto
      then show ?thesis using \<open>b\<close> True pk g h by simp
    next
      case False
      then show ?thesis using \<open>b\<close> pk g h by simp
    qed
  qed
qed

lemma parse_backs_parses:
  "p \<le> length buf \<Longrightarrow> cmd_ok buf c \<Longrightarrow> parses buf (cmd_ok buf) p 1 1 n (parse_backs n buf c p)"
proof (induction n arbitrary: p c)
  case 0
  then show ?case by (simp add: parses_def)
next
  case (Suc n)
  obtain b p1 where pk: "peek buf p [38] = (b, p1)" by (cases "peek buf p [38]")
  obtain t q eq p2 where g: "gettoken buf p1 = (t, q, eq, p2)" by (cases "gettoken buf p1")
  note pb = peek_bounds [OF pk Suc.prems(1)]
  show ?case
  proof (cases b)
    case True
    then have p2: "p < p2" "p2 \<le> length buf" using peek_gettoken [OF _ g Suc.prems(1)] pk by auto
    have "parses buf (cmd_ok buf) p 1 1 (Suc n) (parse_backs n buf (BACK c) p2)"
      by (rule parses_later [OF Suc.IH [OF p2(2)]]) (use p2 Suc.prems in auto)
    then show ?thesis using True pk g by simp
  qed (use pk pb Suc.prems in simp)
qed

lemma parse_args_parses:
  assumes "p \<le> length buf" "\<forall>w\<in>set args. word_ok buf w" "\<forall>r\<in>set rs. word_ok buf (fst r)"
  shows "parses buf (cmd_ok buf) p 1 1 n (parse_args n buf args rs p)"
  using assms
proof (induction n arbitrary: p args rs)
  case 0
  then show ?case by (simp add: parses_def)
next
  case (Suc n)
  obtain b p1 where pk: "peek buf p [124, 41, 38, 59] = (b, p1)" by (cases "peek buf p [124, 41, 38, 59]")
  obtain t q eq p2 where g: "gettoken buf p1 = (t, q, eq, p2)" by (cases "gettoken buf p1")
  note pb = peek_bounds [OF pk Suc.prems(1)]
  note ga = gettoken_advance [OF g pb(2)]
  have fin: "cmd_ok buf (wrap rs (EXEC args))" using Suc.prems by (simp add: cmd_ok_wrap)
  show ?case
  proof (cases "\<not> b \<and> t = 97 \<and> \<not> MAXARGS \<le> length args + 1")
    case True
    then have w: "word_ok buf (q, eq)" using gettoken_word [of buf p1] g pb(2) by simp
    have p2: "p < p2" using ga(1-3,5) pb(1) True by simp
    have "parses buf (cmd_ok buf) p 1 1 (Suc n)
        (obind (parseredirs n buf p2) (\<lambda>(rs', p3). parse_args n buf (args @ [(q, eq)]) (rs @ rs') p3))"
    proof (rule parses_bind [OF parseredirs_parses [OF ga(4)]])
      fix rs' :: "redir list" and p3
      assume *: "\<forall>r\<in>set rs'. word_ok buf (fst r)" "p2 \<le> p3" "p3 \<le> length buf"
      show "parses buf (cmd_ok buf) p 1 1 (Suc n) (case (rs', p3) of (rs', p3) \<Rightarrow> parse_args n buf (args @ [(q, eq)]) (rs @ rs') p3)"
        unfolding prod.case
        by (rule parses_later [OF Suc.IH [OF *(3)]]) (use w p2 * Suc.prems in auto)
    qed (use p2 ga in auto)
    then show ?thesis using True pk g by simp
  next
    case False
    then show ?thesis using pk g pb ga fin by (auto simp: parses_def)
  qed
qed

lemma peek_next:
  assumes "peek buf p toks = (True, p1)" "p \<le> length buf"
  obtains t a e q where "gettoken buf p1 = (t, a, e, q)" "p < q" "q \<le> length buf"
  using peek_gettoken [OF assms(1) _ assms(2)] by (cases "gettoken buf p1") blast

definition sound :: "u8 list \<Rightarrow> nat \<Rightarrow> bool" where
  "sound buf n \<longleftrightarrow> (\<forall>p \<le> length buf.
     parses buf (cmd_ok buf) p 4 4 n (parseline n buf p) \<and> parses buf (cmd_ok buf) p 4 3 n (parsepipe n buf p) \<and>
     parses buf (cmd_ok buf) p 4 2 n (parseexec n buf p) \<and>
     (skip_ws buf p < length buf \<longrightarrow> parses buf (cmd_ok buf) p 4 1 n (parseblock n buf p)))"

lemma sound_line:
  assumes "sound buf n" "p \<le> length buf"
  shows "parses buf (cmd_ok buf) p 4 4 (Suc n) (parseline (Suc n) buf p)"
  unfolding parseline.simps
proof (rule parses_bind [of buf "cmd_ok buf" p 4 3 n], goal_cases)
  case (4 c p1)
  show ?case unfolding prod.case
  proof (rule parses_bind [OF parse_backs_parses [OF 4(3,1)]], goal_cases)
    case (3 c2 p2)
    obtain b p3 where pk: "peek buf p2 [59] = (b, p3)" by (cases "peek buf p2 [59]")
    note pb = peek_bounds [OF pk 3(3)]
    show ?case
    proof (cases b)
      case True
      obtain t a e q where g: "gettoken buf p3 = (t, a, e, q)" "p2 < q" "q \<le> length buf"
        by (rule peek_next [of buf p2 "[59]" p3]) (use pk True 3(3) in auto)
      have "parses buf (cmd_ok buf) q 4 4 n (parseline n buf q)" using assms(1) g(3) by (simp add: sound_def)
      then have "parses buf (cmd_ok buf) p 4 4 (Suc n) (omap (\<lambda>(d, p5). (LIST c2 d, p5)) (parseline n buf q))"
        by (rule parses_map) (use g 3 4 in auto)
      then show ?thesis using True pk g by simp
    qed (use pk pb 3 4 in simp)
  qed (use 4 in auto)
qed (use assms in \<open>auto simp: sound_def\<close>)

lemma sound_pipe:
  assumes "sound buf n" "p \<le> length buf"
  shows "parses buf (cmd_ok buf) p 4 3 (Suc n) (parsepipe (Suc n) buf p)"
  unfolding parsepipe.simps
proof (rule parses_bind [of buf "cmd_ok buf" p 4 2 n], goal_cases)
  case (4 c p1)
  obtain b p2 where pk: "peek buf p1 [124] = (b, p2)" by (cases "peek buf p1 [124]")
  note pb = peek_bounds [OF pk 4(3)]
  show ?case
  proof (cases b)
    case True
    obtain t a e q where g: "gettoken buf p2 = (t, a, e, q)" "p1 < q" "q \<le> length buf"
      by (rule peek_next [of buf p1 "[124]" p2]) (use pk True 4(3) in auto)
    have "parses buf (cmd_ok buf) q 4 3 n (parsepipe n buf q)" using assms(1) g(3) by (simp add: sound_def)
    then have "parses buf (cmd_ok buf) p 4 3 (Suc n) (omap (\<lambda>(d, p4). (PIPE c d, p4)) (parsepipe n buf q))"
      by (rule parses_map) (use g 4 in auto)
    then show ?thesis using True pk g by simp
  qed (use pk pb 4 in simp)
qed (use assms in \<open>auto simp: sound_def\<close>)

lemma sound_exec:
  assumes "sound buf n" "p \<le> length buf"
  shows "parses buf (cmd_ok buf) p 4 2 (Suc n) (parseexec (Suc n) buf p)"
proof -
  obtain b p1 where pk: "peek buf p [40] = (b, p1)" by (cases "peek buf p [40]")
  note pb = peek_bounds [OF pk assms(2)]
  show ?thesis
  proof (cases b)
    case True
    then have "parses buf (cmd_ok buf) p1 4 1 n (parseblock n buf p1)" using assms(1) pb by (simp add: sound_def)
    then have "parses buf (cmd_ok buf) p 4 2 (Suc n) (parseblock n buf p1)" by (rule parses_later) (use pb in auto)
    then show ?thesis using pk True by simp
  next
    case False
    have "parses buf (cmd_ok buf) p 4 2 (Suc n) (obind (parseredirs n buf p1) (\<lambda>(rs, p2). parse_args n buf [] rs p2))"
    proof (rule parses_bind [OF parseredirs_parses [OF pb(2)]], goal_cases)
      case (3 rs p2)
      show ?case unfolding prod.case
        by (rule parses_later [OF parse_args_parses [OF 3(3)]]) (use 3 pb in auto)
    qed (use pb in auto)
    then show ?thesis using pk False by simp
  qed
qed

lemma sound_block:
  assumes "sound buf n" "p \<le> length buf" "skip_ws buf p < length buf"
  shows "parses buf (cmd_ok buf) p 4 1 (Suc n) (parseblock (Suc n) buf p)"
proof -
  obtain b p1 where pk: "peek buf p [40] = (b, p1)" by (cases "peek buf p [40]")
  show ?thesis
  proof (cases b)
    case True
    obtain t a e q where g: "gettoken buf p1 = (t, a, e, q)" "p < q" "q \<le> length buf"
      by (rule peek_next [of buf p "[40]" p1]) (use pk True assms(2) in auto)
    have "parses buf (cmd_ok buf) p 4 1 (Suc n)
      (obind (parseline n buf q) (\<lambda>(c, p3). case peek buf p3 [41] of (b2, p4) \<Rightarrow>
         if \<not> b2 then Fail (Panic ''syntax - missing )'')
         else case gettoken buf p4 of (_, _, _, p5) \<Rightarrow> omap (\<lambda>(rs, p6). (wrap rs c, p6)) (parseredirs n buf p5)))"
    proof (rule parses_bind [of buf "cmd_ok buf" q 4 4 n], goal_cases)
      case (4 c p3)
      obtain b2 p4 where pk2: "peek buf p3 [41] = (b2, p4)" by (cases "peek buf p3 [41]")
      show ?case
      proof (cases b2)
        case True
        obtain t2 a2 e2 q2 where g2: "gettoken buf p4 = (t2, a2, e2, q2)" "p3 < q2" "q2 \<le> length buf"
          by (rule peek_next [of buf p3 "[41]" p4]) (use pk2 True 4(3) in auto)
        have "parses buf (cmd_ok buf) p 4 1 (Suc n) (omap (\<lambda>(rs, p6). (wrap rs c, p6)) (parseredirs n buf q2))"
          by (rule parses_map [OF parseredirs_parses [OF g2(3)]]) (use g g2 4 in \<open>auto simp: cmd_ok_wrap\<close>)
        then show ?thesis using pk2 True g2 by simp
      qed (use pk2 in simp)
    qed (use assms g in \<open>auto simp: sound_def\<close>)
    then show ?thesis using pk True g by simp
  qed (use pk in simp)
qed

lemma sound_all: "sound buf n"
proof (induction n)
  case 0
  have "p < length buf" if "skip_ws buf p < length buf" for p using that skip_ws_bounds(1) [of p buf] by linarith
  then show ?case by (simp add: sound_def parses_def)
next
  case (Suc n)
  then show ?case
    unfolding sound_def [of buf "Suc n"] using sound_line sound_pipe sound_exec sound_block by blast
qed

text \<open>
  C27. The parser ends on every line: it returns a command or stops with a syntax error.
\<close>

theorem parsecmd_ends:
  "(\<exists>c b. parsecmd buf = Ret (c, b)) \<or> (\<exists>msg. parsecmd buf = Fail (Panic msg))"
proof -
  have "parses buf (cmd_ok buf) 0 4 4 (4 * length buf + 4) (parseline (4 * length buf + 4) buf 0)"
    using sound_all [of buf] unfolding sound_def by blast
  then show ?thesis
    by (cases "parseline (4 * length buf + 4) buf 0")
       (auto simp: parsecmd_def parses_def peek_def Let_def split: prod.splits)
qed

section \<open>The strings of a parsed command\<close>

lemma nulterminate_length [simp]: "length (nulterminate c b) = length b"
proof (induction c arbitrary: b)
  case (EXEC args)
  have "length (fold (\<lambda>(q, eq) m. m[eq := 0]) args b) = length b" for b :: "u8 list"
    by (induction args arbitrary: b) auto
  then show ?case by simp
qed auto

lemma nulterminate_nth:
  "k < length b \<Longrightarrow> nulterminate c b ! k = (if k \<in> snd ` set (words c) then 0 else b ! k)"
proof (induction c arbitrary: b)
  case (EXEC args)
  have "k < length b \<Longrightarrow> fold (\<lambda>(q, eq) m. m[eq := 0]) args b ! k = (if k \<in> snd ` set args then 0 else b ! k)" for b :: "u8 list"
  proof (induction args arbitrary: b)
    case (Cons w args)
    then show ?case by (cases w) (auto simp: nth_list_update)
  qed simp
  then show ?case using EXEC by simp
next
  case (REDIR c f mode fd)
  then show ?case by (cases "snd f < length b") (simp_all add: nth_list_update image_Un)
qed (simp_all add: image_Un)

text \<open>The string a pointer to position \<open>q\<close> denotes.\<close>

definition string_at :: "u8 list \<Rightarrow> nat \<Rightarrow> u8 list" where
  "string_at b q = takeWhile (\<lambda>c. c \<noteq> 0) (drop q b)"

definition slice :: "u8 list \<Rightarrow> nat \<times> nat \<Rightarrow> u8 list" where
  "slice buf = (\<lambda>(q, eq). take (eq - q) (drop q buf))"

lemma string_at_word:
  assumes "0 \<notin> set buf" "cmd_ok buf c" "w \<in> set (words c)"
  shows "string_at (nulterminate c (buf @ [0])) (fst w) = slice buf w"
proof -
  obtain q eq where w: "w = (q, eq)" by (cases w)
  let ?b = "nulterminate c (buf @ [0])"
  have ok: "q < eq" "eq \<le> length buf" "\<And>k. q \<le> k \<Longrightarrow> k < eq \<Longrightarrow> word_char (buf ! k)"
    using assms(2,3) by (auto simp: cmd_ok_def word_ok_def w)
  have keep: "?b ! k = buf ! k" if "q \<le> k" "k < eq" for k
  proof -
    have "k \<notin> snd ` set (words c)"
    proof
      assume "k \<in> snd ` set (words c)"
      then obtain q' where "word_ok buf (q', k)" using assms(2) by (auto simp: cmd_ok_def)
      then have "\<not> word_char (buf ! k)" using that ok(2) by (simp add: word_ok_def)
      then show False using ok(3) that by blast
    qed
    then show ?thesis using that ok(2) by (simp add: nulterminate_nth nth_append)
  qed
  have end0: "?b ! eq = 0" using assms(3) ok(2) by (force simp: nulterminate_nth w)
  have "drop q ?b = slice buf w @ 0 # drop (eq + 1) ?b"
  proof -
    have "drop q ?b = take (eq - q) (drop q ?b) @ drop eq ?b" using ok(1)
      by (metis append_take_drop_id drop_drop le_add_diff_inverse2 less_imp_le)
    moreover have "take (eq - q) (drop q ?b) = slice buf w"
      using ok(1,2) keep by (intro nth_equalityI) (auto simp: slice_def w)
    moreover have "drop eq ?b = 0 # drop (eq + 1) ?b" using end0 ok(2) by (simp flip: Cons_nth_drop_Suc)
    ultimately show ?thesis by simp
  qed
  moreover have "\<forall>x\<in>set (slice buf w). x \<noteq> 0"
    using assms(1) by (auto simp: slice_def w dest: in_set_takeD in_set_dropD)
  ultimately show ?thesis unfolding string_at_def w by (simp add: takeWhile_append)
qed

text \<open>
  C28. After a successful parse every start pointer in the command denotes, as a zero-terminated string, exactly its
  word: a word is not empty, consists of word characters only, and the zeros \<open>nulterminate\<close> writes for
  one word never fall into another.
\<close>

theorem parsecmd_strings:
  assumes "0 \<notin> set buf" "parsecmd buf = Ret (c, b)"
  shows "\<forall>w\<in>set (words c). word_ok buf w \<and> string_at b (fst w) = slice buf w"
proof -
  obtain p where p: "parseline (4 * length buf + 4) buf 0 = Ret (c, p)" "b = nulterminate c (buf @ [0])"
    using assms(2) by (auto simp: parsecmd_def peek_def Let_def split: if_splits)
  have "parses buf (cmd_ok buf) 0 4 4 (4 * length buf + 4) (parseline (4 * length buf + 4) buf 0)"
    using sound_all [of buf] unfolding sound_def by blast
  then have "cmd_ok buf c" using p(1) by simp
  then show ?thesis using string_at_word [OF assms(1)] p(2) by (simp add: cmd_ok_def)
qed

section \<open>Printing\<close>

text \<open>
  The printed form of a command: every part that is a command of its own is put into parentheses, which leave no
  trace in the parsed command.
\<close>

primrec show_cmd :: "u8 list command \<Rightarrow> u8 list" where
  "show_cmd (EXEC ws) = concat (map (\<lambda>w. w @ [32]) ws)"
| "show_cmd (REDIR c f mode fd) = 40 # show_cmd c @ [41, if mode = O_RDONLY then 60 else 62] @ f @ [32]"
| "show_cmd (PIPE c d) = 40 # show_cmd c @ [41, 124, 40] @ show_cmd d @ [41]"
| "show_cmd (LIST c d) = 40 # show_cmd c @ [41, 59, 40] @ show_cmd d @ [41]"
| "show_cmd (BACK c) = 40 # show_cmd c @ [41, 38]"

definition a_word :: "u8 list \<Rightarrow> bool" where
  "a_word w \<longleftrightarrow> w \<noteq> [] \<and> 0 \<notin> set w \<and> (\<forall>x\<in>set w. word_char x)"

primrec printable :: "u8 list command \<Rightarrow> bool" where
  "printable (EXEC ws) \<longleftrightarrow> length ws < MAXARGS \<and> (\<forall>w\<in>set ws. a_word w)"
| "printable (REDIR c f mode fd) \<longleftrightarrow> printable c \<and> a_word f \<and>
     (mode = O_RDONLY \<and> fd = 0 \<or> mode = (O_WRONLY OR O_CREATE) \<and> fd = 1)"
| "printable (PIPE c d) \<longleftrightarrow> printable c \<and> printable d"
| "printable (LIST c d) \<longleftrightarrow> printable c \<and> printable d"
| "printable (BACK c) \<longleftrightarrow> printable c"

text \<open>The rest of a line where a command may end.\<close>

definition closes :: "u8 list \<Rightarrow> bool" where
  "closes r \<longleftrightarrow> r = [] \<or> hd r = 41"

lemma drop_Cons_ch: "drop p buf = x # r \<Longrightarrow> ch buf p = x \<and> p < length buf \<and> drop (Suc p) buf = r"
proof -
  assume d: "drop p buf = x # r"
  then have "p < length buf" using leI by force
  then show ?thesis using d by (simp add: ch_def flip: Cons_nth_drop_Suc)
qed

lemma drop_append: "drop p buf = w @ r \<Longrightarrow> drop (p + length w) buf = r"
  by (metis add.commute append_eq_conv_conj drop_drop)

lemma ch_end: "drop p buf = [] \<Longrightarrow> ch buf p = 0"
  by (simp add: ch_def)

lemma skip_ws_head: "drop p buf = x # r \<Longrightarrow> x \<notin> set whitespace \<Longrightarrow> skip_ws buf p = p"
  using drop_Cons_ch [of p buf x r] by (intro skip_ws_idle) simp

lemma skip_ws_end: "drop p buf = [] \<Longrightarrow> skip_ws buf p = p"
  by (simp add: skip_ws_def skip_while_def)

lemma skip_ws_space:
  assumes "drop p buf = 32 # r" "r = [] \<or> hd r \<notin> set whitespace"
  shows "skip_ws buf p = p + 1"
  using assms by (cases r) (simp_all add: skip_ws_def skip_while_def whitespace_def)

lemma peek_head: "drop p buf = x # r \<Longrightarrow> x \<notin> set whitespace \<Longrightarrow> x \<noteq> 0 \<Longrightarrow> peek buf p toks = (x \<in> set toks, p)"
  using drop_Cons_ch [of p buf x r] by (simp add: peek_def skip_ws_head)

lemma peek_end: "drop p buf = [] \<Longrightarrow> peek buf p toks = (False, p)"
  by (simp add: peek_def skip_ws_end ch_end)

lemma peek_closes: "drop p buf = r \<Longrightarrow> closes r \<Longrightarrow> peek buf p toks = (r \<noteq> [] \<and> 41 \<in> set toks, p)"
  by (cases r) (auto simp: closes_def peek_end peek_head whitespace_def)

lemma gettoken_symbol:
  assumes "drop p buf = x # r" "x \<in> {124, 40, 41, 59, 38, 60}"
  shows "gettoken buf p = (x, p, p + 1, skip_ws buf (p + 1))"
proof -
  have "x \<notin> set whitespace" "x \<noteq> 0" using assms(2) by (auto simp: whitespace_def)
  then show ?thesis using assms drop_Cons_ch [OF assms(1)] by (simp add: gettoken_def skip_ws_head)
qed

lemma gettoken_greater:
  assumes "drop p buf = 62 # r" "r = [] \<or> hd r \<noteq> 62"
  shows "gettoken buf p = (62, p, p + 1, skip_ws buf (p + 1))"
proof -
  have "ch buf (Suc p) \<noteq> 62"
    using assms drop_Cons_ch [OF assms(1)] drop_Cons_ch [of "Suc p" buf] ch_end [of "Suc p" buf] by (cases r) auto
  then show ?thesis
    using drop_Cons_ch [OF assms(1)] skip_ws_head [OF assms(1)] by (simp add: gettoken_def whitespace_def)
qed

lemma word_head: "a_word w \<Longrightarrow> w = x # w' \<Longrightarrow> x \<notin> set whitespace \<and> x \<notin> set symbols \<and> x \<noteq> 0"
  by (auto simp: a_word_def word_char_def)

lemma gettoken_word_at:
  assumes "drop p buf = w @ y # r" "a_word w" "\<not> word_char y"
  shows "gettoken buf p = (97, p, p + length w, skip_ws buf (p + length w))"
proof -
  obtain x w' where w: "w = x # w'" using assms(2) by (cases w) (auto simp: a_word_def)
  note x = word_head [OF assms(2) w]
  have "takeWhile word_char (w @ y # r) = w" using assms(2,3) by (simp add: takeWhile_append a_word_def)
  then have "skip_while word_char buf p = p + length w" using assms(1) by (simp add: skip_while_def)
  moreover have "drop p buf = x # w' @ y # r" using assms(1) w by simp
  ultimately show ?thesis
    using x drop_Cons_ch [of p buf x] skip_ws_head [of p buf x] by (simp add: gettoken_def symbols_def)
qed

text \<open>No blank follows, and no redirection.\<close>

definition plain_next :: "u8 list \<Rightarrow> bool" where
  "plain_next r \<longleftrightarrow> r = [] \<or> hd r \<notin> set whitespace \<and> hd r \<noteq> 0 \<and> hd r \<noteq> 60 \<and> hd r \<noteq> 62"

lemma closes_plain: "closes r \<Longrightarrow> plain_next r"
  by (auto simp: closes_def plain_next_def whitespace_def)

lemma parseredirs_none: "drop p buf = r \<Longrightarrow> plain_next r \<Longrightarrow> parseredirs (Suc n) buf p = Ret ([], p)"
  by (cases r) (auto simp: plain_next_def peek_end peek_head)

lemma parseredirs_one:
  assumes "drop p buf = t # f @ 32 # r" "t = 60 \<or> t = 62" "a_word f" "plain_next r"
  shows "parseredirs (Suc (Suc n)) buf p = Ret ([redir_of t (p + 1) (p + 1 + length f)], p + length f + 2)"
proof -
  obtain x f' where f: "f = x # f'" using assms(3) by (cases f) (auto simp: a_word_def)
  note x = word_head [OF assms(3) f]
  have d1: "drop (Suc p) buf = f @ 32 # r" using drop_Cons_ch [OF assms(1)] by simp
  have d2: "drop (Suc p + length f) buf = 32 # r" using drop_append [OF d1] .
  have d3: "drop (Suc p + length f + 1) buf = r" using drop_Cons_ch [OF d2] by simp
  have s1: "skip_ws buf (Suc p) = Suc p" using d1 f x by (auto intro: skip_ws_head)
  have s2: "skip_ws buf (Suc p + length f) = Suc p + length f + 1"
    by (rule skip_ws_space [OF d2]) (use assms(4) in \<open>auto simp: plain_next_def\<close>)
  have "peek buf p [60, 62] = (True, p)" using peek_head [OF assms(1)] assms(2) by (auto simp: whitespace_def)
  moreover have "gettoken buf p = (t, p, p + 1, Suc p)"
    using gettoken_symbol [OF assms(1)] gettoken_greater [of p buf "f @ 32 # r"] assms(1,2) s1 x f by (auto simp: symbols_def)
  moreover have "gettoken buf (Suc p) = (97, Suc p, Suc p + length f, Suc p + length f + 1)"
    using gettoken_word_at [OF d1 assms(3)] s2 by (simp add: word_char_def whitespace_def)
  ultimately show ?thesis using parseredirs_none [OF d3 assms(4), of n] by simp
qed

lemma slice_at: "drop p buf = w @ r \<Longrightarrow> slice buf (p, p + length w) = w"
  by (simp add: slice_def)

lemma words_head:
  assumes "\<forall>w\<in>set ws. a_word w" "closes r"
  shows "plain_next (concat (map (\<lambda>w. w @ [32]) ws) @ r)"
proof (cases ws)
  case (Cons w ws')
  then obtain x w' where "w = x # w'" "a_word w" using assms(1) by (cases w) (auto simp: a_word_def)
  then show ?thesis using word_head [of w x w'] Cons by (auto simp: plain_next_def symbols_def)
qed (use assms(2) closes_plain in simp)

lemma parse_args_words:
  assumes "drop p buf = concat (map (\<lambda>w. w @ [32]) ws) @ r" "closes r" "\<forall>w\<in>set ws. a_word w"
    "length args + length ws < MAXARGS" "length ws < n"
  shows "\<exists>ps. parse_args n buf args [] p = Ret (EXEC (args @ ps), p + length (concat (map (\<lambda>w. w @ [32]) ws))) \<and>
    map (slice buf) ps = ws"
  using assms
proof (induction ws arbitrary: p args n)
  case Nil
  then obtain m where n: "n = Suc m" by (cases n) auto
  have d: "drop p buf = r" using Nil.prems(1) by simp
  have pk: "peek buf p [124, 41, 38, 59] = (r \<noteq> [], p)" using peek_closes [OF d Nil.prems(2)] by simp
  show ?case
  proof (cases "r = []")
    case True
    then have "gettoken buf p = (0, p, p, p)" using d by (simp add: gettoken_def skip_ws_end ch_end)
    then show ?thesis using pk n True by (simp add: wrap_def)
  qed (use pk n in \<open>simp add: wrap_def\<close>)
next
  case (Cons w ws)
  let ?r = "concat (map (\<lambda>w. w @ [32]) ws) @ r"
  obtain m where n: "n = Suc m" using Cons.prems(5) by (cases n) auto
  then obtain k where m: "m = Suc k" using Cons.prems(5) by (cases m) auto
  have w: "a_word w" "\<forall>w\<in>set ws. a_word w" using Cons.prems(3) by auto
  then obtain x w' where ww: "w = x # w'" by (cases w) (auto simp: a_word_def)
  note x = word_head [OF w(1) ww]
  have d1: "drop p buf = w @ 32 # ?r" using Cons.prems(1) by simp
  have d2: "drop (p + length w) buf = 32 # ?r" using drop_append [OF d1] .
  have d3: "drop (p + length w + 1) buf = ?r" using drop_Cons_ch [OF d2] by simp
  have pn: "plain_next ?r" using words_head [OF w(2) Cons.prems(2)] .
  have s: "skip_ws buf (p + length w) = p + length w + 1"
    by (rule skip_ws_space [OF d2]) (use pn in \<open>auto simp: plain_next_def\<close>)
  have pk: "peek buf p [124, 41, 38, 59] = (False, p)"
    using peek_head [of p buf x] d1 ww x by (simp add: symbols_def)
  have g: "gettoken buf p = (97, p, p + length w, p + length w + 1)"
    using gettoken_word_at [OF d1 w(1)] s by (simp add: word_char_def whitespace_def)
  obtain ps where ps: "parse_args m buf (args @ [(p, p + length w)]) [] (p + length w + 1)
      = Ret (EXEC ((args @ [(p, p + length w)]) @ ps), p + length w + 1 + length (concat (map (\<lambda>w. w @ [32]) ws)))"
    "map (slice buf) ps = ws"
    using Cons.IH [OF d3 Cons.prems(2) w(2), of "args @ [(p, p + length w)]" m] Cons.prems(4,5) n by auto
  have "parse_args n buf args [] p
      = Ret (EXEC (args @ (p, p + length w) # ps), p + length (concat (map (\<lambda>w. w @ [32]) (w # ws))))"
    using pk g ps(1) Cons.prems(4) parseredirs_none [OF d3 pn, of k] by (simp add: n m)
  then show ?case using ps(2) slice_at [OF d1] by (intro exI [of _ "(p, p + length w) # ps"]) simp
qed

text \<open>The printed command is parsed wherever it may end.\<close>

definition reparses :: "u8 list \<Rightarrow> u8 list command \<Rightarrow> bool" where
  "reparses buf c \<longleftrightarrow> (\<forall>n p r. drop p buf = show_cmd c @ r \<longrightarrow> closes r \<longrightarrow> 4 * length (show_cmd c) + 4 \<le> n \<longrightarrow>
     (\<exists>c'. parseline n buf p = Ret (c', p + length (show_cmd c)) \<and> map_command (slice buf) c' = c))"

lemma reparsesD:
  assumes "reparses buf c" "drop p buf = show_cmd c @ r" "closes r" "4 * length (show_cmd c) + 4 \<le> n"
  obtains c' where "parseline n buf p = Ret (c', p + length (show_cmd c))" "map_command (slice buf) c' = c"
  using assms unfolding reparses_def by blast

lemma show_head: "printable c \<Longrightarrow> plain_next (show_cmd c @ 41 # r)"
proof (cases c)
  case (EXEC ws)
  then show "printable c \<Longrightarrow> ?thesis" using words_head [of ws "41 # r"] by (simp add: closes_def)
qed (auto simp: plain_next_def whitespace_def)

lemma line_of_exec:
  assumes "parseexec (Suc n) buf p = Ret (c, q)" "drop q buf = r" "closes r"
  shows "parsepipe (Suc (Suc n)) buf p = Ret (c, q)" "parseline (Suc (Suc (Suc n))) buf p = Ret (c, q)"
  using assms peek_closes [OF assms(2,3)] by simp_all

lemma exec_block:
  assumes "reparses buf c" "printable c" "drop p buf = 40 # show_cmd c @ 41 # r" "plain_next r \<or> hd r \<in> {60, 62}"
    "4 * length (show_cmd c) + 4 \<le> n"
  obtains c' where "parseexec (Suc (Suc n)) buf p
      = omap (\<lambda>(rs, q). (wrap rs c', q)) (parseredirs n buf (p + length (show_cmd c) + 2))"
    "map_command (slice buf) c' = c" "drop (p + length (show_cmd c) + 2) buf = r"
proof -
  let ?q = "p + 1 + length (show_cmd c)"
  have d1: "drop (p + 1) buf = show_cmd c @ 41 # r" using drop_Cons_ch [OF assms(3)] by simp
  have d2: "drop ?q buf = 41 # r" using drop_append [OF d1] .
  have d3: "drop (?q + 1) buf = r" using drop_Cons_ch [OF d2] by simp
  have s1: "skip_ws buf (p + 1) = p + 1"
    using show_head [OF assms(2), of r] skip_ws_head [of "p + 1" buf] d1
    by (cases "show_cmd c @ 41 # r") (auto simp: plain_next_def)
  have s3: "skip_ws buf (?q + 1) = ?q + 1"
    using assms(4) d3 skip_ws_end [of "?q + 1" buf] skip_ws_head [of "?q + 1" buf]
    by (cases r) (auto simp: plain_next_def whitespace_def)
  have b1: "peek buf p [40] = (True, p)" using peek_head [OF assms(3)] by (simp add: whitespace_def)
  have g1: "gettoken buf p = (40, p, p + 1, p + 1)" using gettoken_symbol [OF assms(3)] s1 by simp
  obtain c' where c: "parseline n buf (p + 1) = Ret (c', ?q)" "map_command (slice buf) c' = c"
    by (rule reparsesD [OF assms(1) d1 _ assms(5)]) (auto simp: closes_def)
  have b2: "peek buf ?q [41] = (True, ?q)" using peek_head [OF d2] by (simp add: whitespace_def)
  have g2: "gettoken buf ?q = (41, ?q, ?q + 1, ?q + 1)" using gettoken_symbol [OF d2] s3 by simp
  show thesis
    by (rule that [of c']) (use b1 g1 c b2 g2 d3 in simp_all)
qed

lemma reparses_exec: "printable (EXEC ws) \<Longrightarrow> reparses buf (EXEC ws)"
  unfolding reparses_def
proof (intro allI impI)
  fix n p r
  assume pr: "printable (EXEC ws)" and d: "drop p buf = show_cmd (EXEC ws) @ r" and cl: "closes r"
    and n: "4 * length (show_cmd (EXEC ws)) + 4 \<le> n"
  have w: "\<forall>w\<in>set ws. a_word w" "length ws < MAXARGS" using pr by auto
  have len: "length ws \<le> length (show_cmd (EXEC ws))" by (induction ws) auto
  define m where "m = n - 4"
  have m: "n = Suc (Suc (Suc (Suc m)))" "length ws < Suc m" using n len by (simp_all add: m_def)
  have pn: "plain_next (show_cmd (EXEC ws) @ r)" using words_head [OF w(1) cl] by simp
  have pk: "peek buf p [40] = (False, p)"
  proof (cases ws)
    case (Cons w ws')
    then obtain x w' where ww: "w = x # w'" using w(1) by (cases w) (auto simp: a_word_def)
    have "drop p buf = x # w' @ 32 # concat (map (\<lambda>w. w @ [32]) ws') @ r" using d Cons ww by simp
    moreover have "a_word w" using w(1) Cons by simp
    ultimately show ?thesis using word_head [of w x w'] ww peek_head [of p buf x] by (simp add: symbols_def)
  qed (use d peek_closes [OF _ cl, of p buf "[40]"] in simp)
  obtain ps where ps: "parse_args (Suc m) buf [] [] p = Ret (EXEC ps, p + length (show_cmd (EXEC ws)))" "map (slice buf) ps = ws"
    using parse_args_words [of p buf ws r "[]" "Suc m"] d cl w m(2) by auto
  have "parseexec (Suc (Suc m)) buf p = Ret (EXEC ps, p + length (show_cmd (EXEC ws)))"
    using pk ps(1) parseredirs_none [OF d pn, of m] by simp
  from line_of_exec(2) [OF this drop_append [OF d] cl] ps(2) m(1)
  show "\<exists>c'. parseline n buf p = Ret (c', p + length (show_cmd (EXEC ws))) \<and> map_command (slice buf) c' = EXEC ws"
    by auto
qed

lemma reparses_redir:
  assumes "reparses buf c" "printable (REDIR c f mode fd)"
  shows "reparses buf (REDIR c f mode fd)"
  unfolding reparses_def
proof (intro allI impI)
  fix n p r
  let ?c = "REDIR c f mode fd"
  assume d: "drop p buf = show_cmd ?c @ r" and cl: "closes r" and n: "4 * length (show_cmd ?c) + 4 \<le> n"
  define t :: u8 where "t = (if mode = O_RDONLY then 60 else 62)"
  have f: "a_word f" "printable c" using assms(2) by auto
  define m where "m = n - 6"
  have m: "n = Suc (Suc (Suc (Suc (Suc (Suc m)))))" "4 * length (show_cmd c) + 4 \<le> Suc (Suc m)"
    using n by (simp_all add: m_def)
  have d0: "drop p buf = 40 # show_cmd c @ 41 # t # f @ 32 # r" using d by (simp add: t_def)
  obtain c' where c: "parseexec (Suc (Suc (Suc (Suc m)))) buf p
      = omap (\<lambda>(rs, q). (wrap rs c', q)) (parseredirs (Suc (Suc m)) buf (p + length (show_cmd c) + 2))"
    "map_command (slice buf) c' = c" "drop (p + length (show_cmd c) + 2) buf = t # f @ 32 # r"
    by (rule exec_block [OF assms(1) f(2) d0 _ m(2)]) (auto simp: t_def)
  let ?q = "p + length (show_cmd c) + 2"
  have r: "parseredirs (Suc (Suc m)) buf ?q = Ret ([redir_of t (?q + 1) (?q + 1 + length f)], ?q + length f + 2)"
    by (rule parseredirs_one [OF c(3) _ f(1) closes_plain [OF cl]]) (simp add: t_def)
  have sl: "slice buf (?q + 1, ?q + 1 + length f) = f"
    by (rule slice_at [of _ _ _ "32 # r"]) (use drop_Cons_ch [OF c(3)] in simp)
  have len: "?q + length f + 2 = p + length (show_cmd ?c)" by simp
  let ?rd = "redir_of t (?q + 1) (?q + 1 + length f)"
  have e: "parseexec (Suc (Suc (Suc (Suc m)))) buf p = Ret (wrap [?rd] c', p + length (show_cmd ?c))"
    unfolding c(1) r len by simp
  have "map_command (slice buf) (wrap [?rd] c') = ?c"
    using c(2) sl assms(2) by (auto simp: wrap_def redir_of_def t_def O_RDONLY_def O_WRONLY_def O_CREATE_def)
  then show "\<exists>c'. parseline n buf p = Ret (c', p + length (show_cmd ?c)) \<and> map_command (slice buf) c' = ?c"
    using line_of_exec(2) [OF e drop_append [OF d] cl] m(1) by blast
qed

lemma exec_closed_block:
  assumes "reparses buf c" "printable c" "drop p buf = 40 # show_cmd c @ 41 # r" "plain_next r"
    "4 * length (show_cmd c) + 4 \<le> n"
  obtains c' where "parseexec (Suc (Suc n)) buf p = Ret (c', p + length (show_cmd c) + 2)"
    "map_command (slice buf) c' = c" "drop (p + length (show_cmd c) + 2) buf = r"
proof -
  obtain c' where c: "parseexec (Suc (Suc n)) buf p
      = omap (\<lambda>(rs, q). (wrap rs c', q)) (parseredirs n buf (p + length (show_cmd c) + 2))"
    "map_command (slice buf) c' = c" "drop (p + length (show_cmd c) + 2) buf = r"
    by (rule exec_block [OF assms(1-3) _ assms(5)]) (use assms(4) in auto)
  obtain m where "n = Suc m" using assms(5) by (cases n) auto
  then show thesis using that c parseredirs_none [OF c(3) assms(4), of m] by (simp add: wrap_def del: parseexec.simps)
qed

lemma reparses_pipe:
  assumes "reparses buf c" "reparses buf e" "printable (PIPE c e)"
  shows "reparses buf (PIPE c e)"
  unfolding reparses_def
proof (intro allI impI)
  fix n p r
  let ?c = "PIPE c e"
  assume d: "drop p buf = show_cmd ?c @ r" and cl: "closes r" and n: "4 * length (show_cmd ?c) + 4 \<le> n"
  define m where "m = n - 5"
  have m: "n = Suc (Suc (Suc (Suc (Suc m))))" "4 * length (show_cmd c) + 4 \<le> Suc m" "4 * length (show_cmd e) + 4 \<le> m"
    using n by (simp_all add: m_def)
  have pr: "printable c" "printable e" using assms(3) by auto
  have d0: "drop p buf = 40 # show_cmd c @ 41 # 124 # 40 # show_cmd e @ 41 # r" using d by simp
  let ?p1 = "p + length (show_cmd c) + 2"
  obtain c' where c: "parseexec (Suc (Suc (Suc m))) buf p = Ret (c', ?p1)" "map_command (slice buf) c' = c"
    "drop ?p1 buf = 124 # 40 # show_cmd e @ 41 # r"
    by (rule exec_closed_block [OF assms(1) pr(1) d0 _ m(2)]) (auto simp: plain_next_def whitespace_def)
  have d1: "drop (?p1 + 1) buf = 40 # show_cmd e @ 41 # r" using drop_Cons_ch [OF c(3)] by simp
  obtain e' where e: "parseexec (Suc (Suc m)) buf (?p1 + 1) = Ret (e', ?p1 + 1 + length (show_cmd e) + 2)"
    "map_command (slice buf) e' = e" "drop (?p1 + 1 + length (show_cmd e) + 2) buf = r"
    by (rule exec_closed_block [OF assms(2) pr(2) d1 closes_plain [OF cl] m(3)])
  note pe = line_of_exec(1) [OF e(1,3) cl]
  have b: "peek buf ?p1 [124] = (True, ?p1)" using peek_head [OF c(3)] by (simp add: whitespace_def)
  have g: "gettoken buf ?p1 = (124, ?p1, ?p1 + 1, ?p1 + 1)"
    using gettoken_symbol [OF c(3)] skip_ws_head [OF d1] by (simp add: whitespace_def)
  let ?q = "?p1 + 1 + length (show_cmd e) + 2"
  have pp: "parsepipe (Suc (Suc (Suc (Suc m)))) buf p = Ret (PIPE c' e', ?q)"
    using c(1) b g pe by (simp del: parseexec.simps)
  have "parseline n buf p = Ret (PIPE c' e', ?q)"
    using pp peek_closes [OF e(3) cl] by (simp add: m(1) del: parsepipe.simps)
  moreover have "?q = p + length (show_cmd ?c)" by simp
  ultimately show "\<exists>c'. parseline n buf p = Ret (c', p + length (show_cmd ?c)) \<and> map_command (slice buf) c' = ?c"
    using c(2) e(2) by auto
qed

lemma reparses_list:
  assumes "reparses buf c" "reparses buf e" "printable (LIST c e)"
  shows "reparses buf (LIST c e)"
  unfolding reparses_def
proof (intro allI impI)
  fix n p r
  let ?c = "LIST c e"
  assume d: "drop p buf = show_cmd ?c @ r" and cl: "closes r" and n: "4 * length (show_cmd ?c) + 4 \<le> n"
  define m where "m = n - 5"
  have m: "n = Suc (Suc (Suc (Suc (Suc m))))" "4 * length (show_cmd c) + 4 \<le> Suc m" "4 * length (show_cmd e) + 4 \<le> m"
    using n by (simp_all add: m_def)
  have pr: "printable c" "printable e" using assms(3) by auto
  have d0: "drop p buf = 40 # show_cmd c @ 41 # 59 # 40 # show_cmd e @ 41 # r" using d by simp
  let ?p1 = "p + length (show_cmd c) + 2"
  obtain c' where c: "parseexec (Suc (Suc (Suc m))) buf p = Ret (c', ?p1)" "map_command (slice buf) c' = c"
    "drop ?p1 buf = 59 # 40 # show_cmd e @ 41 # r"
    by (rule exec_closed_block [OF assms(1) pr(1) d0 _ m(2)]) (auto simp: plain_next_def whitespace_def)
  have d1: "drop (?p1 + 1) buf = 40 # show_cmd e @ 41 # r" using drop_Cons_ch [OF c(3)] by simp
  obtain e' where e: "parseexec (Suc (Suc m)) buf (?p1 + 1) = Ret (e', ?p1 + 1 + length (show_cmd e) + 2)"
    "map_command (slice buf) e' = e" "drop (?p1 + 1 + length (show_cmd e) + 2) buf = r"
    by (rule exec_closed_block [OF assms(2) pr(2) d1 closes_plain [OF cl] m(3)])
  note le = line_of_exec(2) [OF e(1,3) cl]
  have b: "peek buf ?p1 ts = (59 \<in> set ts, ?p1)" for ts using peek_head [OF c(3)] by (simp add: whitespace_def)
  have g: "gettoken buf ?p1 = (59, ?p1, ?p1 + 1, ?p1 + 1)"
    using gettoken_symbol [OF c(3)] skip_ws_head [OF d1] by (simp add: whitespace_def)
  let ?q = "?p1 + 1 + length (show_cmd e) + 2"
  have pp: "parsepipe (Suc (Suc (Suc (Suc m)))) buf p = Ret (c', ?p1)"
    using c(1) b by (simp del: parseexec.simps)
  have "parseline n buf p = Ret (LIST c' e', ?q)"
    using pp b g le by (subst m(1), subst parseline.simps) (simp del: parsepipe.simps parseline.simps)
  moreover have "?q = p + length (show_cmd ?c)" by simp
  ultimately show "\<exists>c'. parseline n buf p = Ret (c', p + length (show_cmd ?c)) \<and> map_command (slice buf) c' = ?c"
    using c(2) e(2) by auto
qed

lemma reparses_back:
  assumes "reparses buf c" "printable c"
  shows "reparses buf (BACK c)"
  unfolding reparses_def
proof (intro allI impI)
  fix n p r
  let ?c = "BACK c"
  assume d: "drop p buf = show_cmd ?c @ r" and cl: "closes r" and n: "4 * length (show_cmd ?c) + 4 \<le> n"
  define m where "m = n - 5"
  have m: "n = Suc (Suc (Suc (Suc (Suc m))))" "4 * length (show_cmd c) + 4 \<le> Suc m"
    using n by (simp_all add: m_def)
  have d0: "drop p buf = 40 # show_cmd c @ 41 # 38 # r" using d by simp
  let ?p1 = "p + length (show_cmd c) + 2"
  obtain c' where c: "parseexec (Suc (Suc (Suc m))) buf p = Ret (c', ?p1)" "map_command (slice buf) c' = c"
    "drop ?p1 buf = 38 # r"
    by (rule exec_closed_block [OF assms d0 _ m(2)]) (auto simp: plain_next_def whitespace_def)
  have d1: "drop (?p1 + 1) buf = r" using drop_Cons_ch [OF c(3)] by simp
  have b: "peek buf ?p1 ts = (38 \<in> set ts, ?p1)" for ts using peek_head [OF c(3)] by (simp add: whitespace_def)
  have "skip_ws buf (?p1 + 1) = ?p1 + 1"
    using d1 cl skip_ws_end [of "?p1 + 1" buf] skip_ws_head [of "?p1 + 1" buf] by (cases r) (auto simp: closes_def whitespace_def)
  then have g: "gettoken buf ?p1 = (38, ?p1, ?p1 + 1, ?p1 + 1)" using gettoken_symbol [OF c(3)] by simp
  have pp: "parsepipe (Suc (Suc (Suc (Suc m)))) buf p = Ret (c', ?p1)"
    using c(1) b by (simp del: parseexec.simps)
  have "parseline n buf p = Ret (BACK c', ?p1 + 1)"
    using pp b g peek_closes [OF d1 cl] by (simp add: m(1) del: parsepipe.simps)
  then show "\<exists>c'. parseline n buf p = Ret (c', p + length (show_cmd ?c)) \<and> map_command (slice buf) c' = ?c"
    using c(2) by auto
qed

lemma reparses_printable: "printable c \<Longrightarrow> reparses buf c"
  by (induction c) (simp_all add: reparses_exec reparses_redir reparses_pipe reparses_list reparses_back)

text \<open>
  C4. Every command the parser can produce is the result of parsing its printed form: commands with at most nine
  arguments of word characters and the redirections \<open><\<close> and \<open>>\<close>, nested in any way, are parsed back to
  the same tree with the same words.
\<close>

theorem parsecmd_show:
  assumes "printable c"
  shows "\<exists>c' b. parsecmd (show_cmd c) = Ret (c', b) \<and> map_command (slice (show_cmd c)) c' = c"
proof -
  let ?buf = "show_cmd c"
  obtain c' where c: "parseline (4 * length ?buf + 4) ?buf 0 = Ret (c', 0 + length ?buf)" "map_command (slice ?buf) c' = c"
    by (rule reparsesD [where buf = ?buf and p = 0 and r = "[]", OF reparses_printable [OF assms]]) (auto simp: closes_def)
  then show ?thesis by (simp add: parsecmd_def peek_end)
qed

definition demo_cmd :: "u8 list command" where
  "demo_cmd = LIST (PIPE (EXEC [[108, 115]]) (REDIR (EXEC [[119, 99], [45, 108]]) [111, 117, 116] (O_WRONLY OR O_CREATE) 1)) (BACK (EXEC []))"

theorem parsecmd_show_witness:
  "printable demo_cmd \<and> (\<exists>c' b. parsecmd (show_cmd demo_cmd) = Ret (c', b) \<and> map_command (slice (show_cmd demo_cmd)) c' = demo_cmd)"
proof -
  have "printable demo_cmd" by code_simp
  then show ?thesis using parsecmd_show [of demo_cmd] by simp
qed

theorem parsecmd_strings_witness:
  "case parsecmd [108, 115, 124, 119, 99] of Fail e \<Rightarrow> False
   | Ret (c, b) \<Rightarrow> c = PIPE (EXEC [(0, 2)]) (EXEC [(3, 5)]) \<and> (\<forall>w\<in>set (words c). string_at b (fst w) = slice [108, 115, 124, 119, 99] w)"
proof -
  have p: "parsecmd [108, 115, 124, 119, 99] = Ret (PIPE (EXEC [(0, 2)]) (EXEC [(3, 5)]), [108, 115, 0, 119, 99, 0])"
    by code_simp
  show ?thesis using parsecmd_strings [OF _ p] unfolding p by simp
qed

end
