(* ===== verification/Uprog.thy ===== *)
theory Uprog
  imports Kstring
begin

text \<open>
  User programs, as the system calls they make: a program is a tree whose nodes are system calls and whose
  branches are the replies of the kernel.  On this basis the formatted output of \<open>user/lib/printf.c\<close> and the
  functions of \<open>user/lib/ulib.c\<close> that make system calls are modelled.

  The lemmas show that a printed decimal number is read back by \<open>atoi\<close>.
\<close>

section \<open>Programs\<close>

text \<open>Strings are lists of bytes without the terminating zero; \<open>lit\<close> is a string literal.\<close>

definition lit :: "string \<Rightarrow> u8 list" where
  "lit s = map of_char s"

datatype sysc =
    C_open "u8 list" int | C_close int | C_read int nat | C_write int "u8 list" | C_dup int | C_pipe
  | C_fork | C_wait | C_exec "u8 list" "u8 list list" | C_fstat int | C_kill int | C_unlink "u8 list"
  | C_link "u8 list" "u8 list" | C_mknod "u8 list" int int | C_sleep int | C_sysinfo

text \<open>The value of a call and what it stored for the caller: bytes, two descriptors, or numbers.\<close>

record sysret =
  rval :: int
  rbytes :: "u8 list"
  rends :: "int \<times> int"
  rinfo :: "u32 list"

definition ret :: "int \<Rightarrow> sysret" where
  "ret v = \<lparr>rval = v, rbytes = [], rends = (0, 0), rinfo = []\<rparr>"

text \<open>
  \<open>Loop\<close> is an endless loop (a failed assertion of \<open>inc/test.h\<close>), \<open>Cut\<close> marks the point where a model with
  bounded loops stops following the program.
\<close>

datatype prog = Exit | Loop | Cut | Call sysc "sysret \<Rightarrow> prog"

section \<open>Formatted output\<close>

definition udigit :: "bool \<Rightarrow> nat \<Rightarrow> u8" where
  "udigit upper d = (if d < 10 then of_nat (48 + d) else of_nat ((if upper then 55 else 87) + d))"

function udigits :: "bool \<Rightarrow> nat \<Rightarrow> nat \<Rightarrow> u8 list" where
  "udigits upper base x =
     udigit upper (x mod base) # (if base < 2 \<or> x div base = 0 then [] else udigits upper base (x div base))"
  by pat_completeness auto
termination by (relation "measure (\<lambda>(u, b, x). x)") (auto simp: div_eq_0_iff not_less)

declare udigits.simps [simp del]

definition uprintint64 :: "u32 \<Rightarrow> nat \<Rightarrow> bool \<Rightarrow> u8 list" where
  "uprintint64 xx base sg =
     (let neg = (sg \<and> sint xx < 0); x = (if neg then scast (- xx) else scast xx) :: u64
      in rev (udigits False base (unat x) @ (if neg then [45] else [])))"

definition uprintint :: "u32 \<Rightarrow> nat \<Rightarrow> bool \<Rightarrow> u8 list" where
  "uprintint xx base sg =
     (let neg = (sg \<and> sint xx < 0); x = (if neg then - xx else xx)
      in rev (udigits True base (unat x) @ (if neg then [45] else [])))"

datatype uarg = UInt u64 | UStr "u8 list option"

definition uarg_int :: "(u32 \<Rightarrow> u8 list) \<Rightarrow> uarg list \<Rightarrow> (u8 list \<times> uarg list) outcome" where
  "uarg_int f args = (case args of UInt w # as \<Rightarrow> Ret (f (ucast w), as) | _ \<Rightarrow> Fail (BadAccess ''va_arg''))"

definition uarg_str :: "uarg list \<Rightarrow> (u8 list \<times> uarg list) outcome" where
  "uarg_str args = (case args of UStr t # as \<Rightarrow> Ret (case t of None \<Rightarrow> lit ''(null)'' | Some bs \<Rightarrow> bs, as)
     | _ \<Rightarrow> Fail (BadAccess ''va_arg''))"

text \<open>
  The first argument is \<open>None\<close> outside a \<open>%\<close> sequence and \<open>lflag\<close> inside one.  \<open>printint64\<close>
  takes an \<open>int\<close>, so that also with \<open>%l\<close> only the low half of the argument is printed.
\<close>

fun uformat :: "bool option \<Rightarrow> u8 list \<Rightarrow> uarg list \<Rightarrow> u8 list outcome" where
  "uformat st [] args = Ret []"
| "uformat None (c # r) args = (if c = 37 then uformat (Some False) r args else omap ((#) c) (uformat None r args))"
| "uformat (Some l) (c # r) args =
     (let go = (\<lambda>(bs, as). omap ((@) bs) (uformat None r as))
      in if c = 108 then uformat (Some True) r args
         else if c = 100 then obind (uarg_int (\<lambda>x. if l then uprintint64 x 10 True else uprintint x 10 True) args) go
         else if c = 120 \<or> c = 112 then obind (uarg_int (\<lambda>x. if l then uprintint64 x 16 False else uprintint x 16 False) args) go
         else if c = 115 then obind (uarg_str args) go
         else if c = 99 then obind (uarg_int (\<lambda>x. [ucast x]) args) go
         else if c = 37 then go ([c], args)
         else go ([37, c], args))"

text \<open>Every byte is written by a call of its own.\<close>

definition putcs :: "int \<Rightarrow> u8 list \<Rightarrow> prog \<Rightarrow> prog" where
  "putcs fd bs k = foldr (\<lambda>b p. Call (C_write fd [b]) (\<lambda>_. p)) bs k"

definition uprintf :: "int \<Rightarrow> string \<Rightarrow> uarg list \<Rightarrow> prog \<Rightarrow> prog" where
  "uprintf fd fmt args k = (case uformat None (lit fmt) args of Ret bs \<Rightarrow> putcs fd bs k | Fail _ \<Rightarrow> Cut)"

text \<open>A format that ends its line.\<close>

definition nl :: "string \<Rightarrow> string" where
  "nl s = s @ [CHR 0x0A]"

text \<open>The macros \<open>assert\<close> and \<open>error\<close> of \<open>inc/test.h\<close> print a message and never return.\<close>

definition uassert :: "bool \<Rightarrow> nat \<Rightarrow> string \<Rightarrow> prog \<Rightarrow> prog" where
  "uassert b line a k = (if b then k
     else uprintf 1 (nl ''Assertion failed (line %d): %s'') [UInt (of_nat line), UStr (Some (lit a))] Loop)"

definition uerror :: "nat \<Rightarrow> string \<Rightarrow> uarg list \<Rightarrow> prog" where
  "uerror line msg args =
     putcs 1 (27 # lit ''[31mERROR: '' @ 27 # lit ''[0m'')
       (uprintf 1 ''(line %d) '' [UInt (of_nat line)] (uprintf 1 msg args (uprintf 1 (nl []) [] Loop)))"

section \<open>Library calls\<close>

text \<open>\<open>gets\<close>: at most \<open>max - 1\<close> bytes, up to and including a line end.\<close>

primrec gets_loop :: "nat \<Rightarrow> u8 list \<Rightarrow> (u8 list \<Rightarrow> prog) \<Rightarrow> prog" where
  "gets_loop 0 acc k = k acc"
| "gets_loop (Suc n) acc k = Call (C_read 0 1) (\<lambda>r.
     if rval r < 1 then k acc
     else let c = hd (rbytes r)
       in if c = 10 \<or> c = 13 then k (acc @ [c]) else gets_loop n (acc @ [c]) k)"

definition gets :: "nat \<Rightarrow> (u8 list \<Rightarrow> prog) \<Rightarrow> prog" where
  "gets limit k = gets_loop (limit - 1) [] k"

definition ustat :: "u8 list \<Rightarrow> (int \<Rightarrow> u32 list \<Rightarrow> prog) \<Rightarrow> prog" where
  "ustat nm k = Call (C_open nm 0) (\<lambda>r.
     if rval r < 0 then k (- 1) []
     else Call (C_fstat (rval r)) (\<lambda>st. Call (C_close (rval r)) (\<lambda>_. k (rval st) (rinfo st))))"

section \<open>Running a program\<close>

text \<open>
  A handler answers the calls of a program that does not fork; the run is the list of calls and replies and how
  it ended.
\<close>

datatype ending = Exited | Looping | Cut_off

primrec run_prog :: "prog \<Rightarrow> (sysc \<Rightarrow> 's \<Rightarrow> sysret \<times> 's) \<Rightarrow> 's \<Rightarrow> (sysc \<times> sysret) list \<times> ending \<times> 's" where
  "run_prog Exit h s = ([], Exited, s)"
| "run_prog Loop h s = ([], Looping, s)"
| "run_prog Cut h s = ([], Cut_off, s)"
| "run_prog (Call c k) h s =
     (case h c s of (r, s1) \<Rightarrow> case run_prog (k r) h s1 of (t, e, s2) \<Rightarrow> ((c, r) # t, e, s2))"

definition written :: "int \<Rightarrow> (sysc \<times> sysret) list \<Rightarrow> u8 list" where
  "written fd t = concat (map (\<lambda>(c, r). case c of C_write fd' bs \<Rightarrow> if fd' = fd then take (nat (rval r)) bs else [] | _ \<Rightarrow> []) t)"

section \<open>Decimal numbers\<close>

lemma udigits_value:
  "2 \<le> b \<Longrightarrow> b \<le> 10 \<Longrightarrow> \<exists>ds. udigits u b x = map (\<lambda>d. 48 + d) ds \<and> (\<forall>d\<in>set ds. unat d < b) \<and>
    foldr (\<lambda>d v. unat d + b * v) ds 0 = x"
proof (induction u b x rule: udigits.induct)
  case (1 u b x)
  let ?d = "of_nat (x mod b) :: u8"
  have m: "x mod b < b" using 1(2) by simp
  then have d: "unat ?d = x mod b" using 1(3) by (simp add: unat_of_nat)
  have c: "udigit u (x mod b) = 48 + ?d" using m 1(3) by (simp add: udigit_def)
  show ?case
  proof (cases "x div b = 0")
    case True
    then have "udigits u b x = map (\<lambda>d. 48 + d) [?d]" using c by (subst udigits.simps) simp
    moreover have "x mod b = x" using True by (metis div_mult_mod_eq add_0 mult_0)
    ultimately show ?thesis using d m by (intro exI [of _ "[?d]"]) simp
  next
    case False
    then obtain ds where ds: "udigits u b (x div b) = map (\<lambda>d. 48 + d) ds" "\<forall>d\<in>set ds. unat d < b"
      "foldr (\<lambda>d v. unat d + b * v) ds 0 = x div b" using 1 by auto
    have "udigits u b x = map (\<lambda>d. 48 + d) (?d # ds)"
      using c ds(1) False 1(2) by (subst udigits.simps) simp
    moreover have "unat ?d + b * (x div b) = x" using d by simp
    ultimately show ?thesis using d m ds by (intro exI [of _ "?d # ds"]) simp
  qed
qed

lemma foldl_value:
  "foldl (\<lambda>v d. v * 10 + ucast d) (of_nat n) (ds :: u8 list) = (of_nat (foldl (\<lambda>v d. v * 10 + unat d) n ds) :: u32)"
proof (induction ds arbitrary: n)
  case (Cons d ds)
  have "of_nat n * 10 + ucast d = (of_nat (n * 10 + unat d) :: u32)"
    by (simp add: unsigned_def)
  then show ?case using Cons.IH [of "n * 10 + unat d"] by (simp only: foldl_Cons)
qed simp

lemma cstr_at:
  "cstr m s xs \<Longrightarrow> m (s + of_nat (length xs)) = 0 \<and> (\<forall>i<length xs. m (s + of_nat i) = xs ! i)"
proof (induction xs arbitrary: s)
  case (Cons x xs)
  then have "m (s + 1 + of_nat (length xs)) = 0" "\<forall>i<length xs. m (s + 1 + of_nat i) = xs ! i" by auto
  with Cons.prems show ?case by (auto simp: add.assoc less_Suc_eq_0_disj)
qed simp

text \<open>
  C32. A number that \<open>printf\<close> prints with \<open>%d\<close> is read back by \<open>atoi\<close>: if memory holds the digits of a
  non-negative \<open>int\<close> as a string, \<open>atoi\<close> returns that number.
\<close>

theorem atoi_printint:
  assumes "0 \<le> sint x" "cstr m s (uprintint x 10 True)"
  shows "atoi s m = Some x"
proof -
  obtain ds where ds: "udigits True 10 (unat x) = map (\<lambda>d. 48 + d) ds" "\<forall>d\<in>set ds. unat d < 10"
    "foldr (\<lambda>d v. unat d + 10 * v) ds 0 = unat x" using udigits_value [of 10 True "unat x"] by auto
  have p: "uprintint x 10 True = map (\<lambda>d. 48 + d) (rev ds)"
    using assms(1) ds(1) by (simp add: uprintint_def rev_map)
  have "atoi_loop 0 s m = Some (foldl (\<lambda>v d. v * 10 + ucast d) 0 (rev ds))"
  proof (rule atoi_loop_digits)
    fix i assume i: "i < length (rev ds)"
    then have "rev ds ! i \<in> set ds" using nth_mem [of i "rev ds"] by simp
    then show "m (s + of_nat i) = 48 + rev ds ! i \<and> rev ds ! i \<le> 9"
      using cstr_at [OF assms(2)] i ds(2) by (auto simp: p word_le_nat_alt less_Suc_eq_le)
  qed (use cstr_at [OF assms(2)] in \<open>simp add: p\<close>)
  also have "foldl (\<lambda>v d. v * 10 + ucast d) 0 (rev ds) = x"
    using foldl_value [of 0 "rev ds"] ds(3) by (simp add: foldl_conv_foldr mult.commute add.commute)
  finally show ?thesis by (simp add: atoi_def)
qed

theorem atoi_printint_witness:
  "atoi 16 (\<lambda>a. if a = 16 then 52 else if a = 17 then 50 else 0) = Some 42"
proof -
  have "uprintint 42 10 True = [52, 50]" by code_simp
  then show ?thesis
    using atoi_printint [of 42 "\<lambda>a. if a = 16 then 52 else if a = 17 then 50 else 0" 16] by simp
qed

end
