(* ===== verification/Shell.thy ===== *)
theory Shell
  imports Sh Uprog
begin

text \<open>
  Running commands: \<open>runcmd\<close>, \<open>getcmd\<close> and \<open>main\<close> of \<open>user/sh.c\<close>, as programs that make system calls.  A command
  is run over the strings its words have after \<open>nulterminate\<close>.

  The lemmas show how the processes of a command line are connected: every program is started with the standard
  descriptors the line asks for and with no other descriptor open.
\<close>

section \<open>Running a command\<close>

definition sh_panic :: "string \<Rightarrow> prog" where
  "sh_panic s = uprintf 2 (nl ''%s'') [UStr (Some (lit s))] Exit"

definition fork1 :: "(int \<Rightarrow> prog) \<Rightarrow> prog" where
  "fork1 k = Call C_fork (\<lambda>r. if rval r < 0 then sh_panic ''fork'' else k (rval r))"

text \<open>\<open>pipe_side\<close> is what a child of a pipe does first: put end \<open>e\<close> of the pipe on descriptor \<open>fd\<close>.\<close>

definition pipe_side :: "int \<times> int \<Rightarrow> int \<Rightarrow> int \<Rightarrow> nat \<Rightarrow> string \<Rightarrow> string \<Rightarrow> prog \<Rightarrow> prog" where
  "pipe_side p e fd line a1 a2 k =
     Call (C_close fd) (\<lambda>r1. uassert (rval r1 = 0) line a1
      (Call (C_dup e) (\<lambda>r2. uassert (rval r2 = fd) (line + 1) a2
       (Call (C_close (fst p)) (\<lambda>r3. uassert (rval r3 = 0) (line + 2) ''close(p[0]) == 0''
        (Call (C_close (snd p)) (\<lambda>r4. uassert (rval r4 = 0) (line + 3) ''close(p[1]) == 0'' k)))))))"

primrec runcmd :: "u8 list command \<Rightarrow> prog" where
  "runcmd (EXEC argv) = (case argv of [] \<Rightarrow> Exit
     | a # _ \<Rightarrow> Call (C_exec a argv) (\<lambda>r.
         if rval r < 0 then uprintf 2 (nl ''failed to execute %s'') [UStr (Some a)] Exit
         else uerror 84 ''runcmd: a successful exec should not return'' []))"
| "runcmd (REDIR c file mode fd) =
     Call (C_close fd) (\<lambda>r1. uassert (rval r1 = 0) 89 ''close(rcmd->fd) == 0''
      (Call (C_open file mode) (\<lambda>r2.
        if rval r2 < 0 then uprintf 2 (nl ''open %s failed'') [UStr (Some file)] Exit
        else runcmd c)))"
| "runcmd (LIST c d) =
     fork1 (\<lambda>pid. if pid = 0 then runcmd c
       else Call C_wait (\<lambda>r. uassert (rval r = pid) 102 ''wait() == pid'' (runcmd d)))"
| "runcmd (PIPE c d) =
     Call C_pipe (\<lambda>r. if rval r < 0 then sh_panic ''pipe failed''
       else let p = rends r in
         fork1 (\<lambda>pid1. if pid1 = 0
           then pipe_side p (snd p) 1 112 ''close(stdout) == 0'' ''dup(p[1]) == stdout'' (runcmd c)
           else fork1 (\<lambda>pid2. if pid2 = 0
             then pipe_side p (fst p) 0 119 ''close(stdin) == 0'' ''dup(p[0]) == stdin'' (runcmd d)
             else
               Call (C_close (fst p)) (\<lambda>r1. uassert (rval r1 = 0) 125 ''close(p[0]) == 0''
                (Call (C_close (snd p)) (\<lambda>r2. uassert (rval r2 = 0) 126 ''close(p[1]) == 0''
                 (Call C_wait (\<lambda>r3. uassert (0 < rval r3) 127 ''wait() > 0''
                  (Call C_wait (\<lambda>r4. uassert (0 < rval r4) 128 ''wait() > 0'' Exit))))))))))"
| "runcmd (BACK c) = fork1 (\<lambda>pid. if pid = 0 then runcmd c else Exit)"

section \<open>The shell\<close>

text \<open>
  \<open>getcmd\<close> passes on the line as a string, \<open>None\<close> at the end of the input.  What the parser leaves behind a
  complete command is printed before the message.
\<close>

definition getcmd :: "nat \<Rightarrow> (u8 list option \<Rightarrow> prog) \<Rightarrow> prog" where
  "getcmd nbuf k = uprintf 2 ''$ '' [] (gets nbuf (\<lambda>bs.
     let s = takeWhile (\<lambda>c. c \<noteq> 0) bs in k (if s = [] then None else Some s)))"

definition leftovers :: "u8 list \<Rightarrow> u8 list option" where
  "leftovers buf = (case parseline (4 * length buf + 4) buf 0 of Fail _ \<Rightarrow> None
     | Ret (c, p) \<Rightarrow> Some (drop (snd (peek buf p [])) buf))"

definition runline :: "u8 list \<Rightarrow> prog" where
  "runline buf = (case parsecmd buf of
     Ret (c, b) \<Rightarrow> runcmd (map_command (\<lambda>w. string_at b (fst w)) c)
   | Fail e \<Rightarrow> (let msg = (case e of Panic m \<Rightarrow> m | _ \<Rightarrow> [])
       in case leftovers buf of
            Some s \<Rightarrow> uprintf 2 (nl ''leftovers: %s'') [UStr (Some s)] (sh_panic msg)
          | None \<Rightarrow> sh_panic msg))"

text \<open>The two loops of \<open>main\<close>, each with a bound on its rounds.\<close>

primrec sh_open :: "nat \<Rightarrow> prog \<Rightarrow> prog" where
  "sh_open 0 k = Cut"
| "sh_open (Suc n) k = Call (C_open (lit ''console'') O_RDWR) (\<lambda>r.
     if rval r < 0 then k
     else if 2 < rval r then Call (C_close (rval r)) (\<lambda>_. k)
     else sh_open n k)"

primrec sh_lines :: "nat \<Rightarrow> prog" where
  "sh_lines 0 = Cut"
| "sh_lines (Suc n) = getcmd 100 (\<lambda>l. case l of None \<Rightarrow> Exit
     | Some buf \<Rightarrow>
         if buf = lit (nl ''exit'') then Exit
         else fork1 (\<lambda>pid. if pid = 0 then runline buf
           else Call C_wait (\<lambda>r. uassert (rval r = pid) 171 ''wait() == pid'' (sh_lines n))))"

definition sh_main :: "nat \<Rightarrow> prog" where
  "sh_main n = sh_open n (sh_lines n)"

section \<open>What the descriptors of a process refer to\<close>

text \<open>
  Processes that fork, seen through their descriptor tables: a table has \<open>NOFILE\<close> entries, a new descriptor is the lowest
  free one, a child starts with the table of its parent, and \<open>wait\<close> returns the children in the order in
  which they were made.  A run is the list of the programs that are executed, each with its table; an
  endless loop or a program that is cut off is recorded too.  A file can be opened if \<open>can\<close> says so.
\<close>

datatype endp = Inherited nat | Named "u8 list" int | Pipe_read nat | Pipe_write nat

type_synonym fdtab = "endp option list"

datatype event = Launch "u8 list" "u8 list list" fdtab | Stuck

definition fd_new :: "fdtab \<Rightarrow> endp \<Rightarrow> int \<times> fdtab" where
  "fd_new t e = (case find_idx (\<lambda>x. x = None) t of None \<Rightarrow> (- 1, t) | Some i \<Rightarrow> (int i, t[i := Some e]))"

definition fd_get :: "fdtab \<Rightarrow> int \<Rightarrow> endp option" where
  "fd_get t fd = (if 0 \<le> fd \<and> fd < int (length t) then t ! nat fd else None)"

text \<open>The calls that concern one table only, with the number of the next pipe.\<close>

fun fd_call :: "(u8 list \<Rightarrow> int \<Rightarrow> bool) \<Rightarrow> sysc \<Rightarrow> fdtab \<Rightarrow> nat \<Rightarrow> sysret \<times> fdtab \<times> nat" where
  "fd_call can (C_close fd) t n =
     (if fd_get t fd = None then (ret (- 1), t, n) else (ret 0, t[nat fd := None], n))"
| "fd_call can (C_dup fd) t n = (case fd_get t fd of None \<Rightarrow> (ret (- 1), t, n)
     | Some e \<Rightarrow> case fd_new t e of (i, t') \<Rightarrow> (ret i, t', n))"
| "fd_call can (C_open f mode) t n =
     (if \<not> can f mode then (ret (- 1), t, n) else case fd_new t (Named f mode) of (i, t') \<Rightarrow> (ret i, t', n))"
| "fd_call can C_pipe t n = (case fd_new t (Pipe_read n) of (i, t1) \<Rightarrow> case fd_new t1 (Pipe_write n) of (j, t2) \<Rightarrow>
     if i < 0 \<or> j < 0 then (ret (- 1), t, n) else (ret 0 \<lparr>rends := (i, j)\<rparr>, t2, n + 1))"
| "fd_call can (C_write fd bs) t n = (ret (if fd_get t fd = None then - 1 else int (length bs)), t, n)"
| "fd_call can c t n = (ret (- 1), t, n)"

text \<open>\<open>kids\<close> are the processes still to be waited for, \<open>n\<close> numbers pipes and \<open>q\<close> processes.\<close>

primrec procs :: "prog \<Rightarrow> (u8 list \<Rightarrow> int \<Rightarrow> bool) \<Rightarrow> fdtab \<Rightarrow> int list \<Rightarrow> nat \<Rightarrow> nat \<Rightarrow> event list \<times> nat \<times> nat" where
  "procs Exit can t kids n q = ([], n, q)"
| "procs Loop can t kids n q = ([Stuck], n, q)"
| "procs Cut can t kids n q = ([Stuck], n, q)"
| "procs (Call c k) can t kids n q = (case c of
     C_fork \<Rightarrow>
       (case procs (k (ret 0)) can t [] n (q + 1) of (l1, n1, q1) \<Rightarrow>
          case procs (k (ret (int q + 1))) can t (kids @ [int q + 1]) n1 q1 of (l2, n2, q2) \<Rightarrow> (l1 @ l2, n2, q2))
   | C_wait \<Rightarrow> (case kids of [] \<Rightarrow> procs (k (ret (- 1))) can t [] n q
       | pid # kids' \<Rightarrow> procs (k (ret pid)) can t kids' n q)
   | C_exec f argv \<Rightarrow> ([Launch f argv t], n, q)
   | _ \<Rightarrow> (case fd_call can c t n of (r, t', n') \<Rightarrow> procs (k r) can t' kids n' q))"

section \<open>How a command is connected\<close>

text \<open>The standard descriptors and nothing else.\<close>

type_synonym stdio = "endp \<times> endp \<times> endp"

definition std :: "stdio \<Rightarrow> fdtab" where
  "std = (\<lambda>(i, d, e). [Some i, Some d, Some e] @ replicate (NOFILE - 3) None)"

text \<open>What each program of a command is meant to be connected to; \<open>n\<close> is the next pipe.\<close>

primrec wires :: "u8 list command \<Rightarrow> (u8 list \<Rightarrow> int \<Rightarrow> bool) \<Rightarrow> stdio \<Rightarrow> nat \<Rightarrow> event list \<times> nat" where
  "wires (EXEC argv) can s n = (case argv of [] \<Rightarrow> [] | a # _ \<Rightarrow> [Launch a argv (std s)], n)"
| "wires (REDIR c f mode fd) can s n =
     (if can f mode
      then wires c can (if fd = 0 then (Named f mode, snd s) else (fst s, Named f mode, snd (snd s))) n
      else ([], n))"
| "wires (PIPE c d) can s n =
     (case wires c can (fst s, Pipe_write n, snd (snd s)) (n + 1) of (l1, n1) \<Rightarrow>
        case wires d can (Pipe_read n, snd s) n1 of (l2, n2) \<Rightarrow> (l1 @ l2, n2))"
| "wires (LIST c d) can s n =
     (case wires c can s n of (l1, n1) \<Rightarrow> case wires d can s n1 of (l2, n2) \<Rightarrow> (l1 @ l2, n2))"
| "wires (BACK c) can s n = wires c can s n"

text \<open>
  A command fits the structures of the source: an argument array has room for the terminating null, and a redirection
  opens the standard input for reading or the standard output for writing.
\<close>

primrec cmd_wf :: "'w command \<Rightarrow> bool" where
  "cmd_wf (EXEC argv) \<longleftrightarrow> length argv < MAXARGS"
| "cmd_wf (REDIR c f mode fd) \<longleftrightarrow> cmd_wf c \<and> (fd = 0 \<and> mode = O_RDONLY \<or> fd = 1 \<and> mode = (O_WRONLY OR O_CREATE))"
| "cmd_wf (PIPE c d) \<longleftrightarrow> cmd_wf c \<and> cmd_wf d"
| "cmd_wf (LIST c d) \<longleftrightarrow> cmd_wf c \<and> cmd_wf d"
| "cmd_wf (BACK c) \<longleftrightarrow> cmd_wf c"

lemma procs_putcs [simp]: "procs (putcs fd bs k) can t kids n q = procs k can t kids n q"
  by (induction bs) (simp_all add: putcs_def)

lemma std_list:
  "std (i, d, e) = [Some i, Some d, Some e, None, None, None, None, None, None, None, None, None, None, None, None, None]"
  by (simp add: std_def NOFILE_def eval_nat_numeral)

lemmas table_simps = std_list fd_get_def fd_new_def ret_def fork1_def pipe_side_def uassert_def

lemma uprintf_open_failed: "procs (uprintf 2 (nl ''open %s failed'') [UStr (Some f)] Exit) can t kids n q = ([], n, q)"
  by (simp add: uprintf_def nl_def lit_def uarg_str_def)

lemma runcmd_procs:
  "cmd_wf c \<Longrightarrow> \<exists>q'. procs (runcmd c) can (std s) [] n q = (fst (wires c can s n), snd (wires c can s n), q')"
proof (induction c arbitrary: s n q)
  case (EXEC argv)
  then show ?case by (cases argv) simp_all
next
  case (REDIR c f mode fd)
  obtain i d e where s: "s = (i, d, e)" by (cases s)
  show ?case
  proof (cases "fd = 0")
    case True
    then show ?thesis
      using REDIR.IH [of "(Named f mode, d, e)" n q] REDIR.prems
      by (simp add: s table_simps uprintf_open_failed)
  next
    case False
    then show ?thesis
      using REDIR.IH [of "(i, Named f mode, e)" n q] REDIR.prems
      by (simp add: s table_simps uprintf_open_failed)
  qed
next
  case (LIST c d)
  obtain l1 n1 where w: "wires c can s n = (l1, n1)" by (cases "wires c can s n")
  obtain q1 where "procs (runcmd c) can (std s) [] n (q + 1) = (l1, n1, q1)"
    using LIST.IH(1) [of s n "q + 1"] LIST.prems w by auto
  moreover obtain q2 where "procs (runcmd d) can (std s) [] n1 q1 = (fst (wires d can s n1), snd (wires d can s n1), q2)"
    using LIST.IH(2) [of s n1 q1] LIST.prems by auto
  ultimately show ?case by (simp add: w fork1_def ret_def uassert_def split: prod.split)
next
  case (PIPE c d)
  obtain i u e where s: "s = (i, u, e)" by (cases s)
  obtain l1 n1 where w: "wires c can (i, Pipe_write n, e) (n + 1) = (l1, n1)" by (cases "wires c can (i, Pipe_write n, e) (n + 1)")
  obtain q1 where "procs (runcmd c) can (std (i, Pipe_write n, e)) [] (n + 1) (q + 1) = (l1, n1, q1)"
    using PIPE.IH(1) [of "(i, Pipe_write n, e)" "n + 1" "q + 1"] PIPE.prems w by auto
  moreover obtain q2 where "procs (runcmd d) can (std (Pipe_read n, u, e)) [] n1 (q1 + 1) =
      (fst (wires d can (Pipe_read n, u, e) n1), snd (wires d can (Pipe_read n, u, e) n1), q2)"
    using PIPE.IH(2) [of "(Pipe_read n, u, e)" n1 "q1 + 1"] PIPE.prems by auto
  ultimately show ?case using w by (simp add: s table_simps Let_def split: prod.split)
next
  case (BACK c)
  obtain q1 where "procs (runcmd c) can (std s) [] n (q + 1) = (fst (wires c can s n), snd (wires c can s n), q1)"
    using BACK.IH [of s n "q + 1"] BACK.prems by auto
  then show ?case by (simp add: fork1_def ret_def)
qed

section \<open>From the line to the processes\<close>

lemma cmd_wf_map [simp]: "cmd_wf (map_command f c) \<longleftrightarrow> cmd_wf c"
  by (induction c) auto

definition std_redir :: "redir \<Rightarrow> bool" where
  "std_redir r \<longleftrightarrow> snd (snd r) = 0 \<and> fst (snd r) = O_RDONLY \<or> snd (snd r) = 1 \<and> fst (snd r) = (O_WRONLY OR O_CREATE)"

lemma cmd_wf_wrap [simp]: "cmd_wf (wrap rs c) \<longleftrightarrow> cmd_wf c \<and> list_all std_redir rs"
  by (induction rs arbitrary: c) (simp_all add: wrap_def std_redir_def case_prod_beta conj_assoc)

lemma redir_of_std [simp]: "std_redir (redir_of tok q eq)"
  by (simp add: redir_of_def std_redir_def)

text \<open>The part of a result that was parsed, if any, satisfies \<open>P\<close>.\<close>

definition gives :: "('c \<Rightarrow> bool) \<Rightarrow> ('c \<times> nat) outcome \<Rightarrow> bool" where
  "gives P r \<longleftrightarrow> (\<forall>c p. r = Ret (c, p) \<longrightarrow> P c)"

lemma gives_simps [simp]: "gives P (Ret (c, p)) \<longleftrightarrow> P c" "gives P (Fail e)"
  by (simp_all add: gives_def)

lemma gives_bind:
  assumes "gives Q r" "\<And>c p. Q c \<Longrightarrow> gives P (f (c, p))"
  shows "gives P (obind r f)"
proof (cases r)
  case (Ret x)
  then show ?thesis using assms by (cases x) simp
qed simp

lemma gives_map:
  assumes "gives Q r" "\<And>c. Q c \<Longrightarrow> P (g c)"
  shows "gives P (omap (\<lambda>(c, p). (g c, p)) r)"
proof (cases r)
  case (Ret x)
  then show ?thesis using assms by (cases x) simp
qed simp

lemma parseredirs_wf: "gives (list_all std_redir) (parseredirs n buf p)"
proof (induction n arbitrary: p)
  case (Suc n)
  show ?case by (simp add: case_prod_beta gives_map [OF Suc.IH])
qed simp

lemma parse_backs_wf: "cmd_wf c \<Longrightarrow> gives cmd_wf (parse_backs n buf c p)"
  by (induction n arbitrary: c p) (simp_all add: case_prod_beta)

lemma parse_args_wf: "list_all std_redir rs \<Longrightarrow> length args < MAXARGS \<Longrightarrow> gives cmd_wf (parse_args n buf args rs p)"
proof (induction n arbitrary: args rs p)
  case (Suc n)
  then show ?case by (simp add: case_prod_beta gives_bind [OF parseredirs_wf])
qed simp

lemma parser_wf:
  "gives cmd_wf (parseline n buf p) \<and> gives cmd_wf (parsepipe n buf q) \<and>
   gives cmd_wf (parseexec n buf r) \<and> gives cmd_wf (parseblock n buf u)"
proof (induction n arbitrary: p q r u)
  case (Suc n)
  note line = Suc.IH [THEN conjunct1] and pipe = Suc.IH [THEN conjunct2, THEN conjunct1]
    and exec = Suc.IH [THEN conjunct2, THEN conjunct2, THEN conjunct1]
    and block = Suc.IH [THEN conjunct2, THEN conjunct2, THEN conjunct2]
  have "gives cmd_wf (parseline (Suc n) buf p)"
    by (simp add: case_prod_beta gives_bind [OF pipe] gives_bind [OF parse_backs_wf] gives_map [OF line])
  moreover have "gives cmd_wf (parsepipe (Suc n) buf q)"
    by (simp add: case_prod_beta gives_bind [OF exec] gives_map [OF pipe])
  moreover have "gives cmd_wf (parseexec (Suc n) buf r)"
    by (simp add: case_prod_beta gives_bind [OF parseredirs_wf] parse_args_wf MAXARGS_def block)
  moreover have "gives cmd_wf (parseblock (Suc n) buf u)"
    by (simp add: case_prod_beta gives_bind [OF line] gives_map [OF parseredirs_wf])
  ultimately show ?case by blast
qed simp

lemma parsed_wf: "parsecmd buf = Ret (c, b) \<Longrightarrow> cmd_wf c"
  using parser_wf [of "4 * length buf + 4" buf 0, THEN conjunct1]
  by (auto simp: parsecmd_def case_prod_beta gives_def split: if_splits)

text \<open>
  C25. The command that the parser builds fits the structures of the source: no argument array of \<open>MAXARGS\<close>
  entries is filled up to its last entry, and every redirection opens descriptor 0 for reading or descriptor 1
  for writing and creation.  This holds for the positions of the words as well as for the strings.
\<close>

theorem parsecmd_wf:
  assumes "parsecmd buf = Ret (c, b)"
  shows "cmd_wf c \<and> cmd_wf (map_command (\<lambda>w. string_at b (fst w)) c)"
  using parsed_wf [OF assms] by simp

theorem parsecmd_wf_witness:
  "\<exists>c b. parsecmd (lit ''a < b | c'') = Ret (c, b) \<and> cmd_wf c \<and> cmd_wf (map_command (\<lambda>w. string_at b (fst w)) c)"
proof -
  have "case parsecmd (lit ''a < b | c'') of Ret _ \<Rightarrow> True | Fail _ \<Rightarrow> False" by code_simp
  then obtain c b where p: "parsecmd (lit ''a < b | c'') = Ret (c, b)" by (auto split: outcome.splits)
  show ?thesis using p parsecmd_wf [OF p] by blast
qed



end
