(* ===== verification/Spec2Isabelle.thy ===== *)
theory Spec2Isabelle
  imports Kstring Trap Mkfs Grep Shell Utils
begin

text \<open>
  A verification development for xk, a small x86-64 operating system in C: the kernel under \<open>kernel/\<close> and \<open>inc/\<close>, the
  host program \<open>mkfs.c\<close> that builds its file system image, and the user programs and library under \<open>user/\<close>.

  \<^bold>\<open>The program.\<close>  The kernel allocates physical pages (\<open>kalloc.c\<close>), builds page tables from them (\<open>x86_64vm.c\<close>) and describes
  address spaces by regions and pages (\<open>vspace.c\<close>).  Processes live in a table (\<open>proc.c\<close>) and run until they yield, sleep or
  exit; spin locks (\<open>spinlock.c\<close>) protect short sections, sleeping locks (\<open>sleeplock.c\<close>) long ones.  The disk driver (\<open>ide.c\<close>)
  serves the buffer cache (\<open>bio.c\<close>), on which the read-only file system (\<open>fs.c\<close>) and the open files and pipes (\<open>file.c\<close>) are
  built.  System calls (\<open>syscall.c\<close>, \<open>sysfile.c\<close>, \<open>sysproc.c\<close>) and interrupts enter through \<open>trap.c\<close>.  User programs call
  the kernel through the library; the shell (\<open>sh.c\<close>) parses a line and connects the processes it starts.

  \<^bold>\<open>Method.\<close>  C functions are HOL functions on an explicit state.  The state of the kernel is one record that grows from
  theory to theory, in the order of the list below; a function is typed on the part of the state it needs and applies
  to every extension.  A function that can stop the machine returns an \<open>outcome\<close>: \<open>Ret\<close> with the result, or \<open>Fail\<close> with a
  \<open>panic\<close>, an access through a null or wild pointer, an endless loop, or a reboot.  Words have the width of the
  source.  A process that gives up the processor is cut at the switch: the part up to \<open>sched()\<close> and the part after it
  are two definitions (\<open>sleep_switch\<close> and \<open>sleep_resume\<close>, \<open>yield_switch\<close> and \<open>yield_resume\<close>, and \<open>_resume\<close> functions of the callers),
  so that what other processes do in between is explicit.  There is one processor, as in the configuration of the source.

  \<^bold>\<open>Theories of the kernel.\<close>
  \<^item> \<open>Prelude\<close>: outcomes, folds and searches, and lemmas on lists and words that the components share.
  \<^item> \<open>Layout\<close>: constants and address arithmetic of \<open>inc/param.h\<close>, \<open>inc/memlayout.h\<close>, \<open>inc/mmu.h\<close>, \<open>inc/fcntl.h\<close>.
  \<^item> \<open>Locks\<close>: \<open>spinlock.c\<close>; the interrupt flag, the nesting of \<open>pushcli\<close> and the contract of a lock as a locale, interpreted
    here for spin locks and in \<open>Sleeplock\<close> for sleeping locks.
  \<^item> \<open>Kalloc\<close>: \<open>kalloc.c\<close>; allocation takes the lowest free page, reference counts are exact, and start-up makes exactly the pages
    behind the kernel available.  The locale \<open>frame_pool\<close> is what clients rely on.
  \<^item> \<open>Kstring\<close>: \<open>string.c\<close> and the string functions of \<open>ulib.c\<close> on a flat memory, with overlapping ranges.
  \<^item> \<open>Pagetable\<close>: \<open>x86_64vm.c\<close>; \<open>mappages\<close> against the translation that the processor computes.
  \<^item> \<open>Vspace\<close>: \<open>vspace.c\<close> (definitions).
  \<^item> \<open>Sched\<close>: the table, \<open>allocproc\<close>, \<open>sleep\<close>, \<open>wakeup\<close>, \<open>kill\<close> and the scheduling loop of \<open>proc.c\<close>; the table invariant, no lost
    wake-ups, and a locale for what the loop needs of the processes it runs.
  \<^item> \<open>Sleeplock\<close>, \<open>Io\<close> (\<open>picirq.c\<close>, \<open>ioapic.c\<close>, \<open>lapic.c\<close>), \<open>Boot\<close> (\<open>e820.c\<close>, \<open>mp.c\<close>, \<open>bootmain.c\<close>).
  \<^item> \<open>Ide\<close> and \<open>Bio\<close>: \<open>ide.c\<close> and \<open>bio.c\<close>; the cache together with the driver refines an array of blocks.
  \<^item> \<open>Fs\<close>: \<open>fs.c\<close>; reading of files.
  \<^item> \<open>File\<close>: \<open>file.c\<close>; pipes refine a bounded queue, and their readers are woken.
  \<^item> \<open>Proc\<close>: \<open>userinit\<close>, \<open>fork\<close>, \<open>exit\<close>, \<open>wait\<close>, \<open>sbrk\<close> of \<open>proc.c\<close>; how exit and wait meet.
  \<^item> \<open>Exec\<close> (\<open>exec.c\<close> and the loader of \<open>vspace.c\<close>), \<open>Pgfault\<close> (stack growth, copy on write and user memory accesses of
    \<open>trap.c\<close>; the copy of a shared page), \<open>Console\<close> (\<open>console.c\<close>, \<open>uart.c\<close>, \<open>kbd.c\<close>; the input ring and the screen survive every
    interrupt).
  \<^item> \<open>Syscall\<close>: \<open>syscall.c\<close>, \<open>sysfile.c\<close>, \<open>sysproc.c\<close>, \<open>syscrash.c\<close>; what the check of a pointer argument guarantees.
  \<^item> \<open>Trap\<close>: \<open>trap.c\<close> and \<open>main.c\<close>; a killed process never returns to its program.

  \<^bold>\<open>Theories of the other programs.\<close>
  \<^item> \<open>Mkfs\<close>: \<open>mkfs.c\<close>; the image decodes, with the decoders of \<open>Fs\<close>, to the files it was made from.
  \<^item> \<open>Sh\<close> and \<open>Shell\<close>: \<open>sh.c\<close>; the parser ends, inverts printing and keeps the words intact, and the processes of a
    line are connected as it says.
  \<^item> \<open>Grep\<close>: the matcher and the line loop of \<open>grep.c\<close>, against the language of a pattern.
  \<^item> \<open>Uprog\<close> and \<open>Utils\<close>: \<open>printf.c\<close>, the calls of \<open>ulib.c\<close> and the other programs under \<open>user/\<close>, as trees of system calls.

  \<^bold>\<open>Bounds.\<close>  Recursion that is not structural has a termination proof, or a number of rounds as an argument.  The parser
  of the shell gets \<open>4 * length buf + 4\<close>, which \<open>Sh.parsecmd_ends\<close> shows to be enough for every line.  Page table loops get
  the number of pages of the range plus one, the console interrupt one more than the bytes waiting in the device, \<open>sys_exec\<close> the
  number of pointers that fit into the regions plus two.  Programs that read until the end of their input stop with the value \<open>Cut\<close> when
  their bound is used up; the theorems about them show that a bound above the number of reads is never used up.

  \<^bold>\<open>Not modelled.\<close>  Assembly code (entry, context switch, trap vectors, system call stubs), the descriptor tables of the
  processor and its translation cache; output that is only for debugging (\<open>procdump\<close>, the call stack of \<open>panic\<close>, dumps of
  regions and of the memory map); \<open>cpuid.c\<close>, which only prints; \<open>memide.c\<close>, which the build leaves out; and the test programs
  under \<open>user/\<close>, which state expectations about the kernel and implement nothing.
\<close>

end
